(* ===== verification/Helios_Prelude.thy ===== *)
theory Helios_Prelude
  imports Main "HOL-Library.Word" "HOL-Library.Sublist"
begin

text \<open>
  Shared vocabulary of the development: the collections the component theories add their
  facts to, the model of \<^verbatim>\<open>std::string::find\<close> and of the other searches of the code, and
  generic lemmas about lists and maps.  A \<^verbatim>\<open>std::string\<close> is a list of characters, one
  per byte; a token id and a position are mathematical integers unless a theory says
  otherwise.
\<close>

named_theorems inv_defs "definitions of the invariants of the components"
named_theorems op_defs "definitions of the operations of the components"

type_synonym bytes = "char list"
type_synonym token = int

section \<open>Bytes\<close>

abbreviation byte_val :: "char \<Rightarrow> nat" where
  "byte_val c \<equiv> of_char c"

lemma byte_val_less [simp]: "byte_val c < 256"
  using nat_of_char_less_256 [of c] by simp

lemma ex_byte: "n < 256 \<Longrightarrow> byte_val (char_of n) = n"
  by (simp add: of_char_of)

section \<open>Searching in strings\<close>

text \<open>
  \<^term>\<open>find_str pat s\<close> is \<^verbatim>\<open>s.find(pat)\<close>: the least index at which the pattern occurs.  The
  search from an offset is a search in the suffix.
\<close>

fun find_str :: "'a list \<Rightarrow> 'a list \<Rightarrow> nat option" where
  "find_str pat [] = (if pat = [] then Some 0 else None)"
| "find_str pat (c # s) =
     (if take (length pat) (c # s) = pat then Some 0 else map_option Suc (find_str pat s))"

definition find_from :: "'a list \<Rightarrow> 'a list \<Rightarrow> nat \<Rightarrow> nat option" where
  "find_from pat s pos =
     (if pos \<le> length s then map_option ((+) pos) (find_str pat (drop pos s)) else None)"

definition occurs_at :: "'a list \<Rightarrow> 'a list \<Rightarrow> nat \<Rightarrow> bool" where
  "occurs_at pat s i \<longleftrightarrow> i + length pat \<le> length s \<and> take (length pat) (drop i s) = pat"

lemma occurs_at_0: "occurs_at pat s 0 \<longleftrightarrow> take (length pat) s = pat"
  by (auto simp: occurs_at_def) (metis length_take min.cobounded1)

lemma occurs_at_Suc: "occurs_at pat (c # s) (Suc i) \<longleftrightarrow> occurs_at pat s i"
  by (simp add: occurs_at_def)

lemma find_str_Some_iff:
  "find_str pat s = Some i \<longleftrightarrow> occurs_at pat s i \<and> (\<forall>j < i. \<not> occurs_at pat s j)"
proof (induction pat s arbitrary: i rule: find_str.induct)
  case (1 pat)
  then show ?case by (auto simp: occurs_at_def)
next
  case (2 pat c s)
  show ?case
  proof (cases i)
    case 0
    then show ?thesis by (auto simp: occurs_at_0)
  next
    case (Suc k)
    have "(\<forall>j < i. \<not> occurs_at pat (c # s) j) \<longleftrightarrow>
        \<not> occurs_at pat (c # s) 0 \<and> (\<forall>j < k. \<not> occurs_at pat s j)"
      unfolding Suc by (metis occurs_at_Suc less_Suc_eq_0_disj)
    then show ?thesis
      using "2.IH" [of k] by (auto simp: Suc occurs_at_0 occurs_at_Suc)
  qed
qed

lemma find_str_None_iff: "find_str pat s = None \<longleftrightarrow> (\<forall>j. \<not> occurs_at pat s j)"
proof -
  have "\<exists>i. find_str pat s = Some i" if ex: "occurs_at pat s j" for j
  proof -
    let ?i = "LEAST j. occurs_at pat s j"
    from ex have "occurs_at pat s ?i" by (rule LeastI)
    moreover have "\<forall>k < ?i. \<not> occurs_at pat s k" using not_less_Least by blast
    ultimately show ?thesis using find_str_Some_iff by blast
  qed
  moreover have "occurs_at pat s i" if "find_str pat s = Some i" for i
    using that find_str_Some_iff by blast
  ultimately show ?thesis by (metis not_None_eq option.distinct(1))
qed

lemma find_str_bound: "find_str pat s = Some i \<Longrightarrow> i + length pat \<le> length s"
  by (simp add: find_str_Some_iff occurs_at_def)

lemma find_str_decomp:
  "find_str pat s = Some i \<Longrightarrow> s = take i s @ pat @ drop (i + length pat) s"
proof -
  assume "find_str pat s = Some i"
  then have "take (length pat) (drop i s) = pat"
    by (simp add: find_str_Some_iff occurs_at_def)
  then have "drop i s = pat @ drop (length pat) (drop i s)"
    by (metis append_take_drop_id)
  then show "s = take i s @ pat @ drop (i + length pat) s"
    by (metis append_take_drop_id drop_drop add.commute)
qed

lemma occurs_at_append_left:
  "occurs_at pat s i \<Longrightarrow> occurs_at pat (s @ t) i"
  by (simp add: occurs_at_def)

lemma occurs_at_append_inside:
  "occurs_at pat (s @ t) i \<Longrightarrow> i + length pat \<le> length s \<Longrightarrow> occurs_at pat s i"
  by (simp add: occurs_at_def)

lemma occurs_at_drop: "k \<le> length s \<Longrightarrow> occurs_at pat (drop k s) i \<longleftrightarrow> occurs_at pat s (k + i)"
  by (auto simp: occurs_at_def add.commute add.left_commute)

text \<open>A match in a prefix is the match in every extension.\<close>

lemma find_str_append:
  assumes "find_str pat s = Some i" and "pat \<noteq> []"
  shows "find_str pat (s @ t) = Some i"
proof -
  from assms(1) have o: "occurs_at pat s i" and l: "\<forall>j < i. \<not> occurs_at pat s j"
    and b: "i + length pat \<le> length s"
    by (auto simp: find_str_Some_iff occurs_at_def)
  have "\<not> occurs_at pat (s @ t) j" if "j < i" for j
    using occurs_at_append_inside [of pat s t j] l that b by auto
  with o show ?thesis by (simp add: find_str_Some_iff occurs_at_append_left)
qed

section \<open>Least index with a property\<close>

text \<open>\<^verbatim>\<open>std::find_if\<close> over a vector, as the index of the first hit.\<close>

fun first_idx :: "('a \<Rightarrow> bool) \<Rightarrow> 'a list \<Rightarrow> nat option" where
  "first_idx P [] = None"
| "first_idx P (x # xs) = (if P x then Some 0 else map_option Suc (first_idx P xs))"

lemma first_idx_Some: "first_idx P xs = Some i \<Longrightarrow> i < length xs \<and> P (xs ! i)"
  by (induction xs arbitrary: i) (auto split: if_splits)

lemma first_idx_None: "first_idx P xs = None \<longleftrightarrow> (\<forall>x \<in> set xs. \<not> P x)"
  by (induction xs) auto

section \<open>Lists updated by index\<close>

lemma length_filter_update:
  assumes "i < length xs"
  shows "int (length (filter P (xs[i := y]))) =
    int (length (filter P xs)) - (if P (xs ! i) then 1 else 0) + (if P y then 1 else 0)"
proof -
  have "xs = take i xs @ xs ! i # drop (Suc i) xs"
    using assms by (rule id_take_nth_drop)
  then have "length (filter P xs) =
      length (filter P (take i xs)) + length (filter P (xs ! i # drop (Suc i) xs))"
    by (metis filter_append length_append)
  moreover have "xs[i := y] = take i xs @ y # drop (Suc i) xs"
    using assms by (rule upd_conv_take_nth_drop)
  ultimately show ?thesis by simp
qed

lemma all_update:
  "(\<forall>j < length xs. P j (xs ! j)) \<Longrightarrow> P i y \<Longrightarrow> \<forall>j < length xs. P j (xs[i := y] ! j)"
  by (metis nth_list_update_eq nth_list_update_neq)

section \<open>Results\<close>

text \<open>A fallible operation returns \<open>Inl\<close> of an error or \<open>Inr\<close> of a value.\<close>

fun bind_sum :: "'e + 'a \<Rightarrow> ('a \<Rightarrow> 'e + 'b) \<Rightarrow> 'e + 'b" where
  "bind_sum (Inl e) f = Inl e"
| "bind_sum (Inr x) f = f x"

lemma bind_sum_Inr: "bind_sum m f = Inr y \<longleftrightarrow> (\<exists>x. m = Inr x \<and> f x = Inr y)"
  by (cases m) auto

section \<open>Decimal numerals\<close>

text \<open>\<^verbatim>\<open>std::to_string\<close> and \<^verbatim>\<open>%d\<close> of a non-negative integer.\<close>

definition dec_digit :: "nat \<Rightarrow> char" where
  "dec_digit n = char_of (48 + n)"

fun dec_string :: "nat \<Rightarrow> bytes" where
  "dec_string n = (if n < 10 then [dec_digit n] else dec_string (n div 10) @ [dec_digit (n mod 10)])"

declare dec_string.simps [simp del]

definition dec_value :: "bytes \<Rightarrow> nat" where
  "dec_value s = foldl (\<lambda>a c. a * 10 + (byte_val c - 48)) 0 s"

lemma byte_val_digit: "n < 10 \<Longrightarrow> byte_val (dec_digit n) = 48 + n"
  by (simp add: dec_digit_def of_char_of)

lemma dec_value_string [simp]: "dec_value (dec_string n) = n"
proof (induction n rule: dec_string.induct)
  case (1 n)
  show ?case
  proof (cases "n < 10")
    case True
    then show ?thesis by (simp add: dec_string.simps [of n] dec_value_def byte_val_digit)
  next
    case False
    have "byte_val (dec_digit (n mod 10)) = 48 + n mod 10" by (simp add: byte_val_digit)
    with 1 False show ?thesis
      by (subst dec_string.simps) (simp add: dec_value_def)
  qed
qed

lemma dec_string_inj [simp]: "dec_string m = dec_string n \<longleftrightarrow> m = n"
  by (metis dec_value_string)

end
