(* ===== verification/Prefix_Policy.thy ===== *)
theory Prefix_Policy
  imports Helios_Prelude
begin

text \<open>
  The cross-request prefix-cache policy, \<^verbatim>\<open>src/engine/prefix.hpp\<close>: given the tokens the
  caches hold, how many of them are computed, the new prompt and the positions of the
  captured recurrent states, decide where the new request resumes.  Positions are the
  code's \<^verbatim>\<open>int\<close>s and stay far below its range (they are bounded by the prompt length and the
  cache capacity), so they are mathematical integers here.
\<close>

section \<open>The operations\<close>

definition POOL_TOKENS :: int where
  "POOL_TOKENS = 4"

definition prefix_checkpoint_before :: "int \<Rightarrow> int" where
  "prefix_checkpoint_before last_row =
     (if last_row > 0 then (last_row - 1) div POOL_TOKENS * POOL_TOKENS else 0)"

text \<open>The loop over the slots updates each position in place and keeps the running maximum.\<close>

fun discard_loop :: "int list \<Rightarrow> int \<Rightarrow> int \<Rightarrow> int list \<times> int" where
  "discard_loop [] resume latest = ([], latest)"
| "discard_loop (pos # rest) resume latest =
     (let pos' = (if pos > resume then -1 else pos);
          (rest', latest') = discard_loop rest resume (max latest pos')
      in (pos' # rest', latest'))"

definition prefix_discard_suffix :: "int list \<Rightarrow> int \<Rightarrow> int list \<times> int" where
  "prefix_discard_suffix snap_pos resume = discard_loop snap_pos resume 0"

record PrefixPlan =
  pl_common :: int
  pl_resume :: int
  pl_slot :: int
  pl_extend :: bool

text \<open>\<^verbatim>\<open>while (L < lim && L < ps && prompt[L] == hist[L]) L++\<close>; both indices are in range
  whenever the tokens are compared, since \<open>lim\<close> never exceeds the history.\<close>

function match_loop :: "token list \<Rightarrow> token list \<Rightarrow> nat \<Rightarrow> nat \<Rightarrow> nat" where
  "match_loop hist prompt lim L =
     (if L < lim \<and> L < length prompt \<and> prompt ! L = hist ! L
      then match_loop hist prompt lim (Suc L) else L)"
  by pat_completeness auto
termination
  by (relation "measure (\<lambda>(hist, prompt, lim, L). lim - L)") auto

declare match_loop.simps [simp del]

text \<open>The slot scan: the newest aligned snapshot at or below \<open>L\<close>, the first one among equals.\<close>

definition snap_usable :: "int \<Rightarrow> int \<Rightarrow> bool" where
  "snap_usable L p \<longleftrightarrow> p \<ge> 0 \<and> p \<le> L \<and> p mod POOL_TOKENS = 0"

fun best_slot_loop :: "int list \<Rightarrow> int \<Rightarrow> nat \<Rightarrow> int list \<Rightarrow> int \<Rightarrow> int" where
  "best_slot_loop snap_pos L i [] best = best"
| "best_slot_loop snap_pos L i (p # ps) best =
     (if snap_usable L p \<and> (best < 0 \<or> p > snap_pos ! nat best)
      then best_slot_loop snap_pos L (Suc i) ps (int i)
      else best_slot_loop snap_pos L (Suc i) ps best)"

definition prefix_plan ::
  "token list \<Rightarrow> int \<Rightarrow> token list \<Rightarrow> int list \<Rightarrow> int \<Rightarrow> PrefixPlan" where
  "prefix_plan hist pos prompt snap_pos reuse_limit =
     (let ps = int (length prompt);
          lim = max 0 (min (int (length hist)) (min pos reuse_limit));
          L0 = int (match_loop hist prompt (nat lim) 0);
          L1 = (if L0 \<ge> ps then ps - 1 else L0);
          L = (if L1 < 0 then 0 else L1)
      in if L = pos \<and> L = int (length hist)
         then \<lparr>pl_common = L0, pl_resume = L, pl_slot = -1, pl_extend = True\<rparr>
         else let best = best_slot_loop snap_pos L 0 snap_pos (-1)
              in if best \<ge> 0
                 then \<lparr>pl_common = L0, pl_resume = snap_pos ! nat best, pl_slot = best, pl_extend = False\<rparr>
                 else \<lparr>pl_common = L0, pl_resume = 0, pl_slot = -1, pl_extend = False\<rparr>)"

section \<open>Checkpoints and discarded suffixes\<close>

lemma checkpoint_before_facts:
  assumes "0 < e"
  shows "prefix_checkpoint_before e mod 4 = 0"
    and "0 \<le> prefix_checkpoint_before e"
    and "prefix_checkpoint_before e < e"
    and "e - prefix_checkpoint_before e \<le> 4"
  using assms by (auto simp: prefix_checkpoint_before_def POOL_TOKENS_def)

lemma discard_loop_spec:
  "discard_loop ps r m =
     (map (\<lambda>p. if p > r then -1 else p) ps, fold max (map (\<lambda>p. if p > r then -1 else p) ps) m)"
  by (induction ps r m rule: discard_loop.induct)
     (auto simp: Let_def max.commute split: prod.splits)

lemma fold_max_upper: "m \<le> fold max xs (m :: int) \<and> (\<forall>x \<in> set xs. x \<le> fold max xs m)"
proof (induction xs arbitrary: m)
  case (Cons x xs)
  show ?case using Cons.IH [of "max x m"] by auto
qed simp

lemma fold_max_member: "fold max xs (m :: int) \<in> insert m (set xs)"
proof (induction xs arbitrary: m)
  case (Cons x xs)
  show ?case using Cons.IH [of "max x m"] by (auto simp: max_def split: if_splits)
qed simp

lemma discard_suffix_slots:
  "fst (prefix_discard_suffix ps r) = map (\<lambda>p. if p > r then -1 else p) ps"
  by (simp add: prefix_discard_suffix_def discard_loop_spec)

lemma discard_suffix_latest:
  shows "0 \<le> snd (prefix_discard_suffix ps r)"
    and "p \<in> set (fst (prefix_discard_suffix ps r)) \<Longrightarrow> p \<le> snd (prefix_discard_suffix ps r)"
    and "snd (prefix_discard_suffix ps r) \<in> insert 0 (set (fst (prefix_discard_suffix ps r)))"
  using fold_max_upper [of 0 "map (\<lambda>p. if p > r then -1 else p) ps"]
    fold_max_member [of "map (\<lambda>p. if p > r then -1 else p) ps" 0]
  by (auto simp: prefix_discard_suffix_def discard_loop_spec simp del: fold_map)

lemma discard_suffix_latest_le: "0 \<le> r \<Longrightarrow> snd (prefix_discard_suffix ps r) \<le> r"
  using discard_suffix_latest (3) [of ps r] by (auto simp: discard_suffix_slots split: if_splits)

section \<open>The matched prefix\<close>

lemma match_loop_ge: "L \<le> match_loop hist prompt lim L"
proof (induction hist prompt lim L rule: match_loop.induct)
  case (1 hist prompt lim L)
  then show ?case
    by (cases "L < lim \<and> L < length prompt \<and> prompt ! L = hist ! L")
       (auto simp: match_loop.simps [of hist prompt lim L])
qed

lemma match_loop_le:
  "L \<le> lim \<Longrightarrow> L \<le> length prompt \<Longrightarrow>
   match_loop hist prompt lim L \<le> lim \<and> match_loop hist prompt lim L \<le> length prompt"
proof (induction hist prompt lim L rule: match_loop.induct)
  case (1 hist prompt lim L)
  then show ?case
    by (cases "L < lim \<and> L < length prompt \<and> prompt ! L = hist ! L")
       (auto simp: match_loop.simps [of hist prompt lim L])
qed

lemma match_loop_agree:
  "L \<le> i \<Longrightarrow> i < match_loop hist prompt lim L \<Longrightarrow> prompt ! i = hist ! i"
proof (induction hist prompt lim L rule: match_loop.induct)
  case (1 hist prompt lim L)
  show ?case
  proof (cases "L < lim \<and> L < length prompt \<and> prompt ! L = hist ! L")
    case True
    then have "match_loop hist prompt lim L = match_loop hist prompt lim (Suc L)"
      by (simp add: match_loop.simps [of hist prompt lim L])
    with 1 True show ?thesis by (cases "i = L") auto
  next
    case False
    with "1.prems" show ?thesis by (auto simp: match_loop.simps [of hist prompt lim L])
  qed
qed

text \<open>The loop stops at a bound or at a disagreement: the prefix found is the longest one.\<close>

lemma match_loop_maximal:
  "match_loop hist prompt lim L < lim \<Longrightarrow> match_loop hist prompt lim L < length prompt \<Longrightarrow>
   prompt ! match_loop hist prompt lim L \<noteq> hist ! match_loop hist prompt lim L"
proof (induction hist prompt lim L rule: match_loop.induct)
  case (1 hist prompt lim L)
  then show ?case
    by (cases "L < lim \<and> L < length prompt \<and> prompt ! L = hist ! L")
       (auto simp: match_loop.simps [of hist prompt lim L])
qed

lemma match_loop_take:
  assumes "lim \<le> length hist"
  shows "take (match_loop hist prompt lim 0) prompt = take (match_loop hist prompt lim 0) hist"
proof (rule nth_equalityI)
  let ?m = "match_loop hist prompt lim 0"
  have b: "?m \<le> lim" "?m \<le> length prompt" using match_loop_le [of 0 lim prompt hist] by auto
  with assms show "length (take ?m prompt) = length (take ?m hist)" by simp
  fix i assume "i < length (take ?m prompt)"
  with b show "take ?m prompt ! i = take ?m hist ! i"
    using match_loop_agree [of 0 i hist prompt lim] by simp
qed

section \<open>The slot scan\<close>

definition best_ok :: "int list \<Rightarrow> int \<Rightarrow> nat \<Rightarrow> int \<Rightarrow> bool" where
  "best_ok ps L n best \<longleftrightarrow>
     (if best < 0 then best = -1 \<and> (\<forall>j < n. \<not> snap_usable L (ps ! j))
      else nat best < n \<and> snap_usable L (ps ! nat best) \<and>
        (\<forall>j < n. snap_usable L (ps ! j) \<longrightarrow> ps ! j \<le> ps ! nat best))"

lemma best_slot_loop_ok:
  "best_ok ps L i best \<Longrightarrow> i + length qs = length ps \<Longrightarrow> drop i ps = qs \<Longrightarrow>
   best_ok ps L (length ps) (best_slot_loop ps L i qs best)"
proof (induction qs arbitrary: i best)
  case Nil
  then show ?case by simp
next
  case (Cons q qs)
  have q: "ps ! i = q" and tl: "drop (Suc i) ps = qs"
    using Cons.prems(3) by (metis nth_via_drop, metis drop_Suc list.sel(3) tl_drop)
  show ?case
  proof (cases "snap_usable L q \<and> (best < 0 \<or> q > ps ! nat best)")
    case True
    have "best_ok ps L (Suc i) (int i)"
      using Cons.prems(1) True q by (fastforce simp: best_ok_def less_Suc_eq split: if_splits)
    with True Cons tl show ?thesis by simp
  next
    case False
    have "best_ok ps L (Suc i) best"
      using Cons.prems(1) False q by (auto simp: best_ok_def less_Suc_eq split: if_splits)
    with False Cons tl show ?thesis by auto
  qed
qed

lemma best_slot_ok: "best_ok ps L (length ps) (best_slot_loop ps L 0 ps (-1))"
  by (rule best_slot_loop_ok) (simp_all add: best_ok_def)

section \<open>The plan\<close>

text \<open>Everything the runner needs from a plan, for a non-empty prompt.\<close>

lemma prefix_plan_cases:
  fixes hist prompt :: "token list" and pos reuse_limit :: int and snap_pos :: "int list"
  assumes "prompt \<noteq> []"
  defines "pl \<equiv> prefix_plan hist pos prompt snap_pos reuse_limit"
  defines "m \<equiv> match_loop hist prompt (nat (max 0 (min (int (length hist)) (min pos reuse_limit)))) 0"
  defines "L \<equiv> (if int m \<ge> int (length prompt) then int (length prompt) - 1 else int m)"
  shows "pl_common pl = int m"
    and "pl_extend pl \<Longrightarrow> pl_resume pl = L \<and> L = pos \<and> L = int (length hist) \<and> pl_slot pl = -1"
    and "\<not> pl_extend pl \<Longrightarrow> pl_slot pl \<ge> 0 \<Longrightarrow>
      nat (pl_slot pl) < length snap_pos \<and> pl_resume pl = snap_pos ! nat (pl_slot pl) \<and>
      snap_usable L (pl_resume pl) \<and> (\<forall>p \<in> set snap_pos. snap_usable L p \<longrightarrow> p \<le> pl_resume pl)"
    and "\<not> pl_extend pl \<Longrightarrow> pl_slot pl < 0 \<Longrightarrow>
      pl_slot pl = -1 \<and> pl_resume pl = 0 \<and> (\<forall>p \<in> set snap_pos. \<not> snap_usable L p)"
    and "pl_extend pl \<longleftrightarrow> L = pos \<and> L = int (length hist)"
proof -
  let ?b = "best_slot_loop snap_pos L 0 snap_pos (-1)"
  let ?ex = "L = pos \<and> L = int (length hist)"
  have L0: "\<not> L < 0" using assms by (cases prompt) (auto simp: L_def)
  have eq: "pl = (if ?ex then \<lparr>pl_common = int m, pl_resume = L, pl_slot = -1, pl_extend = True\<rparr>
      else if ?b \<ge> 0
      then \<lparr>pl_common = int m, pl_resume = snap_pos ! nat ?b, pl_slot = ?b, pl_extend = False\<rparr>
      else \<lparr>pl_common = int m, pl_resume = 0, pl_slot = -1, pl_extend = False\<rparr>)"
    unfolding pl_def prefix_plan_def Let_def m_def [symmetric] L_def [symmetric]
    using L0 by simp
  have b: "best_ok snap_pos L (length snap_pos) ?b"
    by (rule best_slot_ok)
  show "pl_common pl = int m" by (simp add: eq)
  show "pl_extend pl \<Longrightarrow> pl_resume pl = L \<and> L = pos \<and> L = int (length hist) \<and> pl_slot pl = -1"
    unfolding eq by (cases ?ex) (simp_all split: if_splits)
  show "pl_extend pl \<longleftrightarrow> ?ex"
    unfolding eq by (cases ?ex) (simp_all split: if_splits)
  show "nat (pl_slot pl) < length snap_pos \<and> pl_resume pl = snap_pos ! nat (pl_slot pl) \<and>
      snap_usable L (pl_resume pl) \<and> (\<forall>p \<in> set snap_pos. snap_usable L p \<longrightarrow> p \<le> pl_resume pl)"
    if "\<not> pl_extend pl" "pl_slot pl \<ge> 0"
  proof -
    from that have "\<not> ?ex" "?b \<ge> 0" unfolding eq by (auto split: if_splits)
    then have pl: "pl_slot pl = ?b" "pl_resume pl = snap_pos ! nat ?b" unfolding eq by auto
    show ?thesis
      using b \<open>?b \<ge> 0\<close> unfolding pl best_ok_def by (auto simp: in_set_conv_nth)
  qed
  show "pl_slot pl = -1 \<and> pl_resume pl = 0 \<and> (\<forall>p \<in> set snap_pos. \<not> snap_usable L p)"
    if "\<not> pl_extend pl" "pl_slot pl < 0"
  proof -
    from that have "\<not> ?ex" "\<not> ?b \<ge> 0" unfolding eq by (auto split: if_splits)
    then show ?thesis
      using b unfolding eq best_ok_def by (auto simp: in_set_conv_nth)
  qed
qed

text \<open>The resume position lies inside the prompt, the computed rows and the reuse limit, and
  the prompt and the resident history agree on everything before it.\<close>

lemma prefix_plan_resume:
  fixes hist prompt :: "token list" and pos lim :: int and snap_pos :: "int list"
  assumes "prompt \<noteq> []" and "0 \<le> pos" and "0 \<le> lim"
  defines "pl \<equiv> prefix_plan hist pos prompt snap_pos lim"
  shows "0 \<le> pl_resume pl" "pl_resume pl < int (length prompt)" "pl_resume pl \<le> pl_common pl"
    "pl_common pl \<le> int (length hist)" "pl_common pl \<le> pos" "pl_common pl \<le> lim"
    "take (nat (pl_common pl)) prompt = take (nat (pl_common pl)) hist"
proof -
  define k where "k = nat (max 0 (min (int (length hist)) (min pos lim)))"
  define m where "m = match_loop hist prompt k 0"
  define L where "L = (if int m \<ge> int (length prompt) then int (length prompt) - 1 else int m)"
  note c = prefix_plan_cases [OF assms(1), of hist pos snap_pos lim, folded pl_def k_def,
      folded m_def, folded L_def]
  have k: "int k \<le> int (length hist)" "int k \<le> pos" "int k \<le> lim"
    using assms(2,3) by (auto simp: k_def)
  have m: "m \<le> k" using match_loop_le [of 0 k prompt hist] by (simp add: m_def)
  have len: "0 < length prompt" using assms(1) by simp
  have L: "0 \<le> L" "L \<le> int m" "L < int (length prompt)" using len by (auto simp: L_def)
  have r: "0 \<le> pl_resume pl \<and> pl_resume pl \<le> L"
  proof (cases "pl_extend pl")
    case True
    then have "pl_resume pl = L" using c(2) by blast
    with L show ?thesis by simp
  next
    case ne: False
    show ?thesis
    proof (cases "pl_slot pl \<ge> 0")
      case True
      then have "snap_usable L (pl_resume pl)" using c(3) ne by blast
      then show ?thesis by (simp add: snap_usable_def)
    next
      case False
      then have "pl_resume pl = 0" using c(4) ne by linarith
      with L show ?thesis by simp
    qed
  qed
  then show "0 \<le> pl_resume pl" "pl_resume pl < int (length prompt)" "pl_resume pl \<le> pl_common pl"
    using L c(1) by linarith+
  show "pl_common pl \<le> int (length hist)" "pl_common pl \<le> pos" "pl_common pl \<le> lim"
    using m c(1) k by linarith+
  show "take (nat (pl_common pl)) prompt = take (nat (pl_common pl)) hist"
    unfolding c(1) nat_int m_def by (rule match_loop_take) (use k in linarith)
qed

section \<open>Properties\<close>

text \<open>C22: A plan never resumes past anything it may not: for a non-empty prompt the resume position is
  before the last prompt token and within the history, the computed rows and the reuse limit, and the
  prompt and the history agree on every token before it.  Unless the prompt extends the history, it is
  the position of the chosen snapshot, and no usable snapshot lies deeper.\<close>

theorem prefix_plan_sound:
  assumes "prompt \<noteq> []" and "0 \<le> pos" and "0 \<le> reuse_limit"
  shows "case prefix_plan hist pos prompt snap_pos reuse_limit of pl \<Rightarrow>
    0 \<le> pl_resume pl \<and> pl_resume pl < int (length prompt) \<and> pl_resume pl \<le> int (length hist) \<and>
    pl_resume pl \<le> pos \<and> pl_resume pl \<le> reuse_limit \<and>
    take (nat (pl_resume pl)) prompt = take (nat (pl_resume pl)) hist \<and>
    (pl_extend pl \<longrightarrow> pl_resume pl = pos \<and> pos = int (length hist)) \<and>
    (\<not> pl_extend pl \<longrightarrow> (if pl_slot pl < 0 then pl_resume pl = 0
       else nat (pl_slot pl) < length snap_pos \<and> pl_resume pl = snap_pos ! nat (pl_slot pl) \<and> pl_resume pl mod 4 = 0)) \<and>
    (\<not> pl_extend pl \<longrightarrow> (\<forall>p \<in> set snap_pos. 0 \<le> p \<and> p mod 4 = 0 \<and> p \<le> pl_common pl \<and> p < int (length prompt)
       \<longrightarrow> p \<le> pl_resume pl))"
proof -
  define pl where "pl = prefix_plan hist pos prompt snap_pos reuse_limit"
  note r = prefix_plan_resume [OF assms, of hist snap_pos, folded pl_def]
  define k where "k = nat (max 0 (min (int (length hist)) (min pos reuse_limit)))"
  define m where "m = match_loop hist prompt k 0"
  define L where "L = (if int m \<ge> int (length prompt) then int (length prompt) - 1 else int m)"
  note c = prefix_plan_cases [OF assms(1), of hist pos snap_pos reuse_limit, folded pl_def k_def,
      folded m_def, folded L_def]
  have t: "take (nat (pl_resume pl)) prompt = take (nat (pl_resume pl)) hist"
  proof -
    have "nat (pl_resume pl) \<le> nat (pl_common pl)" using r(3) by simp
    then have "take (nat (pl_resume pl)) xs = take (nat (pl_resume pl)) (take (nat (pl_common pl)) xs)" for xs :: "token list"
      by (simp add: min_absorb1)
    then show ?thesis using r(7) by metis
  qed
  have ext: "pl_extend pl \<longrightarrow> pl_resume pl = pos \<and> pos = int (length hist)" using c(2) by force
  have us4: "p mod 4 = 0" if "snap_usable L p" for p using that by (simp add: snap_usable_def POOL_TOKENS_def)
  have slot: "\<not> pl_extend pl \<longrightarrow> (if pl_slot pl < 0 then pl_resume pl = 0
       else nat (pl_slot pl) < length snap_pos \<and> pl_resume pl = snap_pos ! nat (pl_slot pl) \<and> pl_resume pl mod 4 = 0)"
  proof
    assume ne: "\<not> pl_extend pl"
    show "if pl_slot pl < 0 then pl_resume pl = 0
       else nat (pl_slot pl) < length snap_pos \<and> pl_resume pl = snap_pos ! nat (pl_slot pl) \<and> pl_resume pl mod 4 = 0"
    proof (cases "pl_slot pl < 0")
      case True
      with c(4) [OF ne] show ?thesis by simp
    next
      case False
      then have f: "nat (pl_slot pl) < length snap_pos \<and> pl_resume pl = snap_pos ! nat (pl_slot pl) \<and> snap_usable L (pl_resume pl)"
        using c(3) [OF ne] by linarith
      then have "pl_resume pl mod 4 = 0" using us4 by blast
      with f False show ?thesis by simp
    qed
  qed
  have us: "snap_usable L p" if "0 \<le> p" "p mod 4 = 0" "p \<le> pl_common pl" "p < int (length prompt)" for p
    using that unfolding snap_usable_def POOL_TOKENS_def L_def c(1) by simp
  have best: "p \<le> pl_resume pl"
    if "\<not> pl_extend pl" "p \<in> set snap_pos" "0 \<le> p" "p mod 4 = 0" "p \<le> pl_common pl" "p < int (length prompt)" for p
  proof (cases "pl_slot pl \<ge> 0")
    case True
    with c(3) [OF that(1)] us [OF that(3-6)] that(2) show ?thesis by blast
  next
    case False
    then have "pl_slot pl < 0" by simp
    with c(4) [OF that(1)] us [OF that(3-6)] that(2) show ?thesis by blast
  qed
  have bounds: "pl_resume pl \<le> int (length hist)" "pl_resume pl \<le> pos" "pl_resume pl \<le> reuse_limit"
    using r(3-6) by linarith+
  show ?thesis unfolding pl_def [symmetric] using r(1,2) bounds t ext slot best by simp
qed

theorem prefix_plan_sound_witness:
  "pl_resume (prefix_plan [5, 6, 7, 8, 9] 5 [5, 6, 7, 8, 1, 2] [4, 8, -1] 100) \<le> 5 \<and>
   prefix_plan [5, 6, 7, 8, 9] 5 [5, 6, 7, 8, 1, 2] [4, 8, -1] 100 =
     \<lparr>pl_common = 4, pl_resume = 4, pl_slot = 0, pl_extend = False\<rparr>"
  using prefix_plan_sound [of "[5, 6, 7, 8, 1, 2]" 5 100 "[5, 6, 7, 8, 9]" "[4, 8, -1]"]
  by (simp add: prefix_plan_def match_loop.simps snap_usable_def POOL_TOKENS_def)

text \<open>C23: Discarding the suffix invalidates exactly the snapshots past the resume position, keeps the
  others, and reports the deepest one that is left (zero when there is none), which never exceeds the
  resume position; the checkpoint before a prompt end is aligned and leaves one to four rows.\<close>

theorem prefix_discard_exact:
  "fst (prefix_discard_suffix snap_pos resume) = map (\<lambda>p. if p > resume then -1 else p) snap_pos \<and>
   snd (prefix_discard_suffix snap_pos resume) =
     Max (insert 0 (set (map (\<lambda>p. if p > resume then -1 else p) snap_pos))) \<and>
   (0 \<le> resume \<longrightarrow> snd (prefix_discard_suffix snap_pos resume) \<le> resume) \<and>
   (0 < last_row \<longrightarrow> prefix_checkpoint_before last_row mod 4 = 0 \<and>
      prefix_checkpoint_before last_row \<in> {last_row - 4..<last_row})"
proof -
  let ?m = "map (\<lambda>p. if p > resume then -1 else p) snap_pos"
  have "snd (prefix_discard_suffix snap_pos resume) = Max (insert 0 (set ?m))"
    using discard_suffix_latest(1) [of snap_pos resume] discard_suffix_latest(2) [of _ snap_pos resume]
      discard_suffix_latest(3) [of snap_pos resume] unfolding discard_suffix_slots
    by (intro Max_eqI [symmetric]) auto
  then show ?thesis
    using discard_suffix_slots discard_suffix_latest_le [of resume snap_pos] checkpoint_before_facts [of last_row] by auto
qed

theorem prefix_discard_exact_witness:
  "prefix_checkpoint_before 9 mod 4 = 0 \<and> snd (prefix_discard_suffix [4, 12, 8] 8) \<le> 8 \<and>
   prefix_discard_suffix [4, 12, 8] 8 = ([4, -1, 8], 8)"
  using prefix_discard_exact [of "[4, 12, 8]" 8 9]
  by (simp add: prefix_discard_suffix_def)

end
