(* ===== verification/Vision.thy ===== *)
theory Vision
  imports Helios_Prelude "HOL-Library.Multiset"
begin

text \<open>
  The image side of a request, \<^verbatim>\<open>src/core/vision.cpp\<close>: image embeddings and the bound they
  put on token reuse, and the per-server cache of encoded images; \<^verbatim>\<open>Runner::inject_images\<close> of \<^verbatim>\<open>src/engine/runner.cpp\<close>, which overwrites the
  embedding rows of the placeholder tokens.  The encoder itself is an external Python
  process: it is a parameter.  Sizes are below \<^verbatim>\<open>2^31\<close> (rows are checked against the prompt
  length), so they are mathematical numbers.
\<close>

section \<open>Embeddings and the reuse bound\<close>

type_synonym fp16 = "16 word"
type_synonym hidden_row = "fp16 list"

record ImageEmbedding =
  im_start :: int
  im_rows :: int
  im_hidden :: int
  im_values :: "fp16 list"

definition INT_MAX :: int where
  "INT_MAX = 2147483647"

text \<open>One direction of the comparison: the images of \<open>a\<close> that \<open>b\<close> does not hold.\<close>

definition same_image :: "ImageEmbedding \<Rightarrow> ImageEmbedding \<Rightarrow> bool" where
  "same_image im other \<longleftrightarrow> im_start im = im_start other \<and> im_rows im = im_rows other \<and>
     im_hidden im = im_hidden other \<and> im_values im = im_values other"

fun image_scan :: "ImageEmbedding list \<Rightarrow> ImageEmbedding list \<Rightarrow> int \<Rightarrow> int" where
  "image_scan [] b limit = limit"
| "image_scan (im # a) b limit =
     (case first_idx (same_image im) b of
        None \<Rightarrow> image_scan a b (min limit (im_start im))
      | Some _ \<Rightarrow> image_scan a b limit)"

definition image_prefix_limit :: "ImageEmbedding list \<Rightarrow> ImageEmbedding list \<Rightarrow> int" where
  "image_prefix_limit previous current =
     image_scan current previous (image_scan previous current INT_MAX)"

section \<open>Injection into a chunk\<close>

text \<open>The chunk buffer is a list of rows; \<^verbatim>\<open>image.values + r * hidden\<close> is row \<open>r\<close> of the image.
  The copy touches the rows of the chunk that the image covers.\<close>

definition image_row :: "ImageEmbedding \<Rightarrow> int \<Rightarrow> hidden_row" where
  "image_row im r = take (nat (im_hidden im)) (drop (nat (r * im_hidden im)) (im_values im))"

definition inject_image :: "int \<Rightarrow> ImageEmbedding \<Rightarrow> hidden_row list \<Rightarrow> hidden_row list" where
  "inject_image pos im xh =
     (let n = int (length xh);
          first = max pos (im_start im);
          last = min (pos + n) (im_start im + im_rows im)
      in if first \<ge> last then xh
         else map (\<lambda>i. if first - pos \<le> int i \<and> int i < last - pos
                       then image_row im (first - im_start im + (int i - (first - pos)))
                       else xh ! i) [0..<length xh])"

fun inject_images :: "ImageEmbedding list \<Rightarrow> int \<Rightarrow> hidden_row list \<Rightarrow> hidden_row list" where
  "inject_images [] pos xh = xh"
| "inject_images (im # images) pos xh = inject_images images pos (inject_image pos im xh)"

text \<open>What the model reads at position \<open>p\<close> of the sequence: the row of the last image that
  covers it, or the embedding of the token.\<close>

definition covers :: "ImageEmbedding \<Rightarrow> int \<Rightarrow> bool" where
  "covers im p \<longleftrightarrow> im_start im \<le> p \<and> p < im_start im + im_rows im"

fun input_row :: "ImageEmbedding list \<Rightarrow> int \<Rightarrow> hidden_row \<Rightarrow> hidden_row" where
  "input_row [] p e = e"
| "input_row (im # images) p e =
     input_row images p (if covers im p then image_row im (p - im_start im) else e)"

lemma length_inject_image [simp]: "length (inject_image pos im xh) = length xh"
  by (simp add: inject_image_def Let_def)

lemma length_inject_images [simp]: "length (inject_images images pos xh) = length xh"
  by (induction images arbitrary: xh) auto

lemma inject_image_nth:
  assumes "i < length xh"
  shows "inject_image pos im xh ! i =
    (if covers im (pos + int i) then image_row im (pos + int i - im_start im) else xh ! i)"
proof -
  define first where "first = max pos (im_start im)"
  define last where "last = min (pos + int (length xh)) (im_start im + im_rows im)"
  have c: "covers im (pos + int i) \<longleftrightarrow> first - pos \<le> int i \<and> int i < last - pos"
    using assms by (auto simp: covers_def first_def last_def)
  have a: "first - im_start im + (int i - (first - pos)) = pos + int i - im_start im"
    by simp
  have "inject_image pos im xh = (if first \<ge> last then xh
         else map (\<lambda>i. if first - pos \<le> int i \<and> int i < last - pos
                       then image_row im (first - im_start im + (int i - (first - pos)))
                       else xh ! i) [0..<length xh])"
    by (simp add: inject_image_def Let_def first_def last_def)
  then show ?thesis using assms unfolding c a [symmetric] by auto
qed

text \<open>Chunk-wise injection computes the same rows as a single pass over the sequence.\<close>

lemma inject_images_nth:
  "i < length xh \<Longrightarrow> inject_images images pos xh ! i = input_row images (pos + int i) (xh ! i)"
  by (induction images arbitrary: xh) (simp_all add: inject_image_nth)

lemma inject_images_eq:
  "inject_images images pos xh = map (\<lambda>i. input_row images (pos + int i) (xh ! i)) [0..<length xh]"
  by (rule nth_equalityI) (simp_all add: inject_images_nth)

section \<open>The reuse bound is sound\<close>

lemma same_image_eq: "same_image im other \<longleftrightarrow> im = other"
  unfolding same_image_def by (metis (full_types) ImageEmbedding.equality old.unit.exhaust)

lemma match_iff: "first_idx (same_image im) b = None \<longleftrightarrow> im \<notin> set b"
  by (auto simp: first_idx_None same_image_eq)

lemma image_scan_le: "image_scan a b limit \<le> limit"
proof (induction a arbitrary: limit)
  case (Cons x a)
  show ?case using Cons [of limit] Cons [of "min limit (im_start x)"]
    by (auto split: option.splits)
qed simp

lemma image_scan_bound:
  "im \<in> set a \<Longrightarrow> im \<notin> set b \<Longrightarrow> image_scan a b limit \<le> im_start im"
proof (induction a arbitrary: limit)
  case (Cons x a)
  show ?case
  proof (cases "x = im")
    case True
    have "first_idx (same_image x) b = None"
      unfolding match_iff True by (rule Cons.prems(2))
    then have "image_scan (x # a) b limit = image_scan a b (min limit (im_start x))" by simp
    then show ?thesis
      using image_scan_le [of a b "min limit (im_start x)"] unfolding True by linarith
  next
    case False
    with Cons.prems(1) have "im \<in> set a" by simp
    then have le: "image_scan a b l \<le> im_start im" for l
      by (rule Cons.IH [OF _ Cons.prems(2)])
    show ?thesis unfolding image_scan.simps by (auto simp: le split: option.split)
  qed
qed simp

lemma image_scan_nonneg:
  "0 \<le> limit \<Longrightarrow> \<forall>im \<in> set a. 0 \<le> im_start im \<Longrightarrow> 0 \<le> image_scan a b limit"
  by (induction a arbitrary: limit) (auto split: option.splits)

lemma image_prefix_limit_nonneg:
  "\<forall>im \<in> set a \<union> set b. 0 \<le> im_start im \<Longrightarrow> 0 \<le> image_prefix_limit a b"
  unfolding image_prefix_limit_def by (intro image_scan_nonneg) (auto simp: INT_MAX_def)

text \<open>Below the bound the same images cover a position.\<close>

lemma image_prefix_limit_covers:
  assumes "p < image_prefix_limit a b" and "covers im p"
  shows "im \<in> set a \<longleftrightarrow> im \<in> set b"
proof -
  from assms(2) have s: "im_start im \<le> p" by (simp add: covers_def)
  have 1: "image_prefix_limit a b \<le> im_start im" if "im \<in> set b" "im \<notin> set a"
    unfolding image_prefix_limit_def by (rule image_scan_bound) (use that in auto)
  have "image_scan a b INT_MAX \<le> im_start im" if "im \<in> set a" "im \<notin> set b"
    by (rule image_scan_bound) (use that in auto)
  then have 2: "image_prefix_limit a b \<le> im_start im" if "im \<in> set a" "im \<notin> set b"
    using image_scan_le [of b a "image_scan a b INT_MAX"] that
    unfolding image_prefix_limit_def by fastforce
  from 1 2 s assms(1) show ?thesis by force
qed

text \<open>Images of one request never overlap (their placeholders are consecutive runs of the
  prompt), so at most one covers a position.\<close>

definition images_disjoint :: "ImageEmbedding list \<Rightarrow> bool" where
  "images_disjoint images \<longleftrightarrow>
     (\<forall>a \<in> set images. \<forall>b \<in> set images. a = b \<or>
        im_start a + im_rows a \<le> im_start b \<or> im_start b + im_rows b \<le> im_start a)"

lemma disjoint_covers_unique:
  "images_disjoint images \<Longrightarrow> a \<in> set images \<Longrightarrow> b \<in> set images \<Longrightarrow>
   covers a p \<Longrightarrow> covers b p \<Longrightarrow> a = b"
  by (fastforce simp: images_disjoint_def covers_def)

lemma input_row_none: "\<forall>im \<in> set images. \<not> covers im p \<Longrightarrow> input_row images p e = e"
  by (induction images arbitrary: e) auto

lemma input_row_all:
  "\<forall>a \<in> set images. covers a p \<longrightarrow> a = im \<Longrightarrow> im \<in> set images \<Longrightarrow> covers im p \<Longrightarrow>
   input_row images p e = image_row im (p - im_start im)"
proof (induction images arbitrary: e)
  case (Cons x xs)
  show ?case
  proof (cases "im \<in> set xs")
    case True
    have "\<forall>a \<in> set xs. covers a p \<longrightarrow> a = im" using Cons.prems(1) by simp
    from Cons.IH [OF this True Cons.prems(3)] show ?thesis by (simp only: input_row.simps)
  next
    case False
    with Cons.prems(2) have x: "x = im" by auto
    have "\<forall>y \<in> set xs. \<not> covers y p" using Cons.prems(1) False by auto
    then show ?thesis unfolding input_row.simps x by (simp only: input_row_none Cons.prems(3) if_True)
  qed
qed simp

lemma image_prefix_limit_row:
  assumes "images_disjoint a" and "images_disjoint b" and "p < image_prefix_limit a b"
  shows "input_row a p e = input_row b p e"
proof (cases "\<exists>im \<in> set a. covers im p")
  case True
  then obtain im where im: "im \<in> set a" "covers im p" by blast
  with assms(3) have "im \<in> set b" using image_prefix_limit_covers by blast
  then show ?thesis
    using im input_row_all [of a p im e] input_row_all [of b p im e]
      disjoint_covers_unique [OF assms(1)] disjoint_covers_unique [OF assms(2)] by metis
next
  case False
  then have "\<forall>im \<in> set b. \<not> covers im p"
    using image_prefix_limit_covers [OF assms(3)] by blast
  with False show ?thesis by (simp add: input_row_none)
qed

section \<open>The cache of encoded images\<close>

record CacheEntry =
  ce_url :: string
  ce_image :: ImageEmbedding
  ce_bytes :: nat

record ImageEmbeddingCache =
  ic_entries :: "CacheEntry list"
  ic_budget :: nat
  ic_bytes :: nat

definition image_cache_new :: "nat \<Rightarrow> ImageEmbeddingCache" where
  "image_cache_new budget = \<lparr>ic_entries = [], ic_budget = budget, ic_bytes = 0\<rparr>"

definition remove_nth :: "nat \<Rightarrow> 'a list \<Rightarrow> 'a list" where
  "remove_nth i xs = take i xs @ drop (Suc i) xs"

text \<open>A hit moves the entry to the front (\<^verbatim>\<open>splice\<close>).\<close>

definition image_cache_get ::
  "ImageEmbeddingCache \<Rightarrow> string \<Rightarrow> ImageEmbedding option \<times> ImageEmbeddingCache" where
  "image_cache_get c url =
     (case first_idx (\<lambda>e. ce_url e = url) (ic_entries c) of
        None \<Rightarrow> (None, c)
      | Some i \<Rightarrow> let e = ic_entries c ! i
                  in (Some (ce_image e), c\<lparr>ic_entries := e # remove_nth i (ic_entries c)\<rparr>))"

text \<open>\<^verbatim>\<open>while (bytes_ + bytes > budget_ && !entries_.empty())\<close>: drop from the back.\<close>

function evict_loop :: "nat \<Rightarrow> ImageEmbeddingCache \<Rightarrow> ImageEmbeddingCache" where
  "evict_loop bytes c =
     (if ic_bytes c + bytes > ic_budget c \<and> ic_entries c \<noteq> []
      then evict_loop bytes (c\<lparr>ic_bytes := ic_bytes c - ce_bytes (last (ic_entries c)),
                              ic_entries := butlast (ic_entries c)\<rparr>)
      else c)"
  by pat_completeness auto
termination
  by (relation "measure (\<lambda>(bytes, c). length (ic_entries c))") auto

declare evict_loop.simps [simp del]

definition image_cache_put ::
  "ImageEmbeddingCache \<Rightarrow> string \<Rightarrow> ImageEmbedding \<Rightarrow> ImageEmbeddingCache" where
  "image_cache_put c url im =
     (let bytes = length url + length (im_values im) * 2
      in if bytes > ic_budget c then c
         else
           let c1 = (case first_idx (\<lambda>e. ce_url e = url) (ic_entries c) of
                       None \<Rightarrow> c
                     | Some i \<Rightarrow> c\<lparr>ic_bytes := ic_bytes c - ce_bytes (ic_entries c ! i),
                                   ic_entries := remove_nth i (ic_entries c)\<rparr>);
               c2 = evict_loop bytes c1
           in c2\<lparr>ic_entries := \<lparr>ce_url = url, ce_image = im, ce_bytes = bytes\<rparr> # ic_entries c2,
                 ic_bytes := ic_bytes c2 + bytes\<rparr>)"

section \<open>Laws of a keyed cache\<close>

text \<open>
  What the server relies on: a lookup reports the content, changes none of it, and an insert
  never invents a value.  \<open>content\<close> is the abstract map of the cache.
\<close>

locale keyed_cache =
  fixes get :: "'c \<Rightarrow> 'k \<Rightarrow> 'v option \<times> 'c"
    and put :: "'c \<Rightarrow> 'k \<Rightarrow> 'v \<Rightarrow> 'c"
    and inv :: "'c \<Rightarrow> bool"
    and content :: "'c \<Rightarrow> 'k \<Rightarrow> 'v option"
  assumes get_content: "inv c \<Longrightarrow> fst (get c k) = content c k"
    and get_same: "inv c \<Longrightarrow> content (snd (get c k)) = content c"
    and get_inv: "inv c \<Longrightarrow> inv (snd (get c k))"
    and put_inv: "inv c \<Longrightarrow> inv (put c k v)"
    and put_content: "inv c \<Longrightarrow> content (put c k v) k' = Some w \<Longrightarrow>
      k' = k \<and> w = v \<or> content c k' = Some w"

text \<open>Look up, and on a miss compute and insert: the pattern of the chat handler.\<close>

definition cached_call ::
  "('c \<Rightarrow> 'k \<Rightarrow> 'v option \<times> 'c) \<Rightarrow> ('c \<Rightarrow> 'k \<Rightarrow> 'v \<Rightarrow> 'c) \<Rightarrow> ('k \<Rightarrow> 'e + 'v) \<Rightarrow>
   'c \<Rightarrow> 'k \<Rightarrow> ('e + 'v) \<times> 'c" where
  "cached_call get put f c k =
     (case get c k of
        (Some v, c') \<Rightarrow> (Inr v, c')
      | (None, c') \<Rightarrow> (case f k of Inl e \<Rightarrow> (Inl e, c') | Inr v \<Rightarrow> (Inr v, put c' k v)))"

definition coherent :: "('c \<Rightarrow> 'k \<Rightarrow> 'v option) \<Rightarrow> ('k \<Rightarrow> 'e + 'v) \<Rightarrow> 'c \<Rightarrow> bool" where
  "coherent content f c \<longleftrightarrow> (\<forall>k v. content c k = Some v \<longrightarrow> f k = Inr v)"

context keyed_cache
begin

lemma cached_call_result:
  assumes "inv c" and "coherent content f c"
  shows "fst (cached_call get put f c k) = f k"
proof -
  obtain c' where g: "get c k = (content c k, c')"
    using get_content [OF assms(1)] by (metis prod.collapse)
  show ?thesis
    using assms(2) by (cases "content c k"; cases "f k") (auto simp: cached_call_def g coherent_def)
qed

lemma cached_call_keeps:
  assumes "inv c" and "coherent content f c"
  shows "inv (snd (cached_call get put f c k))"
    and "coherent content f (snd (cached_call get put f c k))"
proof -
  obtain r c' where g: "get c k = (r, c')" by fastforce
  have c': "inv c'" "content c' = content c"
    using get_inv [OF assms(1), of k] get_same [OF assms(1), of k] by (simp_all add: g)
  show "inv (snd (cached_call get put f c k))"
    by (simp add: cached_call_def g c' put_inv split: option.splits sum.splits)
  have *: "coherent content f (put c' k v)" if fk: "f k = Inr v" for v
    unfolding coherent_def
  proof (intro allI impI)
    fix k' w assume "content (put c' k v) k' = Some w"
    then have "k' = k \<and> w = v \<or> content c k' = Some w"
      using put_content [OF c'(1)] c'(2) by simp
    then show "f k' = Inr w" using fk assms(2) by (auto simp: coherent_def)
  qed
  have "coherent content f c'" using assms(2) c'(2) by (simp add: coherent_def)
  then show "coherent content f (snd (cached_call get put f c k))"
    using * by (cases r; cases "f k") (simp_all add: cached_call_def g)
qed

end

section \<open>The image cache satisfies them\<close>

definition entry_size :: "CacheEntry \<Rightarrow> nat" where
  "entry_size e = length (ce_url e) + length (im_values (ce_image e)) * 2"

definition image_cache_ok :: "ImageEmbeddingCache \<Rightarrow> bool" where
  [inv_defs]: "image_cache_ok c \<longleftrightarrow>
     distinct (map ce_url (ic_entries c)) \<and>
     (\<forall>e \<in> set (ic_entries c). ce_bytes e = entry_size e) \<and>
     ic_bytes c = sum_list (map ce_bytes (ic_entries c)) \<and>
     ic_bytes c \<le> ic_budget c"

definition image_cache_map :: "ImageEmbeddingCache \<Rightarrow> string \<Rightarrow> ImageEmbedding option" where
  "image_cache_map c = map_of (map (\<lambda>e. (ce_url e, ce_image e)) (ic_entries c))"

lemma first_idx_map_of:
  "first_idx (\<lambda>e. k e = x) es = Some i \<Longrightarrow> map_of (map (\<lambda>e. (k e, v e)) es) x = Some (v (es ! i))"
  by (induction es arbitrary: i) (auto split: if_splits)

lemma first_idx_map_of_None:
  "first_idx (\<lambda>e. k e = x) es = None \<Longrightarrow> map_of (map (\<lambda>e. (k e, v e)) es) x = None"
  by (induction es) (auto split: if_splits)

lemma remove_nth_split: "i < length xs \<Longrightarrow> mset xs = add_mset (xs ! i) (mset (remove_nth i xs))"
  unfolding remove_nth_def
  by (subst id_take_nth_drop [of i xs]) (auto simp del: append_take_drop_id)

lemma remove_nth_facts:
  assumes "i < length xs"
  shows "set (remove_nth i xs) \<subseteq> set xs"
    and "distinct (map f xs) \<Longrightarrow> distinct (f (xs ! i) # map f (remove_nth i xs))"
    and "sum_list (map g xs) = (g (xs ! i) :: nat) + sum_list (map g (remove_nth i xs))"
proof -
  note m = remove_nth_split [OF assms]
  show "set (remove_nth i xs) \<subseteq> set xs"
    using arg_cong [OF m, of set_mset] by auto
  have "mset (map f xs) = mset (f (xs ! i) # map f (remove_nth i xs))"
    using arg_cong [OF m, of "image_mset f"] by simp
  then show "distinct (map f xs) \<Longrightarrow> distinct (f (xs ! i) # map f (remove_nth i xs))"
    using mset_eq_imp_distinct_iff by blast
  show "sum_list (map g xs) = g (xs ! i) + sum_list (map g (remove_nth i xs))"
    using arg_cong [OF m, of "\<lambda>m. sum_mset (image_mset g m)"]
    by (simp add: sum_mset_sum_list flip: mset_map)
qed

lemma map_of_remove_nth:
  "distinct (map k es) \<Longrightarrow> i < length es \<Longrightarrow>
   map_of (map (\<lambda>e. (k e, v e)) (es ! i # remove_nth i es)) = map_of (map (\<lambda>e. (k e, v e)) es)"
proof -
  assume d: "distinct (map k es)" and i: "i < length es"
  let ?p = "\<lambda>e. (k e, v e)"
  have "distinct (map fst (map ?p (es ! i # remove_nth i es)))"
    using remove_nth_facts(2) [OF i d] by (simp add: o_def)
  moreover have "distinct (map fst (map ?p es))" using d by (simp add: o_def)
  moreover have "set (map ?p (es ! i # remove_nth i es)) = set (map ?p es)"
    using arg_cong [OF remove_nth_split [OF i], of set_mset] by auto
  ultimately show ?thesis using map_of_inject_set by blast
qed

lemma image_cache_get_eq:
  assumes "image_cache_ok c"
  shows "fst (image_cache_get c url) = image_cache_map c url"
    and "image_cache_map (snd (image_cache_get c url)) = image_cache_map c"
    and "image_cache_ok (snd (image_cache_get c url))"
proof -
  let ?f = "first_idx (\<lambda>e. ce_url e = url) (ic_entries c)"
  show "fst (image_cache_get c url) = image_cache_map c url"
    by (cases ?f) (simp_all add: image_cache_get_def image_cache_map_def Let_def
        first_idx_map_of first_idx_map_of_None)
  show "image_cache_map (snd (image_cache_get c url)) = image_cache_map c"
  proof (cases ?f)
    case (Some i)
    then have i: "i < length (ic_entries c)" using first_idx_Some by blast
    have "distinct (map ce_url (ic_entries c))" using assms by (simp add: image_cache_ok_def)
    from map_of_remove_nth [OF this i, of ce_image] Some show ?thesis
      by (simp add: image_cache_get_def image_cache_map_def Let_def)
  qed (simp add: image_cache_get_def)
  show "image_cache_ok (snd (image_cache_get c url))"
  proof (cases ?f)
    case None
    with assms show ?thesis by (simp add: image_cache_get_def)
  next
    case (Some i)
    then have i: "i < length (ic_entries c)" using first_idx_Some by blast
    from Some assms remove_nth_facts [OF i] nth_mem [OF i] show ?thesis
      by (auto simp: image_cache_get_def image_cache_ok_def Let_def)
  qed
qed

text \<open>Eviction keeps a prefix of the entries (the most recent ones) and makes room.\<close>

lemma evict_loop_facts:
  assumes "image_cache_ok c" and "bytes \<le> ic_budget c"
  shows "image_cache_ok (evict_loop bytes c) \<and> ic_bytes (evict_loop bytes c) + bytes \<le> ic_budget c \<and>
    ic_budget (evict_loop bytes c) = ic_budget c \<and>
    (\<exists>n. ic_entries (evict_loop bytes c) = take n (ic_entries c))"
  using assms
proof (induction bytes c rule: evict_loop.induct)
  case (1 bytes c)
  let ?c = "c\<lparr>ic_bytes := ic_bytes c - ce_bytes (last (ic_entries c)), ic_entries := butlast (ic_entries c)\<rparr>"
  show ?case
  proof (cases "ic_bytes c + bytes > ic_budget c \<and> ic_entries c \<noteq> []")
    case True
    then obtain es e where es: "ic_entries c = es @ [e]" by (metis append_butlast_last_id)
    then have ok: "image_cache_ok ?c" using "1.prems"(1) by (auto simp: image_cache_ok_def)
    have step: "evict_loop bytes c = evict_loop bytes ?c"
      using True by (simp add: evict_loop.simps [of bytes c])
    have "\<exists>n. ic_entries (evict_loop bytes ?c) = take n (butlast (ic_entries c))"
      using "1.IH" [OF True ok] "1.prems"(2) by simp
    then have "\<exists>n. ic_entries (evict_loop bytes ?c) = take n (ic_entries c)"
      by (metis butlast_conv_take take_take)
    then show ?thesis using "1.IH" [OF True ok] "1.prems"(2) unfolding step by simp
  next
    case False
    then have "ic_entries c = [] \<or> ic_bytes c + bytes \<le> ic_budget c" by auto
    moreover have "ic_entries c = [] \<Longrightarrow> ic_bytes c = 0"
      using "1.prems"(1) by (simp add: image_cache_ok_def)
    ultimately have "ic_bytes c + bytes \<le> ic_budget c" using "1.prems"(2) by auto
    moreover have "evict_loop bytes c = c"
      by (subst evict_loop.simps, rule if_not_P, rule False)
    ultimately show ?thesis using "1.prems"(1) by (metis order_refl take_all_iff)
  qed
qed

definition drop_url :: "ImageEmbeddingCache \<Rightarrow> string \<Rightarrow> ImageEmbeddingCache" where
  "drop_url c url =
     (case first_idx (\<lambda>e. ce_url e = url) (ic_entries c) of
        None \<Rightarrow> c
      | Some i \<Rightarrow> c\<lparr>ic_bytes := ic_bytes c - ce_bytes (ic_entries c ! i),
                    ic_entries := remove_nth i (ic_entries c)\<rparr>)"

lemma drop_url_facts:
  assumes "image_cache_ok c"
  shows "image_cache_ok (drop_url c url)" "ic_budget (drop_url c url) = ic_budget c"
    "url \<notin> ce_url ` set (ic_entries (drop_url c url))"
    "set (ic_entries (drop_url c url)) \<subseteq> set (ic_entries c)"
proof -
  let ?f = "first_idx (\<lambda>e. ce_url e = url) (ic_entries c)"
  have "image_cache_ok (drop_url c url) \<and> ic_budget (drop_url c url) = ic_budget c \<and>
    url \<notin> ce_url ` set (ic_entries (drop_url c url)) \<and>
    set (ic_entries (drop_url c url)) \<subseteq> set (ic_entries c)"
  proof (cases ?f)
    case None
    then have "drop_url c url = c" by (simp add: drop_url_def)
    with assms None show ?thesis by (auto simp: first_idx_None)
  next
    case (Some i)
    then have i: "i < length (ic_entries c)" and u: "ce_url (ic_entries c ! i) = url"
      using first_idx_Some [of _ "ic_entries c" i] by blast+
    from Some assms remove_nth_facts [OF i] u show ?thesis
      by (auto simp: drop_url_def image_cache_ok_def)
  qed
  then show "image_cache_ok (drop_url c url)" "ic_budget (drop_url c url) = ic_budget c"
    "url \<notin> ce_url ` set (ic_entries (drop_url c url))"
    "set (ic_entries (drop_url c url)) \<subseteq> set (ic_entries c)" by auto
qed

lemma image_cache_put_eq:
  "image_cache_put c url im =
     (let bytes = length url + length (im_values im) * 2 in
      if bytes > ic_budget c then c
      else let c2 = evict_loop bytes (drop_url c url) in
        c2\<lparr>ic_entries := \<lparr>ce_url = url, ce_image = im, ce_bytes = bytes\<rparr> # ic_entries c2,
           ic_bytes := ic_bytes c2 + bytes\<rparr>)"
  by (simp add: image_cache_put_def drop_url_def Let_def)

lemma image_cache_put_facts:
  assumes "image_cache_ok c"
  shows "image_cache_ok (image_cache_put c url im)"
    and "length url + length (im_values im) * 2 \<le> ic_budget c \<Longrightarrow>
      image_cache_map (image_cache_put c url im) url = Some im"
    and "image_cache_map (image_cache_put c url im) url' = Some w \<Longrightarrow>
      url' = url \<and> w = im \<or> image_cache_map c url' = Some w"
proof -
  define bytes where "bytes = length url + length (im_values im) * 2"
  define c2 where "c2 = evict_loop bytes (drop_url c url)"
  note d = drop_url_facts [OF assms, of url]
  show "image_cache_ok (image_cache_put c url im)"
    and "length url + length (im_values im) * 2 \<le> ic_budget c \<Longrightarrow>
      image_cache_map (image_cache_put c url im) url = Some im"
    and "image_cache_map (image_cache_put c url im) url' = Some w \<Longrightarrow>
      url' = url \<and> w = im \<or> image_cache_map c url' = Some w"
  proof (atomize (full), cases "bytes \<le> ic_budget c")
    case False
    then have "image_cache_put c url im = c"
      by (simp add: image_cache_put_eq bytes_def [symmetric] Let_def)
    then show "image_cache_ok (image_cache_put c url im) \<and>
      (length url + length (im_values im) * 2 \<le> ic_budget c \<longrightarrow>
        image_cache_map (image_cache_put c url im) url = Some im) \<and>
      (image_cache_map (image_cache_put c url im) url' = Some w \<longrightarrow>
        url' = url \<and> w = im \<or> image_cache_map c url' = Some w)"
      using False assms by (simp add: bytes_def)
  next
    case True
    have e: "image_cache_ok c2" "ic_bytes c2 + bytes \<le> ic_budget c" "ic_budget c2 = ic_budget c"
      "set (ic_entries c2) \<subseteq> set (ic_entries (drop_url c url))"
      using evict_loop_facts [OF d(1), of bytes] True d(2)
      by (auto simp: c2_def dest: in_set_takeD)
    have put: "image_cache_put c url im = c2\<lparr>ic_entries :=
        \<lparr>ce_url = url, ce_image = im, ce_bytes = bytes\<rparr> # ic_entries c2, ic_bytes := ic_bytes c2 + bytes\<rparr>"
      using True by (simp add: image_cache_put_eq bytes_def [symmetric] Let_def c2_def)
    have "image_cache_map c u = Some v" if "map_of (map (\<lambda>e. (ce_url e, ce_image e)) (ic_entries c2)) u = Some v" for u v
    proof -
      from that have "(u, v) \<in> set (map (\<lambda>e. (ce_url e, ce_image e)) (ic_entries c))"
        using map_of_SomeD e(4) d(4) by fastforce
      moreover have "distinct (map fst (map (\<lambda>e. (ce_url e, ce_image e)) (ic_entries c)))"
        using assms by (simp add: image_cache_ok_def o_def)
      ultimately show ?thesis unfolding image_cache_map_def by (simp only: map_of_is_SomeI)
    qed
    moreover have "url \<notin> ce_url ` set (ic_entries c2)" using e(4) d(3) by blast
    ultimately show "image_cache_ok (image_cache_put c url im) \<and>
      (length url + length (im_values im) * 2 \<le> ic_budget c \<longrightarrow>
        image_cache_map (image_cache_put c url im) url = Some im) \<and>
      (image_cache_map (image_cache_put c url im) url' = Some w \<longrightarrow>
        url' = url \<and> w = im \<or> image_cache_map c url' = Some w)"
      using e by (auto simp: put image_cache_ok_def image_cache_map_def entry_size_def bytes_def)
  qed
qed

interpretation image_lru: keyed_cache image_cache_get image_cache_put image_cache_ok image_cache_map
  by unfold_locales (simp_all add: image_cache_get_eq image_cache_put_facts(1) image_cache_put_facts(3))

section \<open>Properties\<close>

text \<open>C24: Reusing the rows below the image limit is sound: for two requests whose images do not overlap
  within a request, every position below \<^verbatim>\<open>image_prefix_limit\<close> feeds the model the same input row in both,
  whatever the chunk the row is injected in, so a changed, moved or removed image never leaks into
  reused state.\<close>

theorem image_limit_sound:
  assumes "images_disjoint previous" and "images_disjoint current"
    and "pos + int (length xh) \<le> image_prefix_limit previous current"
  shows "inject_images previous pos xh = inject_images current pos xh"
proof (rule nth_equalityI)
  fix i assume "i < length (inject_images previous pos xh)"
  then have i: "i < length xh" by simp
  have "pos + int i < image_prefix_limit previous current" using i assms(3) by linarith
  from image_prefix_limit_row [OF assms(1,2) this] show "inject_images previous pos xh ! i = inject_images current pos xh ! i"
    using i by (simp add: inject_images_nth)
qed simp

theorem image_limit_sound_witness:
  "inject_images [\<lparr>im_start = 1, im_rows = 1, im_hidden = 1, im_values = [7]\<rparr>,
                  \<lparr>im_start = 4, im_rows = 1, im_hidden = 1, im_values = [8]\<rparr>] 0 [[1], [2], [3], [4]] =
   inject_images [\<lparr>im_start = 1, im_rows = 1, im_hidden = 1, im_values = [7]\<rparr>] 0 [[1], [2], [3], [4]]"
proof (rule image_limit_sound)
  show "0 + int (length [[1], [2], [3], [4 :: 16 word]]) \<le> image_prefix_limit
     [\<lparr>im_start = 1, im_rows = 1, im_hidden = 1, im_values = [7]\<rparr>, \<lparr>im_start = 4, im_rows = 1, im_hidden = 1, im_values = [8]\<rparr>]
     [\<lparr>im_start = 1, im_rows = 1, im_hidden = 1, im_values = [7]\<rparr>]"
    by (simp add: image_prefix_limit_def same_image_def INT_MAX_def)
qed (simp_all add: images_disjoint_def)

text \<open>C25: The image cache is a bounded map: an insert within the budget is found again, nothing is ever
  returned that was not inserted under the same URL, every operation keeps the byte account exact and
  within the budget, and a lookup only reorders.\<close>

theorem image_cache_is_bounded_map:
  assumes "image_cache_ok c"
  shows "fst (image_cache_get c url) = image_cache_map c url \<and>
    image_cache_map (snd (image_cache_get c url)) = image_cache_map c \<and>
    (length url + length (im_values im) * 2 \<le> ic_budget c \<longrightarrow>
      fst (image_cache_get (image_cache_put c url im) url) = Some im) \<and>
    (fst (image_cache_get (image_cache_put c url im) other) = Some w \<longrightarrow>
      other = url \<and> w = im \<or> image_cache_map c other = Some w) \<and>
    image_cache_ok (snd (image_cache_get c url)) \<and> image_cache_ok (image_cache_put c url im)"
proof (intro conjI impI)
  note p = image_cache_put_facts [OF assms, of url im]
  show "fst (image_cache_get c url) = image_cache_map c url"
    "image_cache_map (snd (image_cache_get c url)) = image_cache_map c"
    "image_cache_ok (snd (image_cache_get c url))"
    using image_lru.get_content [OF assms] image_lru.get_same [OF assms] image_lru.get_inv [OF assms] by auto
  show "image_cache_ok (image_cache_put c url im)" by (rule p(1))
  show "fst (image_cache_get (image_cache_put c url im) url) = Some im"
    if "length url + length (im_values im) * 2 \<le> ic_budget c"
    using p(2) [OF that] image_lru.get_content [OF p(1)] by simp
  show "other = url \<and> w = im \<or> image_cache_map c other = Some w"
    if "fst (image_cache_get (image_cache_put c url im) other) = Some w"
    using p(3) [of other w] image_lru.get_content [OF p(1)] that by simp
qed

theorem image_cache_is_bounded_map_witness:
  "fst (image_cache_get (image_cache_put (image_cache_new 100) ''a''
     \<lparr>im_start = 0, im_rows = 1, im_hidden = 2, im_values = [1, 2]\<rparr>) ''a'') =
   Some \<lparr>im_start = 0, im_rows = 1, im_hidden = 2, im_values = [1, 2]\<rparr>"
  by (rule image_cache_is_bounded_map [THEN conjunct2, THEN conjunct2, THEN conjunct1, THEN mp])
    (simp_all add: image_cache_ok_def image_cache_new_def)

end
