(* ===== verification/Base64.thy ===== *)
theory Base64
  imports Vision
begin

unbundle bit_operations_syntax

text \<open>
  \<^verbatim>\<open>encode_image_url\<close> of \<^verbatim>\<open>src/core/vision.cpp\<close>: the checks on a data URL and its inline base64
  decoder, with the round trip against the reference encoding.
\<close>

section \<open>Base64 data URLs\<close>

definition b64_alphabet :: bytes where
  "b64_alphabet = ''ABCDEFGHIJKLMNOPQRSTUVWXYZabcdefghijklmnopqrstuvwxyz0123456789+/''"

text \<open>The decoder keeps a 32-bit shift register that it never masks: only the eight bits above
  \<open>cnt\<close> reach the output, through the cast to \<^verbatim>\<open>char\<close>.\<close>

fun b64_loop :: "bytes \<Rightarrow> 32 word \<Rightarrow> nat \<Rightarrow> bool \<Rightarrow> bytes \<Rightarrow> string + bytes" where
  "b64_loop [] bits cnt padding decoded = Inr decoded"
| "b64_loop (c # cs) bits cnt padding decoded =
     (if c = CHR ''='' then b64_loop cs bits cnt True decoded
      else case find_str [c] b64_alphabet of
        None \<Rightarrow> Inl ''invalid image base64''
      | Some v \<Rightarrow>
          if padding then Inl ''invalid image base64''
          else
            let bits = push_bit 6 bits OR of_nat v;
                cnt = cnt + 6
            in if cnt \<ge> 8
               then b64_loop cs bits (cnt - 8) padding
                      (decoded @ [char_of (unat (drop_bit (cnt - 8) bits))])
               else b64_loop cs bits cnt padding decoded)"

text \<open>\<^verbatim>\<open>encode_image_url\<close>, with the external encoder as a parameter.\<close>

definition encode_image_url ::
  "(bytes \<Rightarrow> string + ImageEmbedding) \<Rightarrow> string \<Rightarrow> string + ImageEmbedding" where
  "encode_image_url run_encoder url =
     (case find_str '','' url of
        None \<Rightarrow> Inl ''image_url must be a base64 data:image/... URL''
      | Some comma \<Rightarrow>
          if take 11 url \<noteq> ''data:image/'' \<or> find_str '';base64'' (take comma url) = None
          then Inl ''image_url must be a base64 data:image/... URL''
          else if length url - comma > 24 * 1024 * 1024
          then Inl ''encoded image exceeds 24 MiB''
          else bind_sum (b64_loop (drop (comma + 1) url) 0 0 False [])
                 (\<lambda>decoded. if decoded = [] then Inl ''empty image'' else run_encoder decoded))"

text \<open>The reference encoding of RFC 4648, for the round trip.\<close>

definition b64_char :: "nat \<Rightarrow> char" where
  "b64_char v = b64_alphabet ! v"

fun b64_encode :: "bytes \<Rightarrow> bytes" where
  "b64_encode [] = []"
| "b64_encode [a] =
     [b64_char (byte_val a div 4), b64_char (byte_val a mod 4 * 16), CHR ''='', CHR ''='']"
| "b64_encode [a, b] =
     [b64_char (byte_val a div 4), b64_char (byte_val a mod 4 * 16 + byte_val b div 16),
      b64_char (byte_val b mod 16 * 4), CHR ''='']"
| "b64_encode (a # b # c # rest) =
     b64_char (byte_val a div 4) # b64_char (byte_val a mod 4 * 16 + byte_val b div 16) #
     b64_char (byte_val b mod 16 * 4 + byte_val c div 64) # b64_char (byte_val c mod 64) #
     b64_encode rest"

lemma b64_table: "\<forall>v \<in> set [0..<64]. find_str [b64_char v] b64_alphabet = Some v \<and> b64_char v \<noteq> CHR ''=''"
  unfolding b64_char_def b64_alphabet_def by code_simp

lemma b64_find: "v < 64 \<Longrightarrow> find_str [b64_char v] b64_alphabet = Some v"
  and b64_not_pad: "v < 64 \<Longrightarrow> b64_char v \<noteq> CHR ''=''"
  using b64_table by auto

text \<open>The register after a digit, as arithmetic.\<close>

definition b64_push :: "32 word \<Rightarrow> nat \<Rightarrow> 32 word" where
  "b64_push bits v = push_bit 6 bits OR of_nat v"

lemma b64_shift:
  assumes "v < 64"
  shows "unat (push_bit 6 bits OR of_nat v :: 32 word) = (unat bits * 64 + v) mod 2 ^ 32"
proof -
  have "push_bit 6 bits AND (of_nat v :: 32 word) = 0"
  proof (rule bit_eqI)
    fix n
    have "\<not> bit v n" if "6 \<le> n"
    proof -
      have "v < 2 ^ n" using assms power_increasing [OF that, of "2::nat"] by simp
      then show ?thesis by (simp add: bit_iff_odd)
    qed
    then show "bit (push_bit 6 bits AND (of_nat v :: 32 word)) n = bit (0 :: 32 word) n"
      by (auto simp: bit_simps)
  qed
  then have d: "push_bit 6 bits OR of_nat v = push_bit 6 bits + (of_nat v :: 32 word)"
    by (rule disjunctive_add_eq_or [symmetric])
  have "push_bit 6 bits = bits * 64" by (simp add: push_bit_eq_mult)
  then have e: "push_bit 6 bits OR of_nat v = (of_nat (unat bits * 64 + v) :: 32 word)"
    unfolding d by simp
  show ?thesis unfolding e unsigned_of_nat take_bit_eq_mod by simp
qed

lemma unat_shift_right: "unat (drop_bit k (w :: 32 word)) = unat w div 2 ^ k"
  unfolding unat_drop_bit_eq by (simp only: drop_bit_eq_div)

lemma b64_low_byte: "k + 8 \<le> 32 \<Longrightarrow> (x mod 2 ^ 32) div 2 ^ k mod 256 = x div 2 ^ k mod (256 :: nat)"
proof -
  assume k: "k + 8 \<le> 32"
  have "take_bit 8 (drop_bit k (take_bit 32 x)) = take_bit 8 (drop_bit k x)"
    using k by (simp add: drop_bit_take_bit)
  then show ?thesis by (simp add: take_bit_eq_mod drop_bit_eq_div)
qed

text \<open>The four steps of a group: the counter runs through 0, 6, 4, 2.\<close>

lemma b64_step:
  assumes "v < 64"
  shows "b64_loop (b64_char v # cs) bits 0 False decoded = b64_loop cs (b64_push bits v) 6 False decoded"
    and "b64_loop (b64_char v # cs) bits 6 False decoded =
      b64_loop cs (b64_push bits v) 4 False (decoded @ [char_of (unat (b64_push bits v) div 16)])"
    and "b64_loop (b64_char v # cs) bits 4 False decoded =
      b64_loop cs (b64_push bits v) 2 False (decoded @ [char_of (unat (b64_push bits v) div 4)])"
    and "b64_loop (b64_char v # cs) bits 2 False decoded =
      b64_loop cs (b64_push bits v) 0 False (decoded @ [char_of (unat (b64_push bits v))])"
proof -
  have *: "b64_loop (b64_char v # cs) bits cnt False decoded =
     (if cnt + 6 \<ge> 8
      then b64_loop cs (b64_push bits v) (cnt + 6 - 8) False
        (decoded @ [char_of (unat (b64_push bits v) div 2 ^ (cnt + 6 - 8))])
      else b64_loop cs (b64_push bits v) (cnt + 6) False decoded)" for cnt
    unfolding b64_loop.simps(2) b64_find [OF assms] option.case Let_def unat_shift_right b64_push_def
    by (simp only: b64_not_pad [OF assms] if_False)
  show "b64_loop (b64_char v # cs) bits 0 False decoded = b64_loop cs (b64_push bits v) 6 False decoded"
    and "b64_loop (b64_char v # cs) bits 6 False decoded =
      b64_loop cs (b64_push bits v) 4 False (decoded @ [char_of (unat (b64_push bits v) div 16)])"
    and "b64_loop (b64_char v # cs) bits 4 False decoded =
      b64_loop cs (b64_push bits v) 2 False (decoded @ [char_of (unat (b64_push bits v) div 4)])"
    and "b64_loop (b64_char v # cs) bits 2 False decoded =
      b64_loop cs (b64_push bits v) 0 False (decoded @ [char_of (unat (b64_push bits v))])"
    using * [of 0] * [of 6] * [of 4] * [of 2] by simp_all
qed

lemma b64_register:
  fixes bits :: "32 word"
  assumes "v < 64"
  defines "n \<equiv> unat (b64_push bits v)"
  shows "n mod 64 = v"
    and "n div 16 mod 256 = (unat bits mod 64 * 4 + v div 16) mod 256"
    and "n div 4 mod 256 = (unat bits mod 64 * 16 + v div 4) mod 256"
    and "n mod 256 = (unat bits mod 64 * 64 + v) mod 256"
proof -
  have n: "n = (unat bits * 64 + v) mod 2 ^ 32" unfolding n_def b64_push_def by (rule b64_shift [OF assms(1)])
  define y where "y = unat bits"
  define x where "x = y * 64 + v"
  have nx: "n = x mod 2 ^ 32" by (simp add: n x_def y_def)
  have "n mod 64 = x mod 64" unfolding nx by (rule mod_mod_cancel) simp
  then show "n mod 64 = v" using assms(1) by (simp add: x_def)
  have l: "n div 2 ^ k mod 256 = x div 2 ^ k mod 256" if "k + 8 \<le> 32" for k
    using b64_low_byte [OF that, of x] by (simp add: nx)
  have m: "(y * k + w) mod 256 = (y mod 64 * k + w) mod 256" if "k = 4 \<or> k = 16 \<or> k = 64" for k w :: nat
  proof -
    have "(y mod 64 * k) mod 256 = (y * k) mod (64 * k) mod 256" by (simp add: mult_mod_left)
    also have "\<dots> = (y * k) mod 256" by (rule mod_mod_cancel) (use that in auto)
    finally show ?thesis by (metis mod_add_left_eq)
  qed
  have "x div 16 = y * 4 + v div 16" "x div 4 = y * 16 + v div 4" unfolding x_def by linarith+
  moreover have "n div 16 mod 256 = x div 16 mod 256" using l [of 4] by simp
  moreover have "n div 4 mod 256 = x div 4 mod 256" using l [of 2] by simp
  moreover have "n mod 256 = x mod 256" using l [of 0] by simp
  ultimately have e: "n div 16 mod 256 = (y * 4 + v div 16) mod 256"
    "n div 4 mod 256 = (y * 16 + v div 4) mod 256" "n mod 256 = (y * 64 + v) mod 256"
    by (simp_all only: x_def)
  show "n div 16 mod 256 = (unat bits mod 64 * 4 + v div 16) mod 256"
    unfolding y_def [symmetric] by (rule trans [OF e(1) m]) simp
  show "n div 4 mod 256 = (unat bits mod 64 * 16 + v div 4) mod 256"
    unfolding y_def [symmetric] by (rule trans [OF e(2) m]) simp
  show "n mod 256 = (unat bits mod 64 * 64 + v) mod 256"
    unfolding y_def [symmetric] by (rule trans [OF e(3) m]) simp
qed

lemma char_of_byte: "n mod 256 = byte_val a \<Longrightarrow> char_of n = a"
  by (metis char_of_mod_256 char_of_char)

lemma b64_digits:
  fixes a b c :: nat
  assumes "a < 256" "b < 256" "c < 256"
  shows "a div 4 < 64" "a mod 4 * 16 + b div 16 < 64" "b mod 16 * 4 + c div 64 < 64" "c mod 64 < 64"
    "a mod 4 * 16 < 64" "b mod 16 * 4 < 64"
    "(a div 4 * 4 + (a mod 4 * 16 + b div 16) div 16) mod 256 = a"
    "((a mod 4 * 16 + b div 16) * 16 + (b mod 16 * 4 + c div 64) div 4) mod 256 = b"
    "((b mod 16 * 4 + c div 64) * 64 + c mod 64) mod 256 = c"
proof -
  have q: "a div 4 < 64" "b div 16 < 16" "c div 64 < 4" "a mod 4 < 4" "b mod 16 < 16" "c mod 64 < 64"
    using assms by auto
  from q show "a div 4 < 64" "a mod 4 * 16 + b div 16 < 64" "b mod 16 * 4 + c div 64 < 64" "c mod 64 < 64"
    "a mod 4 * 16 < 64" "b mod 16 * 4 < 64" by linarith+
  have "(a mod 4 * 16 + b div 16) div 16 = a mod 4" "(b mod 16 * 4 + c div 64) div 4 = b mod 16"
    using q by simp_all
  moreover have "(a mod 4 * 16 + b div 16) * 16 + b mod 16 = b + a mod 4 * 256"
    "(b mod 16 * 4 + c div 64) * 64 + c mod 64 = c + b mod 16 * 256"
    by simp_all
  ultimately show "(a div 4 * 4 + (a mod 4 * 16 + b div 16) div 16) mod 256 = a"
    "((a mod 4 * 16 + b div 16) * 16 + (b mod 16 * 4 + c div 64) div 4) mod 256 = b"
    "((b mod 16 * 4 + c div 64) * 64 + c mod 64) mod 256 = c"
    using assms by simp_all
qed

lemma zero_byte: "(0 :: nat) < 256" by simp

text \<open>A whole group of three bytes, from an arbitrary register.\<close>

lemma b64_group:
  "\<exists>bits'. b64_loop (b64_char (byte_val a div 4) # b64_char (byte_val a mod 4 * 16 + byte_val b div 16) #
     b64_char (byte_val b mod 16 * 4 + byte_val c div 64) # b64_char (byte_val c mod 64) # rest)
     bits 0 False decoded = b64_loop rest bits' 0 False (decoded @ [a, b, c])"
proof -
  note d = b64_digits [OF byte_val_less [of a] byte_val_less [of b] byte_val_less [of c]]
  let ?r1 = "b64_push bits (byte_val a div 4)"
  let ?r2 = "b64_push ?r1 (byte_val a mod 4 * 16 + byte_val b div 16)"
  let ?r3 = "b64_push ?r2 (byte_val b mod 16 * 4 + byte_val c div 64)"
  let ?r4 = "b64_push ?r3 (byte_val c mod 64)"
  have "char_of (unat ?r2 div 16) = a"
    by (rule char_of_byte) (simp only: b64_register(2) [OF d(2)] b64_register(1) [OF d(1)] d(7))
  moreover have "char_of (unat ?r3 div 4) = b"
    by (rule char_of_byte) (simp only: b64_register(3) [OF d(3)] b64_register(1) [OF d(2)] d(8))
  moreover have "char_of (unat ?r4) = c"
    by (rule char_of_byte) (simp only: b64_register(4) [OF d(4)] b64_register(1) [OF d(3)] d(9))
  ultimately show ?thesis
    by (simp only: b64_step(1) [OF d(1)] b64_step(2) [OF d(2)] b64_step(3) [OF d(3)]
        b64_step(4) [OF d(4)] append_assoc append_Cons append_Nil) blast
qed

lemma b64_pad: "b64_loop [CHR ''=''] bits cnt p decoded = Inr decoded"
  "b64_loop [CHR ''='', CHR ''=''] bits cnt p decoded = Inr decoded"
  by simp_all

lemma b64_tail1: "b64_loop (b64_encode [a]) bits 0 False decoded = Inr (decoded @ [a])"
proof -
  note d = b64_digits [OF byte_val_less [of a] zero_byte zero_byte]
  let ?r1 = "b64_push bits (byte_val a div 4)"
  let ?r2 = "b64_push ?r1 (byte_val a mod 4 * 16)"
  have "(byte_val a div 4 * 4 + (byte_val a mod 4 * 16) div 16) mod 256 = byte_val a"
    using d(7) by simp
  then have "char_of (unat ?r2 div 16) = a"
    by (intro char_of_byte) (simp only: b64_register(2) [OF d(5)] b64_register(1) [OF d(1)])
  then show ?thesis
    by (simp only: b64_encode.simps b64_step(1) [OF d(1)] b64_step(2) [OF d(5)] b64_pad)
qed

lemma b64_tail2: "b64_loop (b64_encode [a, b]) bits 0 False decoded = Inr (decoded @ [a, b])"
proof -
  note d = b64_digits [OF byte_val_less [of a] byte_val_less [of b] zero_byte]
  let ?r1 = "b64_push bits (byte_val a div 4)"
  let ?r2 = "b64_push ?r1 (byte_val a mod 4 * 16 + byte_val b div 16)"
  let ?r3 = "b64_push ?r2 (byte_val b mod 16 * 4)"
  have "char_of (unat ?r2 div 16) = a"
    by (rule char_of_byte) (simp only: b64_register(2) [OF d(2)] b64_register(1) [OF d(1)] d(7))
  moreover have "((byte_val a mod 4 * 16 + byte_val b div 16) * 16 + (byte_val b mod 16 * 4) div 4) mod 256 =
      byte_val b" using d(8) by simp
  then have "char_of (unat ?r3 div 4) = b"
    by (intro char_of_byte) (simp only: b64_register(3) [OF d(6)] b64_register(1) [OF d(2)])
  ultimately show ?thesis
    by (simp only: b64_encode.simps b64_step(1) [OF d(1)] b64_step(2) [OF d(2)] b64_step(3) [OF d(6)]
        b64_pad append_assoc append_Cons append_Nil)
qed

lemma b64_roundtrip_from:
  "b64_loop (b64_encode bs) bits 0 False decoded = Inr (decoded @ bs)"
proof (induction bs arbitrary: bits decoded rule: b64_encode.induct)
  case 1
  show ?case by simp
next
  case (2 a)
  show ?case by (rule b64_tail1)
next
  case (3 a b)
  show ?case by (rule b64_tail2)
next
  case (4 a b c rest)
  obtain bits' where "b64_loop (b64_encode (a # b # c # rest)) bits 0 False decoded =
      b64_loop (b64_encode rest) bits' 0 False (decoded @ [a, b, c])"
    unfolding b64_encode.simps using b64_group by blast
  then show ?case by (simp only: 4 append_assoc append_Cons append_Nil)
qed

section \<open>Properties\<close>

text \<open>C26: The inline base64 decoder is right on every well-formed data URL: for any media type without a
  comma and any non-empty image below the 24 MiB limit, the encoder process receives exactly the bytes
  that were encoded, for all three padding cases; an unencoded or foreign URL is refused.\<close>

theorem encode_image_url_decodes:
  "(CHR '','' \<notin> set media \<and> bytes \<noteq> [] \<and> length (b64_encode bytes) < 24 * 1024 * 1024 \<longrightarrow>
   encode_image_url enc (''data:image/'' @ media @ '';base64,'' @ b64_encode bytes) = enc bytes) \<and>
   (CHR '','' \<notin> set url \<or> take 11 url \<noteq> ''data:image/'' \<longrightarrow>
   encode_image_url enc url = Inl ''image_url must be a base64 data:image/... URL'')"
proof (rule conjI; rule impI; (elim conjE)?)
  assume m: "CHR '','' \<notin> set media" and b: "bytes \<noteq> []" and l: "length (b64_encode bytes) < 24 * 1024 * 1024"
  define pre where "pre = ''data:image/'' @ media @ '';base64''"
  define url where "url = pre @ '','' @ b64_encode bytes"
  have pre: "CHR '','' \<notin> set pre" using m by (auto simp: pre_def)
  have comma: "find_str '','' (p @ '','' @ rest) = Some (length p)" if "CHR '','' \<notin> set p" for p rest
    using that by (induction p) auto
  have "find_str '','' url = Some (length pre)" unfolding url_def by (rule comma [OF pre])
  moreover have "take 11 url = ''data:image/''" by (simp add: url_def pre_def)
  moreover obtain y where "find_str '';base64'' (take (length pre) url) = Some y"
  proof -
    have "occurs_at '';base64'' pre (length ''data:image/'' + length media)"
      by (simp add: occurs_at_def pre_def)
    then have "find_str '';base64'' pre \<noteq> None" unfolding find_str_None_iff by blast
    then show ?thesis using that by (auto simp: url_def)
  qed
  moreover have "length url - length pre \<le> 24 * 1024 * 1024" using l by (simp add: url_def)
  moreover have "drop (length pre + 1) url = b64_encode bytes" by (simp add: url_def)
  moreover have "b64_loop (b64_encode bytes) 0 0 False [] = Inr bytes" using b64_roundtrip_from [of bytes 0 "[]"] by simp
  ultimately have "encode_image_url enc url = enc bytes" using b by (simp add: encode_image_url_def)
  then show "encode_image_url enc (''data:image/'' @ media @ '';base64,'' @ b64_encode bytes) = enc bytes"
    by (simp add: url_def pre_def)
next
  assume a: "CHR '','' \<notin> set url \<or> take 11 url \<noteq> ''data:image/''"
  have "CHR '','' \<notin> set url \<Longrightarrow> find_str '','' url = None" by (induction url) auto
  with a show "encode_image_url enc url = Inl ''image_url must be a base64 data:image/... URL''"
    by (auto simp: encode_image_url_def split: option.splits)
qed

theorem encode_image_url_decodes_witness:
  "encode_image_url (\<lambda>bs. Inl bs) (''data:image/'' @ ''png'' @ '';base64,'' @ b64_encode ''abcd'') = Inl ''abcd'' \<and>
   b64_encode ''abcd'' = ''YWJjZA==''"
proof -
  have e: "b64_encode ''abcd'' = ''YWJjZA==''" by (simp add: b64_char_def b64_alphabet_def)
  have "encode_image_url (\<lambda>bs. Inl bs) (''data:image/'' @ ''png'' @ '';base64,'' @ b64_encode ''abcd'') = Inl ''abcd''"
    by (rule encode_image_url_decodes [THEN conjunct1, THEN mp]) (simp_all add: e)
  with e show ?thesis by simp
qed

end
