(* ===== verification/Sampler.thy ===== *)
theory Sampler
  imports Complex_Main Helios_Prelude "HOL-Library.Multiset"
begin

unbundle bit_operations_syntax

text \<open>
  The token sampler, \<^verbatim>\<open>src/engine/sampler.cpp\<close>: the splitmix generator on 64-bit words and
  the temperature / penalty / top-k / softmax / top-p pipeline.  Floating-point values are
  elements of an arbitrary linearly ordered field (rounding, NaN and infinities are not
  modelled) and \<^verbatim>\<open>std::exp\<close> is the parameter \<open>expf\<close>, of which only positivity is used.
  \<^verbatim>\<open>std::sort\<close> and \<^verbatim>\<open>std::partial_sort\<close> leave the order of equal keys open; the model takes the
  stable order.
\<close>

section \<open>State and parameters\<close>

type_synonym rng = "64 word"

record 'f GenParams =
  max_tokens :: int
  temperature :: 'f
  top_k :: int
  top_p :: 'f
  min_p :: 'f
  rep_penalty :: 'f
  rep_window :: int
  seed :: "64 word"
  greedy :: bool
  ignore_eos :: bool
  stop_strings :: "string list"

definition default_state :: rng where
  "default_state = 0x853c49e6748fea9b"

definition sampler_reset :: "64 word \<Rightarrow> rng" where
  "sampler_reset s = (if s \<noteq> 0 then s else default_state)"

definition next_f :: "rng \<Rightarrow> ('f :: linordered_field) \<times> rng" where
  "next_f state =
     (let state = state + 0x9E3779B97F4A7C15;
          z = state;
          z = (z XOR drop_bit 30 z) * 0xBF58476D1CE4E5B9;
          z = (z XOR drop_bit 27 z) * 0x94D049BB133111EB;
          z = z XOR drop_bit 31 z
      in (of_nat (unat (drop_bit 40 z)) / 16777216, state))"

section \<open>The pipeline\<close>

text \<open>\<open>bv = None\<close> is the initial \<^verbatim>\<open>-INFINITY\<close>.\<close>

fun argmax_loop :: "nat \<Rightarrow> ('f :: linorder) list \<Rightarrow> 'f option \<Rightarrow> nat \<Rightarrow> nat" where
  "argmax_loop i [] bv best = best"
| "argmax_loop i (v # vs) bv best =
     (if bv = None \<or> v > the bv then argmax_loop (Suc i) vs (Some v) i
      else argmax_loop (Suc i) vs bv best)"

fun penalty_loop :: "('f :: linordered_field) \<Rightarrow> token list \<Rightarrow> 'f list \<Rightarrow> 'f list" where
  "penalty_loop pen [] buf = buf"
| "penalty_loop pen (t # ts) buf =
     (if t < 0 \<or> t \<ge> int (length buf) then penalty_loop pen ts buf
      else let b = buf ! nat t
           in penalty_loop pen ts (buf[nat t := (if b > 0 then b / pen else b * pen)]))"

text \<open>\<^verbatim>\<open>min_p\<close> and \<^verbatim>\<open>top_p\<close> cut the descending list of normalised probabilities; the first candidate
  always stays.\<close>

fun keep_loop :: "'f GenParams \<Rightarrow> ('f :: linordered_field) \<Rightarrow> nat \<Rightarrow> 'f list \<Rightarrow> 'f \<Rightarrow> nat \<Rightarrow> nat \<times> 'f" where
  "keep_loop p maxp i [] acc keep = (keep, acc)"
| "keep_loop p maxp i (pv # pvs) acc keep =
     (if min_p p > 0 \<and> pv < min_p p * maxp \<and> i > 0 then (keep, acc)
      else if top_p p < 1 \<and> acc \<ge> top_p p \<and> i > 0 then (keep, acc)
      else keep_loop p maxp (Suc i) pvs (acc + pv) (Suc keep))"

fun draw_loop :: "('f :: linordered_field) \<Rightarrow> 'f \<Rightarrow> (nat \<times> 'f) list \<Rightarrow> nat \<Rightarrow> nat" where
  "draw_loop r c [] final_id = final_id"
| "draw_loop r c ((cand, pv) # rest) final_id =
     (let c = c + pv in if r \<le> c then cand else draw_loop r c rest final_id)"

definition top_k_ids :: "int \<Rightarrow> ('f :: linordered_field) list \<Rightarrow> nat list" where
  "top_k_ids topk buf =
     (let V = length buf;
          k = (if topk > 0 then nat (min topk (int V)) else V)
      in if k < V then take k (sort_key (\<lambda>i. - (buf ! i)) [0..<V]) else [0..<V])"

definition sample_buf ::
  "('f :: linordered_field) list \<Rightarrow> 'f GenParams \<Rightarrow> token list \<Rightarrow> 'f list" where
  "sample_buf logits p recent =
     (let inv_t = 1 / temperature p;
          buf = map (\<lambda>l. l * inv_t) logits
      in if rep_penalty p > 10001 / 10000 \<and> recent \<noteq> []
         then let n = int (length recent);
                  from = max 0 (n - rep_window p)
              in penalty_loop (rep_penalty p) (drop (nat from) recent) buf
         else buf)"

definition sample ::
  "('f \<Rightarrow> 'f) \<Rightarrow> ('f :: linordered_field) list \<Rightarrow> 'f GenParams \<Rightarrow> token list \<Rightarrow> rng \<Rightarrow> nat \<times> rng" where
  "sample expf logits p recent state =
     (if greedy p \<or> temperature p \<le> 0 then (argmax_loop 0 logits None 0, state)
      else
        let buf = sample_buf logits p recent;
            idx = top_k_ids (top_k p) buf;
            mx = Max (set (map (\<lambda>i. buf ! i) idx));
            probs = map (\<lambda>i. expf (buf ! i - mx)) idx;
            total = sum_list probs;
            order = sort_key (\<lambda>j. - (probs ! j)) [0..<length idx];
            norm = map (\<lambda>j. probs ! j / total) order;
            (keep, acc) = keep_loop p (hd norm) 0 norm 0 0;
            (u, state') = next_f state;
            r = u * acc;
            cands = map (\<lambda>j. (idx ! j, probs ! j / total)) (take keep order)
        in (draw_loop r 0 cands (idx ! (order ! (keep - 1))), state'))"

section \<open>The generator\<close>

lemma next_f_range: "0 \<le> fst (next_f st :: ('f :: linordered_field) \<times> rng)" "fst (next_f st :: 'f \<times> rng) < 1"
proof -
  have "unat (drop_bit 40 (z :: 64 word)) < 2 ^ 24" for z
  proof -
    have "unat (drop_bit 40 z) = unat z div 2 ^ 40" unfolding unat_drop_bit_eq by (simp only: drop_bit_eq_div)
    moreover have "unat z < 2 ^ 64" using unsigned_less [of z] by simp
    ultimately show ?thesis by (simp add: div_less_iff_less_mult)
  qed
  then have "(of_nat (unat (drop_bit 40 (z :: 64 word))) :: 'f) < of_nat (2 ^ 24)" for z
    by (simp only: of_nat_less_iff)
  then have *: "(of_nat (unat (drop_bit 40 (z :: 64 word))) :: 'f) < 16777216" for z by simp
  show "fst (next_f st :: 'f \<times> rng) < 1"
    unfolding next_f_def Let_def fst_conv using * by (simp only: divide_less_eq_1_pos zero_less_numeral)
  show "0 \<le> fst (next_f st :: 'f \<times> rng)"
    unfolding next_f_def Let_def fst_conv by (intro divide_nonneg_pos of_nat_0_le_iff) simp
qed

section \<open>Greedy choice\<close>

lemma argmax_loop_ok:
  assumes "\<forall>b. bv = Some b \<longrightarrow> best < i \<and> xs ! best = b \<and> (\<forall>j < i. xs ! j \<le> b) \<and> (\<forall>j < best. xs ! j < b)"
    and "bv = None \<longrightarrow> i = 0" and "i + length vs = length xs" and "drop i xs = vs" and "xs \<noteq> []"
  shows "argmax_loop i vs bv best < length xs \<and>
    (\<forall>j < length xs. xs ! j \<le> xs ! argmax_loop i vs bv best) \<and>
    (\<forall>j < argmax_loop i vs bv best. xs ! j < xs ! argmax_loop i vs bv best)"
  using assms(1-4)
proof (induction vs arbitrary: i bv best)
  case Nil
  then show ?case using assms(5) by (cases bv) auto
next
  case (Cons v vs)
  have v: "xs ! i = v" and tl: "drop (Suc i) xs = vs"
    using Cons.prems(4) by (metis nth_via_drop, metis drop_Suc list.sel(3) tl_drop)
  show ?case
  proof (cases "bv = None \<or> v > the bv")
    case True
    have "\<forall>b. Some v = Some b \<longrightarrow> i < Suc i \<and> xs ! i = b \<and> (\<forall>j < Suc i. xs ! j \<le> b) \<and> (\<forall>j < i. xs ! j < b)"
      using Cons.prems(1,2) True v by (cases bv) (fastforce simp: less_Suc_eq)+
    from Cons.IH [OF this] Cons.prems(3) tl True show ?thesis by simp
  next
    case False
    then obtain b where b: "bv = Some b" "v \<le> b" by (cases bv) auto
    have "\<forall>b. bv = Some b \<longrightarrow> best < Suc i \<and> xs ! best = b \<and> (\<forall>j < Suc i. xs ! j \<le> b) \<and> (\<forall>j < best. xs ! j < b)"
      using Cons.prems(1) b v by (auto simp: less_Suc_eq)
    from Cons.IH [OF this] Cons.prems(3) tl b False show ?thesis by simp
  qed
qed

section \<open>The stochastic path\<close>

lemma length_penalty_loop [simp]: "length (penalty_loop pen ts buf) = length buf"
  by (induction pen ts buf rule: penalty_loop.induct) (auto simp: Let_def)

lemma length_sample_buf [simp]: "length (sample_buf logits p recent) = length logits"
  by (simp add: sample_buf_def Let_def)

lemma top_k_ids_facts:
  "set (top_k_ids k buf) \<subseteq> {..<length buf}" "distinct (top_k_ids k buf)"
  "length (top_k_ids k buf) = (if k > 0 then nat (min k (int (length buf))) else length buf)"
  by (auto simp: top_k_ids_def Let_def distinct_sort dest!: in_set_takeD)

text \<open>No id outside the chosen set beats one inside it.\<close>

lemma top_k_ids_top:
  assumes "i \<in> set (top_k_ids k buf)" and "j < length buf" and "j \<notin> set (top_k_ids k buf)"
  shows "buf ! j \<le> buf ! i"
proof -
  define s where "s = sort_key (\<lambda>i. - (buf ! i)) [0..<length buf]"
  define n where "n = (if k > 0 then nat (min k (int (length buf))) else length buf)"
  have e: "top_k_ids k buf = (if n < length buf then take n s else [0..<length buf])"
    unfolding top_k_ids_def Let_def n_def [symmetric] s_def by (rule refl)
  have "n < length buf"
  proof (rule ccontr)
    assume "\<not> n < length buf"
    then have "top_k_ids k buf = [0..<length buf]" using e by simp
    with assms(2,3) show False by simp
  qed
  then have e: "top_k_ids k buf = take n s" using e by simp
  have "j \<in> set s" using assms(2) by (simp add: s_def)
  then have "j \<in> set (take n s @ drop n s)" by (simp only: append_take_drop_id)
  then have j: "j \<in> set (drop n s)" using assms(3) unfolding e set_append by blast
  have "sorted (map (\<lambda>i. - (buf ! i)) s)" by (simp add: s_def)
  then have "sorted (map (\<lambda>i. - (buf ! i)) (take n s) @ map (\<lambda>i. - (buf ! i)) (drop n s))"
    by (simp only: map_append [symmetric] append_take_drop_id)
  then have "- (buf ! i) \<le> - (buf ! j)"
    unfolding sorted_append using assms(1) j by (simp add: e)
  then show ?thesis by simp
qed

lemma keep_loop_bounds:
  "keep \<le> fst (keep_loop p m i pvs acc keep) \<and>
   fst (keep_loop p m i pvs acc keep) \<le> keep + length pvs"
proof (induction pvs arbitrary: i acc keep)
  case (Cons x xs)
  have "Suc keep \<le> fst (keep_loop p m (Suc i) xs (acc + x) (Suc keep)) \<and>
      fst (keep_loop p m (Suc i) xs (acc + x) (Suc keep)) \<le> Suc keep + length xs"
    by (rule Cons)
  then show ?case by auto
qed simp

lemma keep_loop_first: "pvs \<noteq> [] \<Longrightarrow> 1 \<le> fst (keep_loop p m 0 pvs acc 0)"
proof (cases pvs)
  case (Cons x xs)
  have "1 \<le> fst (keep_loop p m (Suc 0) xs (acc + x) (Suc 0))"
    using keep_loop_bounds [of "Suc 0" p m "Suc 0" xs "acc + x"] by simp
  with Cons show ?thesis by simp
qed simp

lemma draw_loop_in: "draw_loop r c cands d \<in> insert d (fst ` set cands)"
  by (induction r c cands d rule: draw_loop.induct) (auto simp: Let_def)

lemma sample_stochastic_in:
  assumes "logits \<noteq> []" and "\<not> greedy p" and "temperature p > 0"
  shows "fst (sample expf logits p recent st) \<in> set (top_k_ids (top_k p) (sample_buf logits p recent))"
proof -
  define buf where "buf = sample_buf logits p recent"
  define idx where "idx = top_k_ids (top_k p) buf"
  define probs where "probs = map (\<lambda>i. expf (buf ! i - Max (set (map (\<lambda>i. buf ! i) idx)))) idx"
  define order where "order = sort_key (\<lambda>j. - (probs ! j)) [0..<length idx]"
  define norm where "norm = map (\<lambda>j. probs ! j / sum_list probs) order"
  define keep where "keep = fst (keep_loop p (hd norm) 0 norm 0 0)"
  have len: "length buf = length logits" by (simp add: buf_def)
  have "length idx > 0" using assms(1) top_k_ids_facts(3) [of "top_k p" buf] len by (auto simp: idx_def)
  then have ord: "length order = length idx" "norm \<noteq> []" "length norm = length idx"
    by (simp_all only: order_def norm_def length_map length_sort length_upt length_greater_0_conv [symmetric] minus_nat.diff_0)
  have keep: "1 \<le> keep" "keep \<le> length order"
    using keep_loop_first [OF ord(2)] keep_loop_bounds [of 0 p "hd norm" 0 norm 0] ord by (auto simp: keep_def)
  have in_idx: "idx ! (order ! j) \<in> set idx" if "j < length order" for j
  proof -
    have "order ! j \<in> set order" using that by simp
    then show ?thesis by (simp add: order_def)
  qed
  have g: "\<not> (greedy p \<or> temperature p \<le> 0)" using assms(2,3) by simp
  have "sample expf logits p recent st =
     (case keep_loop p (hd norm) 0 norm 0 0 of (keep, acc) \<Rightarrow>
      case next_f st of (u, st') \<Rightarrow>
        (draw_loop (u * acc) 0 (map (\<lambda>j. (idx ! j, probs ! j / sum_list probs)) (take keep order))
           (idx ! (order ! (keep - 1))), st'))"
    unfolding sample_def if_not_P [OF g] Let_def norm_def order_def probs_def idx_def buf_def
    by (rule refl)
  then obtain r where "fst (sample expf logits p recent st) =
     draw_loop r 0 (map (\<lambda>j. (idx ! j, probs ! j / sum_list probs)) (take keep order)) (idx ! (order ! (keep - 1)))"
    by (simp add: keep_def split: prod.splits)
  moreover have "fst ` set (map (\<lambda>j. (idx ! j, probs ! j / sum_list probs)) (take keep order)) \<subseteq> set idx"
    by (auto simp: order_def dest!: in_set_takeD)
  moreover have "idx ! (order ! (keep - 1)) \<in> set idx" using in_idx keep by simp
  ultimately have "fst (sample expf logits p recent st) \<in> set idx"
    using draw_loop_in by (metis (no_types, lifting) insert_iff subsetD)
  then show ?thesis unfolding idx_def buf_def by blast
qed

section \<open>Properties\<close>

text \<open>Greedy decoding is an argmax: with \<^verbatim>\<open>greedy\<close> or a non-positive temperature the id returned is the
  first one with the largest logit, and the generator is not advanced.\<close>

theorem greedy_is_first_argmax:
  assumes "logits \<noteq> []" and "greedy p \<or> temperature p \<le> 0"
  shows "case sample expf logits p recent st of (i, st') \<Rightarrow>
    i < length logits \<and> (\<forall>j < length logits. logits ! j \<le> logits ! i) \<and> (\<forall>j < i. logits ! j < logits ! i) \<and> st' = st"
  using argmax_loop_ok [of None 0 0 logits logits] assms by (auto simp: sample_def)

theorem greedy_is_first_argmax_witness:
  "case sample (\<lambda>x. x) [1, 4, 2, 4 :: rat]
      \<lparr>max_tokens = 1, temperature = 0, top_k = 2, top_p = 1, min_p = 0, rep_penalty = 1, rep_window = 4, seed = 0,
       greedy = False, ignore_eos = False, stop_strings = []\<rparr> [] 5 of (i, st') \<Rightarrow>
    i < length [1, 4, 2, 4 :: rat] \<and> (\<forall>j < length [1, 4, 2, 4 :: rat]. [1, 4, 2, 4] ! j \<le> [1, 4, 2, 4 :: rat] ! i) \<and>
    (\<forall>j < i. [1, 4, 2, 4] ! j < [1, 4, 2, 4 :: rat] ! i) \<and> st' = 5"
  by (rule greedy_is_first_argmax) simp_all

text \<open>C27: Stochastic sampling stays inside top-k: the id drawn is one of the \<open>top_k\<close> ids with the largest
  scaled and penalised logits (all of them when \<open>top_k\<close> is not positive), and never out of the
  vocabulary; the uniform variate is in \<open>[0, 1)\<close>.\<close>

theorem sample_within_top_k:
  assumes "logits \<noteq> []" and "\<not> greedy p" and "0 < temperature p"
  shows "fst (sample expf logits p recent st) < length logits \<and>
    (0 < top_k p \<longrightarrow> card {j. j < length logits \<and> sample_buf logits p recent ! j > sample_buf logits p recent ! fst (sample expf logits p recent st)} < nat (top_k p)) \<and>
    0 \<le> fst (next_f st :: 'f \<times> rng) \<and> fst (next_f st :: 'f \<times> rng) < (1 :: 'f :: linordered_field)"
proof (intro conjI impI)
  define buf where "buf = sample_buf logits p recent"
  let ?i = "fst (sample expf logits p recent st)"
  let ?ids = "top_k_ids (top_k p) buf"
  have i: "?i \<in> set ?ids" unfolding buf_def by (rule sample_stochastic_in [OF assms(1-3)])
  have len: "length buf = length logits" by (simp add: buf_def)
  show "?i < length logits" using i top_k_ids_facts(1) [of "top_k p" buf] len by auto
  show "card {j. j < length logits \<and> sample_buf logits p recent ! j > sample_buf logits p recent ! ?i} < nat (top_k p)"
    if "0 < top_k p"
    unfolding buf_def [symmetric]
  proof -
    have "{j. j < length logits \<and> buf ! j > buf ! ?i} \<subseteq> set ?ids - {?i}"
      using top_k_ids_top [OF i] len by (auto simp flip: not_le)
    then have "card {j. j < length logits \<and> buf ! j > buf ! ?i} \<le> card (set ?ids - {?i})" by (intro card_mono) simp
    also have "\<dots> < card (set ?ids)" using i by (intro psubset_card_mono) auto
    also have "\<dots> \<le> nat (top_k p)"
      using that distinct_card [OF top_k_ids_facts(2), of "top_k p" buf] top_k_ids_facts(3) [of "top_k p" buf] by simp
    finally show "card {j. j < length logits \<and> buf ! j > buf ! ?i} < nat (top_k p)" .
  qed
  show "0 \<le> fst (next_f st :: 'f \<times> rng)" "fst (next_f st :: 'f \<times> rng) < 1" by (rule next_f_range)+
qed

theorem sample_within_top_k_witness:
  "fst (sample (\<lambda>x. 1) [1, 4, 2, 3 :: rat]
      \<lparr>max_tokens = 1, temperature = 1, top_k = 2, top_p = 1, min_p = 0, rep_penalty = 1, rep_window = 4, seed = 0,
       greedy = False, ignore_eos = False, stop_strings = []\<rparr> [] 5) < length [1, 4, 2, 3 :: rat]"
  by (rule sample_within_top_k [THEN conjunct1]) simp_all

end
