(* ===== verification/Attention.thy ===== *)
theory Attention
  imports Helios_Prelude "HOL-Library.Multiset"
begin

unbundle bit_operations_syntax

text \<open>
  The sparse-attention bookkeeping of the MLA layers: \<^verbatim>\<open>kpool_write_k\<close>, the ring of raw indexer
  rows and the pool keys completed from it (\<^verbatim>\<open>src/cuda/attn/attn.cu\<close>), the radix top-k selection
  \<^verbatim>\<open>dsa_topk_kernel\<close> (\<^verbatim>\<open>src/cuda/aux/dsa_topk.cu\<close>) and the causal expansion of the selected pools
  into token positions.  Row contents are abstract: the numeric work of a kernel is a parameter,
  the addressing is the code's.
\<close>

section \<open>The raw ring and the pool keys\<close>

definition POOL :: nat where
  "POOL = 4"

text \<open>One block of the kernel owns group \<open>p\<close>: it stores the rows of the group that this call brings,
  and derives the pool key when the last member is one of them.\<close>

definition kpool_store :: "nat \<Rightarrow> nat \<Rightarrow> 'v list \<Rightarrow> nat \<Rightarrow> (nat \<Rightarrow> 'v) \<Rightarrow> nat \<Rightarrow> 'v" where
  "kpool_store raw_rows pos_start rows p ring =
     fold (\<lambda>j ring. let pos = p * POOL + j in
             if pos_start \<le> pos \<and> pos - pos_start < length rows
             then ring(pos mod raw_rows := rows ! (pos - pos_start)) else ring)
       [0..<POOL] ring"

definition kpool_block ::
  "nat \<Rightarrow> ('v list \<Rightarrow> 'v) \<Rightarrow> nat \<Rightarrow> 'v list \<Rightarrow> nat \<Rightarrow> (nat \<Rightarrow> 'v) \<times> (nat \<Rightarrow> 'v) \<Rightarrow> (nat \<Rightarrow> 'v) \<times> (nat \<Rightarrow> 'v)" where
  "kpool_block raw_rows pool_key pos_start rows p = (\<lambda>(ring, pool).
     let ring' = kpool_store raw_rows pos_start rows p ring;
         last_in_group = p * POOL + POOL - 1
     in if last_in_group < pos_start \<or> last_in_group \<ge> pos_start + length rows then (ring', pool)
        else (ring', pool(p := pool_key (map (\<lambda>i. ring' ((p * POOL + i) mod raw_rows)) [0..<POOL]))))"

text \<open>The grid has one block per group up to the end of the call; \<open>order\<close> is the order in which the
  device happens to run them.\<close>

definition kpool_blocks :: "nat \<Rightarrow> nat \<Rightarrow> nat" where
  "kpool_blocks pos_start n_new = (pos_start + n_new + POOL - 1) div POOL"

definition kpool_write ::
  "nat \<Rightarrow> ('v list \<Rightarrow> 'v) \<Rightarrow> nat \<Rightarrow> 'v list \<Rightarrow> nat list \<Rightarrow> (nat \<Rightarrow> 'v) \<times> (nat \<Rightarrow> 'v) \<Rightarrow> (nat \<Rightarrow> 'v) \<times> (nat \<Rightarrow> 'v)" where
  "kpool_write raw_rows pool_key pos_start rows order st =
     fold (kpool_block raw_rows pool_key pos_start rows) order st"

definition raw_ring_rows :: "int \<Rightarrow> nat" where
  "raw_ring_rows max_chunk =
     (let rows = (if max_chunk > 0 then nat max_chunk + POOL else 512 + POOL)
      in if rows < 16 then 16 else rows)"

section \<open>Top-k selection\<close>

definition topk_key :: "16 word \<Rightarrow> nat" where
  "topk_key u = (if u AND 0x8000 \<noteq> 0 then unat (NOT u) else unat (u OR 0x8000))"

definition KEY_NEG_INF :: nat where
  "KEY_NEG_INF = 0x03ff"

definition NEG_INF16 :: "16 word" where
  "NEG_INF16 = 0xfc00"

text \<open>The descending bucket search: the highest bucket whose count, with everything above it, reaches
  the target; \<open>None\<close> is the code's \<open>-1\<close>.\<close>

fun find_bucket :: "(nat \<Rightarrow> nat) \<Rightarrow> nat \<Rightarrow> nat \<Rightarrow> nat \<Rightarrow> nat option \<times> nat" where
  "find_bucket hist target 0 acc = (None, acc)"
| "find_bucket hist target (Suc b) acc =
     (if acc < target \<and> acc + hist b \<ge> target then (Some b, acc)
      else find_bucket hist target b (acc + hist b))"

definition topk_threshold :: "nat list \<Rightarrow> nat \<Rightarrow> nat \<times> nat" where
  "topk_threshold keys k =
     (let hist1 = (\<lambda>b. length (filter (\<lambda>x. x > KEY_NEG_INF \<and> x div 256 = b) keys));
          (b1, cnt_hi) = find_bucket hist1 k 256 0
      in case b1 of
           None \<Rightarrow> (KEY_NEG_INF, 0)
         | Some b1 \<Rightarrow>
             let hist0 = (\<lambda>b. length (filter (\<lambda>x. x > KEY_NEG_INF \<and> x div 256 = b1 \<and> x mod 256 = b) keys));
                 (b0, above) = find_bucket hist0 (k - cnt_hi) 256 0;
                 b0 = (case b0 of None \<Rightarrow> 0 | Some b \<Rightarrow> b)
             in (b1 * 256 + b0, (k - cnt_hi) - above))"

definition topk_select :: "nat list \<Rightarrow> nat \<Rightarrow> nat list" where
  "topk_select keys k =
     (let (thresh, n_eq_take) = topk_threshold keys k
      in filter (\<lambda>i. keys ! i > thresh \<and> keys ! i > KEY_NEG_INF) [0..<length keys] @
         take n_eq_take (filter (\<lambda>i. keys ! i = thresh \<and> keys ! i > KEY_NEG_INF) [0..<length keys]))"

definition dsa_topk :: "16 word list \<Rightarrow> nat \<Rightarrow> nat \<Rightarrow> int list" where
  "dsa_topk scores k k_pad =
     (let sel = topk_select (map topk_key scores) k
      in map int sel @ replicate (k_pad - length sel) (-1))"

section \<open>Visibility and expansion\<close>

definition indexer_scores :: "('v \<Rightarrow> 16 word) \<Rightarrow> (nat \<Rightarrow> 'v) \<Rightarrow> nat \<Rightarrow> nat \<Rightarrow> 16 word list" where
  "indexer_scores score pool q_pos npools =
     map (\<lambda>p. if p * POOL + POOL - 1 \<le> q_pos then score (pool p) else NEG_INF16) [0..<npools]"

definition pool_expand_row :: "int list \<Rightarrow> int \<Rightarrow> int list" where
  "pool_expand_row pidx cur =
     concat (map (\<lambda>pi. map (\<lambda>j. let tok = (if pi \<ge> 0 then pi * int POOL + int j else -1)
                                in if tok \<ge> 0 \<and> tok \<le> cur then tok else -1) [0..<POOL]) pidx) @
     map (\<lambda>i. let tail = cur - (int POOL - 1 - int i) in if tail \<ge> 0 then tail else -1) [0..<POOL]"

section \<open>The ring holds what the next call needs\<close>

lemma mod_inj_window:
  assumes "a mod r = b mod (r :: nat)" and "b \<le> a" and "a - b < r"
  shows "a = b"
proof -
  from assms(1,2) have "r dvd a - b" by (simp add: mod_eq_dvd_iff_nat)
  with assms(3) have "a - b = 0" using nat_dvd_not_less by blast
  with assms(2) show ?thesis by simp
qed

lemma mod_inj_window':
  "a mod r = b mod (r :: nat) \<Longrightarrow> a - b < r \<Longrightarrow> b - a < r \<Longrightarrow> a = b"
  using mod_inj_window [of a r b] mod_inj_window [of b r a] by (cases "b \<le> a") auto

text \<open>\<open>window pos\<close> is the start of the group that position \<open>pos\<close> belongs to.\<close>

definition group_start :: "nat \<Rightarrow> nat" where
  "group_start pos = pos div POOL * POOL"

definition ring_holds :: "nat \<Rightarrow> (nat \<Rightarrow> 'v) \<Rightarrow> nat \<Rightarrow> (nat \<Rightarrow> 'v) \<Rightarrow> bool" where
  "ring_holds raw_rows raw pos ring \<longleftrightarrow>
     (\<forall>q. group_start pos \<le> q \<and> q < pos \<longrightarrow> ring (q mod raw_rows) = raw q)"

definition pools_hold :: "('v list \<Rightarrow> 'v) \<Rightarrow> (nat \<Rightarrow> 'v) \<Rightarrow> nat \<Rightarrow> (nat \<Rightarrow> 'v) \<Rightarrow> bool" where
  "pools_hold pool_key raw pos pool \<longleftrightarrow>
     (\<forall>g < pos div POOL. pool g = pool_key (map raw [g * POOL..<g * POOL + POOL]))"

lemma group_start_facts: "group_start pos \<le> pos" "pos - group_start pos < 4"
  "group_start pos = 4 * (pos div 4)"
  by (simp_all add: group_start_def POOL_def minus_div_mult_eq_mod)

definition store_step :: "nat \<Rightarrow> nat \<Rightarrow> 'v list \<Rightarrow> nat \<Rightarrow> nat \<Rightarrow> (nat \<Rightarrow> 'v) \<Rightarrow> nat \<Rightarrow> 'v" where
  "store_step raw_rows pos_start rows p j ring =
     (if pos_start \<le> p * 4 + j \<and> p * 4 + j - pos_start < length rows
      then ring((p * 4 + j) mod raw_rows := rows ! (p * 4 + j - pos_start)) else ring)"

lemma kpool_store_eq:
  "kpool_store raw_rows pos_start rows p ring = fold (store_step raw_rows pos_start rows p) [0..<4] ring"
  by (simp add: kpool_store_def store_step_def [abs_def] POOL_def Let_def)

lemma store_fold_other:
  "\<forall>j \<in> set js. pos_start \<le> p * 4 + j \<and> p * 4 + j < pos_start + length rows \<longrightarrow> (p * 4 + j) mod raw_rows \<noteq> x \<Longrightarrow>
   fold (store_step raw_rows pos_start rows p) js ring x = ring x"
proof (induction js arbitrary: ring)
  case (Cons j js)
  have "store_step raw_rows pos_start rows p j ring x = ring x"
    using Cons.prems by (auto simp: store_step_def less_diff_conv2)
  then show ?case using Cons by simp
qed simp

lemma kpool_store_other:
  assumes "\<forall>j < 4. pos_start \<le> p * 4 + j \<and> p * 4 + j < pos_start + length rows \<longrightarrow> (p * 4 + j) mod raw_rows \<noteq> x"
  shows "kpool_store raw_rows pos_start rows p ring x = ring x"
  unfolding kpool_store_eq by (rule store_fold_other) (use assms in auto)

lemma kpool_store_own:
  assumes "4 \<le> raw_rows" "j < 4" "pos_start \<le> p * 4 + j" "p * 4 + j < pos_start + length rows"
  shows "kpool_store raw_rows pos_start rows p ring ((p * 4 + j) mod raw_rows) = rows ! (p * 4 + j - pos_start)"
proof -
  let ?x = "(p * 4 + j) mod raw_rows"
  have ne: "(p * 4 + i) mod raw_rows \<noteq> ?x" if "i < 4" "i \<noteq> j" for i
  proof
    assume e: "(p * 4 + i) mod raw_rows = ?x"
    have "p * 4 + i - (p * 4 + j) < raw_rows" "p * 4 + j - (p * 4 + i) < raw_rows"
      using that(1) assms(1,2) by linarith+
    from mod_inj_window' [OF e this] that(2) show False by simp
  qed
  have "[0..<4] = [0..<j] @ [j..<4]" using upt_add_eq_append [of 0 j "4 - j"] assms(2) by simp
  also have "[j..<4] = j # [Suc j..<4]" using assms(2) by (rule upt_conv_Cons)
  finally have u: "[0..<4] = [0..<j] @ j # [Suc j..<4]" .
  have after: "fold (store_step raw_rows pos_start rows p) [Suc j..<4] r ?x = r ?x" for r
    by (rule store_fold_other) (use ne in auto)
  have "kpool_store raw_rows pos_start rows p ring ?x =
      store_step raw_rows pos_start rows p j (fold (store_step raw_rows pos_start rows p) [0..<j] ring) ?x"
    unfolding kpool_store_eq u by (simp only: fold_append fold.simps o_apply after)
  then show ?thesis using assms(3,4) by (simp add: store_step_def less_diff_conv2)
qed

text \<open>The state of the launch after the blocks \<open>done\<close>, in any order.\<close>

definition kpool_partial ::
  "nat \<Rightarrow> ('v list \<Rightarrow> 'v) \<Rightarrow> (nat \<Rightarrow> 'v) \<Rightarrow> nat \<Rightarrow> nat \<Rightarrow> (nat \<Rightarrow> 'v) \<Rightarrow> nat set \<Rightarrow> (nat \<Rightarrow> 'v) \<Rightarrow> (nat \<Rightarrow> 'v) \<Rightarrow> bool" where
  "kpool_partial raw_rows pool_key raw pos n pool0 done_blocks ring pool \<longleftrightarrow>
     (\<forall>q. group_start pos \<le> q \<and> q < pos + n \<and> (q < pos \<or> q div 4 \<in> done_blocks) \<longrightarrow> ring (q mod raw_rows) = raw q) \<and>
     (\<forall>g. pool g = (if g \<in> done_blocks \<and> pos \<le> g * 4 + 3 \<and> g * 4 + 3 < pos + n
                    then pool_key (map raw [g * 4..<g * 4 + 4]) else pool0 g))"

lemma kpool_partial_step:
  assumes part: "kpool_partial raw_rows pool_key raw pos (length rows) pool0 B ring pool"
    and len: "length rows + 4 \<le> raw_rows" and rows: "\<forall>i < length rows. rows ! i = raw (pos + i)"
  shows "case kpool_block raw_rows pool_key pos rows p (ring, pool) of (ring', pool') \<Rightarrow>
    kpool_partial raw_rows pool_key raw pos (length rows) pool0 (insert p B) ring' pool'"
proof -
  let ?n = "length rows"
  define ring' where "ring' = kpool_store raw_rows pos rows p ring"
  have gs: "group_start pos \<le> pos" "pos - group_start pos < 4" by (rule group_start_facts)+
  have ring': "ring' (q mod raw_rows) = raw q"
    if q: "group_start pos \<le> q" "q < pos + ?n" "q < pos \<or> q div 4 \<in> insert p B" for q
  proof (cases "q div 4 = p \<and> pos \<le> q")
    case True
    define j where "j = q mod 4"
    have qj: "q = p * 4 + j" "j < 4" using True by (auto simp: j_def)
    show ?thesis
      using kpool_store_own [of raw_rows j pos p rows ring] qj True q len rows by (simp add: ring'_def)
  next
    case False
    then have "q < pos \<or> q div 4 \<in> B" using q(3) by auto
    then have "ring (q mod raw_rows) = raw q" using part q unfolding kpool_partial_def by blast
    moreover have "ring' (q mod raw_rows) = ring (q mod raw_rows)"
      unfolding ring'_def
    proof (rule kpool_store_other, intro allI impI notI)
      fix j assume j: "j < 4" "pos \<le> p * 4 + j \<and> p * 4 + j < pos + ?n" "(p * 4 + j) mod raw_rows = q mod raw_rows"
      have "p * 4 + j - q < raw_rows" "q - (p * 4 + j) < raw_rows" using j q gs len by linarith+
      from mod_inj_window' [OF j(3) this] have "q = p * 4 + j" by simp
      with j False show False by auto
    qed
    ultimately show ?thesis by simp
  qed
  show ?thesis
  proof (cases "p * 4 + 3 < pos \<or> p * 4 + 3 \<ge> pos + ?n")
    case True
    then have "kpool_block raw_rows pool_key pos rows p (ring, pool) = (ring', pool)"
      by (auto simp add: kpool_block_def ring'_def POOL_def Let_def)
    moreover have "g \<in> B \<and> pos \<le> g * 4 + 3 \<and> g * 4 + 3 < pos + ?n \<longleftrightarrow>
        g \<in> insert p B \<and> pos \<le> g * 4 + 3 \<and> g * 4 + 3 < pos + ?n" for g
      using True by auto
    ultimately show ?thesis using part ring' unfolding kpool_partial_def by simp
  next
    case False
    have "map (\<lambda>i. ring' ((p * 4 + i) mod raw_rows)) [0..<4] = map raw [p * 4..<p * 4 + 4]"
    proof (rule nth_equalityI)
      fix i assume "i < length (map (\<lambda>i. ring' ((p * 4 + i) mod raw_rows)) [0..<4])"
      then have i: "i < 4" by simp
      have "group_start pos \<le> p * 4 + i" using False unfolding group_start_facts(3) by presburger
      moreover have "p * 4 + i < pos + ?n" "(p * 4 + i) div 4 = p" using False i by auto
      ultimately show "map (\<lambda>i. ring' ((p * 4 + i) mod raw_rows)) [0..<4] ! i = map raw [p * 4..<p * 4 + 4] ! i"
        using ring' [of "p * 4 + i"] i by simp
    qed simp
    then have "kpool_block raw_rows pool_key pos rows p (ring, pool) =
        (ring', pool(p := pool_key (map raw [p * 4..<p * 4 + 4])))"
      using False by (simp add: kpool_block_def ring'_def POOL_def Let_def)
    then show ?thesis using part ring' False unfolding kpool_partial_def by auto
  qed
qed

lemma kpool_fold:
  assumes "kpool_partial raw_rows pool_key raw pos (length rows) pool0 B ring pool"
    and "length rows + 4 \<le> raw_rows" and "\<forall>i < length rows. rows ! i = raw (pos + i)"
  shows "case kpool_write raw_rows pool_key pos rows order (ring, pool) of (ring', pool') \<Rightarrow>
    kpool_partial raw_rows pool_key raw pos (length rows) pool0 (B \<union> set order) ring' pool'"
  using assms(1)
proof (induction order arbitrary: B ring pool)
  case Nil
  then show ?case by (simp add: kpool_write_def)
next
  case (Cons p order)
  obtain ring1 pool1 where s: "kpool_block raw_rows pool_key pos rows p (ring, pool) = (ring1, pool1)" by fastforce
  have "kpool_partial raw_rows pool_key raw pos (length rows) pool0 (insert p B) ring1 pool1"
    using kpool_partial_step [OF Cons.prems assms(2,3), of p] s by simp
  from Cons.IH [OF this] show ?case by (simp add: kpool_write_def s)
qed

lemma kpool_write_holds:
  assumes ring: "ring_holds raw_rows raw pos ring" and pool: "pools_hold pool_key raw pos pool"
    and len: "length rows + 4 \<le> raw_rows" and rows: "\<forall>i < length rows. rows ! i = raw (pos + i)"
    and order: "{..<kpool_blocks pos (length rows)} \<subseteq> set order"
  shows "ring_holds raw_rows raw (pos + length rows) (fst (kpool_write raw_rows pool_key pos rows order (ring, pool)))"
    and "pools_hold pool_key raw (pos + length rows) (snd (kpool_write raw_rows pool_key pos rows order (ring, pool)))"
proof -
  let ?n = "length rows"
  obtain ring' pool' where w: "kpool_write raw_rows pool_key pos rows order (ring, pool) = (ring', pool')" by fastforce
  have "kpool_partial raw_rows pool_key raw pos ?n pool {} ring pool"
    using ring by (simp add: kpool_partial_def ring_holds_def)
  from kpool_fold [OF this len rows, of order] w
  have part: "kpool_partial raw_rows pool_key raw pos ?n pool (set order) ring' pool'" by simp
  have blk: "g \<in> set order" if "g * 4 < pos + ?n" for g
  proof -
    have "g < kpool_blocks pos ?n" using that by (simp add: kpool_blocks_def POOL_def less_eq_div_iff_mult_less_eq
          Suc_le_eq [symmetric] del: Suc_le_eq)
    with order show ?thesis by auto
  qed
  have "ring' (q mod raw_rows) = raw q" if "group_start (pos + ?n) \<le> q" "q < pos + ?n" for q
  proof (cases "q < group_start pos")
    case True
    have "pos div 4 \<le> (pos + ?n) div 4" by (rule div_le_mono) simp
    with True that show ?thesis unfolding group_start_facts(3) by linarith
  next
    case False
    have "q div 4 \<in> set order" using that(2) by (intro blk) linarith
    with False that(2) show ?thesis using part unfolding kpool_partial_def by auto
  qed
  then show "ring_holds raw_rows raw (pos + ?n) (fst (kpool_write raw_rows pool_key pos rows order (ring, pool)))"
    by (simp add: w ring_holds_def)
  have "pool' g = pool_key (map raw [g * 4..<g * 4 + 4])" if g: "g < (pos + ?n) div 4" for g
  proof (cases "pos \<le> g * 4 + 3")
    case True
    have "g * 4 + 3 < pos + ?n" using g by linarith
    with True blk [of g] part show ?thesis unfolding kpool_partial_def by simp
  next
    case False
    then have "g < pos div 4" by linarith
    with False part pool show ?thesis by (simp add: kpool_partial_def pools_hold_def POOL_def)
  qed
  then show "pools_hold pool_key raw (pos + ?n) (snd (kpool_write raw_rows pool_key pos rows order (ring, pool)))"
    by (simp add: w pools_hold_def POOL_def)
qed

section \<open>The selection is the k best\<close>

text \<open>Position \<open>j\<close> beats \<open>i\<close>: a larger key, or an equal key at a smaller index.\<close>

definition beats :: "nat list \<Rightarrow> nat \<Rightarrow> nat \<Rightarrow> bool" where
  "beats keys j i \<longleftrightarrow> j < length keys \<and> keys ! j > KEY_NEG_INF \<and>
     (keys ! j > keys ! i \<or> keys ! j = keys ! i \<and> j < i)"

definition beat_count :: "nat list \<Rightarrow> nat \<Rightarrow> nat" where
  "beat_count keys i = card {j. beats keys j i}"

lemma find_bucket_spec:
  assumes "find_bucket hist t n acc = (r, a)" and "acc < t"
  shows "case r of
      None \<Rightarrow> a = acc + (\<Sum>b<n. hist b) \<and> a < t
    | Some b \<Rightarrow> b < n \<and> a = acc + (\<Sum>c\<in>{Suc b..<n}. hist c) \<and> a < t \<and> t \<le> a + hist b"
  using assms
proof (induction n arbitrary: acc)
  case 0
  then show ?case by auto
next
  case (Suc n)
  show ?case
  proof (cases "acc + hist n \<ge> t")
    case True
    with Suc.prems have "r = Some n" "a = acc" by auto
    with True Suc.prems show ?thesis by simp
  next
    case False
    with Suc.prems have f: "find_bucket hist t n (acc + hist n) = (r, a)" "acc + hist n < t" by auto
    have "(\<Sum>c\<in>{Suc b..<Suc n}. hist c) = hist n + (\<Sum>c\<in>{Suc b..<n}. hist c)" if "b < n" for b
      using that by simp
    with Suc.IH [OF f] show ?thesis by (auto split: option.splits)
  qed
qed

lemma sum_count:
  assumes "finite B"
  shows "(\<Sum>b\<in>B. length (filter (\<lambda>x. P x \<and> f x = b) xs)) = length (filter (\<lambda>x. P x \<and> f x \<in> B) xs)"
proof (induction xs)
  case (Cons x xs)
  have "(\<Sum>b\<in>B. length (filter (\<lambda>x. P x \<and> f x = b) (x # xs))) =
      (\<Sum>b\<in>B. (if P x \<and> f x = b then 1 else 0) + length (filter (\<lambda>x. P x \<and> f x = b) xs))"
    by (rule sum.cong) auto
  also have "\<dots> = (\<Sum>b\<in>B. if P x \<and> f x = b then 1 else 0) + length (filter (\<lambda>x. P x \<and> f x \<in> B) xs)"
    by (simp only: sum.distrib Cons)
  also have "(\<Sum>b\<in>B. if P x \<and> f x = b then 1 else 0) = (if P x \<and> f x \<in> B then 1 else (0 :: nat))"
    using assms by (cases "P x") (auto simp: sum.delta')
  finally show ?case by simp
qed simp

lemma filter_disj_length:
  "\<forall>x \<in> set xs. \<not> (P x \<and> Q x) \<Longrightarrow>
   length (filter (\<lambda>x. P x \<or> Q x) xs) = length (filter P xs) + length (filter Q xs)"
  by (induction xs) auto

lemma filter_len_mono: "(\<And>x. P x \<Longrightarrow> Q x) \<Longrightarrow> length (filter P xs) \<le> length (filter Q xs)"
  by (induction xs) (auto intro: le_SucI)

lemma key_split:
  assumes "c < 256"
  shows "(x :: nat) > b * 256 + c \<longleftrightarrow> x div 256 > b \<or> x div 256 = b \<and> x mod 256 > c"
    and "x = b * 256 + c \<longleftrightarrow> x div 256 = b \<and> x mod 256 = c"
proof -
  have "x = x div 256 * 256 + x mod 256" "x mod 256 < 256" by simp_all
  then show "(x :: nat) > b * 256 + c \<longleftrightarrow> x div 256 > b \<or> x div 256 = b \<and> x mod 256 > c"
    using assms by linarith
  show "x = b * 256 + c \<longleftrightarrow> x div 256 = b \<and> x mod 256 = c" using assms by auto
qed

text \<open>The threshold splits the finite keys: fewer than \<open>k\<close> above it, and the ties taken make up \<open>k\<close>,
  unless there are fewer than \<open>k\<close> finite keys at all.\<close>

lemma topk_threshold_spec:
  assumes k: "0 < k" and keys: "\<forall>x \<in> set keys. x < 65536" and t: "topk_threshold keys k = (v, m)"
  defines "gt \<equiv> length (filter (\<lambda>x. x > v \<and> x > KEY_NEG_INF) keys)"
  shows "gt < k \<and> (v = KEY_NEG_INF \<and> m = 0 \<or>
    v \<ge> KEY_NEG_INF \<and> gt + m = k \<and> k \<le> gt + length (filter (\<lambda>x. x = v \<and> x > KEY_NEG_INF) keys))"
proof -
  let ?fin = "\<lambda>x. x > KEY_NEG_INF"
  define h1 where "h1 = (\<lambda>b. length (filter (\<lambda>x. x > KEY_NEG_INF \<and> x div 256 = b) keys))"
  obtain b1 hi where f1: "find_bucket h1 k 256 0 = (b1, hi)" by fastforce
  note s1 = find_bucket_spec [OF f1 k]
  show ?thesis
  proof (cases b1)
    case None
    have "(\<Sum>b<256. h1 b) = length (filter (\<lambda>x. ?fin x \<and> x div 256 \<in> {..<256}) keys)"
      unfolding h1_def by (rule sum_count) simp
    also have "filter (\<lambda>x. ?fin x \<and> x div 256 \<in> {..<256}) keys = filter ?fin keys"
      by (rule filter_cong) (use keys in \<open>auto simp: less_mult_imp_div_less\<close>)
    finally have hi: "hi = length (filter ?fin keys)" "hi < k"
      using s1 unfolding None option.case add_0 by simp_all
    have vm: "v = KEY_NEG_INF" "m = 0"
      using t f1 None by (simp_all add: topk_threshold_def h1_def [symmetric] Let_def)
    with hi show ?thesis by (simp add: gt_def)
  next
    case (Some b)
    define h0 where "h0 = (\<lambda>c. length (filter (\<lambda>x. x > KEY_NEG_INF \<and> x div 256 = b \<and> x mod 256 = c) keys))"
    obtain b0 ab where f0: "find_bucket h0 (k - hi) 256 0 = (b0, ab)" by fastforce
    have s1': "b < 256" "hi = (\<Sum>c\<in>{Suc b..<256}. h1 c)" "hi < k" "k \<le> hi + h1 b"
      using s1 unfolding Some option.case add_0 by blast+
    have "0 < k - hi" using s1'(3) by simp
    note s0 = find_bucket_spec [OF f0 this]
    have tot: "(\<Sum>c<256. h0 c) = h1 b"
    proof -
      have "(\<Sum>c<256. h0 c) = length (filter (\<lambda>x. (?fin x \<and> x div 256 = b) \<and> x mod 256 \<in> {..<256}) keys)"
        unfolding h0_def using sum_count [of "{..<256::nat}" "\<lambda>x. ?fin x \<and> x div 256 = b" "\<lambda>x. x mod 256" keys]
        by (simp add: conj_assoc)
      then show ?thesis by (simp add: h1_def)
    qed
    obtain c where c: "b0 = Some c"
    proof (cases b0)
      case None
      then have "ab = h1 b" "ab < k - hi" using s0 unfolding None option.case add_0 tot by blast+
      with s1'(4) have False by linarith
      then show ?thesis ..
    qed
    have s0': "c < 256" "ab = (\<Sum>d\<in>{Suc c..<256}. h0 d)" "ab < k - hi" "k - hi \<le> ab + h0 c"
      using s0 unfolding c option.case add_0 by blast+
    have vm: "v = b * 256 + c" "m = (k - hi) - ab"
      using t f1 f0 Some c by (simp_all add: topk_threshold_def h1_def [symmetric] h0_def [symmetric] Let_def)
    have hi': "hi = length (filter (\<lambda>x. ?fin x \<and> x div 256 > b) keys)"
    proof -
      have "hi = length (filter (\<lambda>x. ?fin x \<and> x div 256 \<in> {Suc b..<256}) keys)"
        unfolding s1'(2) h1_def by (rule sum_count) simp
      also have "filter (\<lambda>x. ?fin x \<and> x div 256 \<in> {Suc b..<256}) keys = filter (\<lambda>x. ?fin x \<and> x div 256 > b) keys"
        by (rule filter_cong) (use keys in \<open>auto simp: less_mult_imp_div_less\<close>)
      finally show ?thesis .
    qed
    have ab': "ab = length (filter (\<lambda>x. ?fin x \<and> x div 256 = b \<and> x mod 256 > c) keys)"
    proof -
      have "ab = length (filter (\<lambda>x. (?fin x \<and> x div 256 = b) \<and> x mod 256 \<in> {Suc c..<256}) keys)"
        unfolding s0'(2) h0_def
        using sum_count [of "{Suc c..<256::nat}" "\<lambda>x. ?fin x \<and> x div 256 = b" "\<lambda>x. x mod 256" keys]
        by (simp add: conj_assoc)
      also have "filter (\<lambda>x. (?fin x \<and> x div 256 = b) \<and> x mod 256 \<in> {Suc c..<256}) keys =
          filter (\<lambda>x. ?fin x \<and> x div 256 = b \<and> x mod 256 > c) keys"
        by (rule filter_cong) auto
      finally show ?thesis .
    qed
    have split: "x > v \<longleftrightarrow> x div 256 > b \<or> x div 256 = b \<and> x mod 256 > c" for x
      unfolding vm(1) by (rule key_split(1) [OF s0'(1)])
    have "filter (\<lambda>x. x > v \<and> ?fin x) keys =
        filter (\<lambda>x. ?fin x \<and> x div 256 > b \<or> ?fin x \<and> x div 256 = b \<and> x mod 256 > c) keys"
      by (rule filter_cong) (auto simp: split)
    then have gt: "gt = hi + ab"
      unfolding gt_def hi' ab' by (simp add: filter_disj_length)
    have "filter (\<lambda>x. x = v \<and> ?fin x) keys = filter (\<lambda>x. ?fin x \<and> x div 256 = b \<and> x mod 256 = c) keys"
      unfolding vm(1) by (rule filter_cong) (auto simp: key_split(2) [OF s0'(1)])
    then have eq: "length (filter (\<lambda>x. x = v \<and> ?fin x) keys) = h0 c" by (simp add: h0_def)
    have "v \<ge> KEY_NEG_INF"
    proof -
      have "h0 c > 0" using s0' by linarith
      then have "filter (\<lambda>x. x = v \<and> ?fin x) keys \<noteq> []" using eq by (metis length_greater_0_conv)
      then show ?thesis by (auto simp: filter_empty_conv)
    qed
    moreover have "gt < k" "gt + m = k" "k \<le> gt + h0 c" using gt s0'(3,4) s1'(3) vm(2) by linarith+
    ultimately show ?thesis using eq by simp
  qed
qed

text \<open>The head of a filtered index list, by rank.\<close>

lemma set_take_filter:
  "set (take m (filter P [0..<n])) = {i. i < n \<and> P i \<and> card {j. j < i \<and> P j} < m}"
proof (induction n)
  case (Suc n)
  have c: "card {j. j < n \<and> P j} = length (filter P [0..<n])"
    by (simp add: distinct_card [symmetric] conj_commute)
  have "take m (filter P [0..<Suc n]) = take m (filter P [0..<n]) @ (if P n \<and> length (filter P [0..<n]) < m then [n] else [])"
    by (auto simp: not_less)
  then have "set (take m (filter P [0..<Suc n])) =
      set (take m (filter P [0..<n])) \<union> (if P n \<and> length (filter P [0..<n]) < m then {n} else {})"
    by (simp only: set_append list.set if_distrib [of set])
  also have "\<dots> = {i. i < Suc n \<and> P i \<and> card {j. j < i \<and> P j} < m}"
    unfolding Suc c [symmetric] by (auto simp: less_Suc_eq)
  finally show ?case .
qed simp

lemma count_filter_idx: "length (filter (\<lambda>i. P (xs ! i)) [0..<length xs]) = length (filter P xs)"
proof -
  have "filter P xs = filter P (map ((!) xs) [0..<length xs])" by (simp only: map_nth)
  also have "\<dots> = map ((!) xs) (filter (P \<circ> (!) xs) [0..<length xs])" by (simp only: filter_map)
  finally have "length (filter P xs) = length (filter (P \<circ> (!) xs) [0..<length xs])" by simp
  then show ?thesis by (simp add: o_def)
qed

text \<open>A position is selected exactly when it is finite and fewer than \<open>k\<close> others beat it.\<close>

lemma topk_select_set:
  assumes k: "0 < k" and keys: "\<forall>x \<in> set keys. x < 65536"
  shows "set (topk_select keys k) = {i. i < length keys \<and> keys ! i > KEY_NEG_INF \<and> beat_count keys i < k}"
    and "distinct (topk_select keys k)"
    and "length (topk_select keys k) = min k (length (filter (\<lambda>x. x > KEY_NEG_INF) keys))"
proof -
  let ?n = "length keys"
  obtain v m where t: "topk_threshold keys k = (v, m)" by fastforce
  define G where "G = filter (\<lambda>i. keys ! i > v \<and> keys ! i > KEY_NEG_INF) [0..<?n]"
  define E where "E = filter (\<lambda>i. keys ! i = v \<and> keys ! i > KEY_NEG_INF) [0..<?n]"
  have sel: "topk_select keys k = G @ take m E" by (simp add: topk_select_def t G_def E_def)
  have G: "length G = length (filter (\<lambda>x. x > v \<and> x > KEY_NEG_INF) keys)" unfolding G_def by (rule count_filter_idx)
  have E: "length E = length (filter (\<lambda>x. x = v \<and> x > KEY_NEG_INF) keys)" unfolding E_def by (rule count_filter_idx)
  note sp = topk_threshold_spec [OF k keys t, folded G E]
  have cG: "card (set G) = length G" by (rule distinct_card) (simp add: G_def)
  have cE: "card (set E) = length E" by (rule distinct_card) (simp add: E_def)
  show "distinct (topk_select keys k)"
    unfolding sel by (auto simp: G_def E_def dest!: in_set_takeD)
  have none: "length (filter (\<lambda>x. x > KEY_NEG_INF) keys) = length G" if "v = KEY_NEG_INF"
    unfolding G that by (auto intro!: arg_cong [where f = length] filter_cong)
  have ge: "length G + length E \<le> length (filter (\<lambda>x. x > KEY_NEG_INF) keys)"
    unfolding G E by (subst filter_disj_length [symmetric]) (auto intro: filter_len_mono)
  show "length (topk_select keys k) = min k (length (filter (\<lambda>x. x > KEY_NEG_INF) keys))"
    using sp none ge unfolding sel by auto
  show "set (topk_select keys k) = {i. i < ?n \<and> keys ! i > KEY_NEG_INF \<and> beat_count keys i < k}"
  proof (rule set_eqI)
    fix i
    have fin: "finite {j. beats keys j i}" by (rule finite_subset [of _ "{..<?n}"]) (auto simp: beats_def)
    show "i \<in> set (topk_select keys k) \<longleftrightarrow>
        i \<in> {i. i < ?n \<and> keys ! i > KEY_NEG_INF \<and> beat_count keys i < k}"
    proof (cases "i < ?n \<and> keys ! i > KEY_NEG_INF")
      case False
      then show ?thesis by (auto simp: sel G_def E_def dest!: in_set_takeD)
    next
      case i: True
      consider "keys ! i > v" | "keys ! i = v" | "keys ! i < v" by linarith
      then show ?thesis
      proof cases
        case 1
        have "{j. beats keys j i} \<subseteq> set G" using 1 by (auto simp: beats_def G_def)
        then have "beat_count keys i \<le> length G" unfolding beat_count_def cG [symmetric] by (rule card_mono [OF finite_set])
        with sp i 1 show ?thesis by (auto simp: sel G_def)
      next
        case 2
        have b: "{j. beats keys j i} = set G \<union> {j. j < i \<and> keys ! j = v \<and> keys ! j > KEY_NEG_INF}"
          using 2 i by (auto simp: beats_def G_def)
        have "beat_count keys i = length G + card {j. j < i \<and> keys ! j = v \<and> keys ! j > KEY_NEG_INF}"
          unfolding beat_count_def b cG [symmetric] by (rule card_Un_disjoint) (auto simp: G_def)
        moreover have "i \<in> set (take m E) \<longleftrightarrow> card {j. j < i \<and> keys ! j = v \<and> keys ! j > KEY_NEG_INF} < m"
          unfolding E_def set_take_filter using i 2 by simp
        moreover have "i \<notin> set G" using 2 by (simp add: G_def)
        moreover have "length G + m = k" using sp 2 i by auto
        ultimately show ?thesis using i by (auto simp: sel)
      next
        case 3
        have "set G \<union> set E \<subseteq> {j. beats keys j i}" using 3 i by (auto simp: beats_def G_def E_def)
        then have "card (set G \<union> set E) \<le> beat_count keys i" unfolding beat_count_def by (rule card_mono [OF fin])
        moreover have "card (set G \<union> set E) = length G + length E"
          unfolding cG [symmetric] cE [symmetric] by (rule card_Un_disjoint) (auto simp: G_def E_def)
        moreover have "k \<le> length G + length E" using sp 3 i by auto
        ultimately show ?thesis using 3 by (auto simp: sel G_def E_def dest!: in_set_takeD)
      qed
    qed
  qed
qed

section \<open>Keys order the scores\<close>

lemma bit15: "bit (u :: 16 word) 15 \<longleftrightarrow> unat u \<ge> 2 ^ 15"
proof -
  have "bit u 15 \<longleftrightarrow> bit (unat u) 15" by (simp add: bit_unsigned_iff)
  also have "\<dots> \<longleftrightarrow> odd (unat u div 2 ^ 15)" by (simp only: bit_iff_odd)
  also have "\<dots> \<longleftrightarrow> unat u \<ge> 2 ^ 15"
  proof -
    have "unat u < 2 ^ 16" using unsigned_less [of u] by simp
    then have "unat u div 2 ^ 15 = (if unat u \<ge> 2 ^ 15 then 1 else 0)" by (auto simp: div_nat_eqI)
    then show ?thesis by simp
  qed
  finally show ?thesis .
qed

lemma lo_mask: "(0x7fff :: 16 word) = mask 15" by (simp add: mask_eq_exp_minus_1)

lemma and_single: "(u :: 'a :: len word) AND push_bit k 1 = (if bit u k then push_bit k 1 else 0)"
  by (rule bit_eqI) (auto simp: bit_push_bit_iff bit_and_iff bit_1_iff bit_exp_iff split: if_splits)

lemma hi: "(u :: 16 word) AND 0x8000 = (if bit u 15 then 0x8000 else 0)"
  using and_single [of u 15] by simp

lemma lo: "unat ((u :: 16 word) AND 0x7fff) = unat u mod 2 ^ 15"
proof -
  have "u AND 0x7fff = take_bit 15 u" unfolding lo_mask by (simp only: take_bit_eq_mask)
  moreover have "unat (take_bit 15 u) = take_bit 15 (unat u)" by (rule unsigned_take_bit_eq)
  ultimately show ?thesis by (simp only: take_bit_eq_mod)
qed

lemma unat_not: "unat (NOT (u :: 16 word)) = 65535 - unat u"
proof -
  have "NOT u = - 1 - u" by (simp add: not_eq_complement)
  then have "unat (NOT u) = unat (- 1 - u)" by simp
  also have "\<dots> = unat (- 1 :: 16 word) - unat u" by (rule unat_sub) simp
  also have "unat (- 1 :: 16 word) = 65535" by (simp add: unsigned_minus_1_eq_mask mask_eq_exp_minus_1)
  finally show ?thesis .
qed

lemma unat_or_hi: "\<not> bit (u :: 16 word) 15 \<Longrightarrow> unat (u OR 0x8000) = unat u + 2 ^ 15"
proof -
  assume n: "\<not> bit u 15"
  then have "u AND 0x8000 = 0" by (simp add: hi)
  then have "u + 0x8000 = u OR 0x8000" by (rule disjunctive_add_eq_or)
  moreover have "unat u + unat (0x8000 :: 16 word) < 2 ^ LENGTH(16)" using n bit15 [of u] by simp
  then have "unat (u + 0x8000) = unat u + unat (0x8000 :: 16 word)" by (rule unat_add_lem [THEN iffD1])
  ultimately show ?thesis by simp
qed
text \<open>The fp16 order on non-NaN bit patterns: sign and magnitude, with \<open>-0\<close> just below \<open>+0\<close>.\<close>

definition fp16_rank :: "16 word \<Rightarrow> int" where
  "fp16_rank u = (if u AND 0x8000 \<noteq> 0 then - int (unat (u AND 0x7fff)) - 1 else int (unat (u AND 0x7fff)))"

lemma topk_key_rank: "int (topk_key u) = fp16_rank u + 32768"
proof -
  have b: "unat u < 65536" using unsigned_less [of u] by simp
  show ?thesis
  proof (cases "bit u 15")
    case True
    then have "unat u mod 32768 = unat u - 32768" "32768 \<le> unat u" using b bit15 [of u] by (auto simp: le_mod_geq)
    then show ?thesis using True b by (simp add: topk_key_def fp16_rank_def hi lo unat_not)
  next
    case False
    then have "unat u mod 32768 = unat u" using bit15 [of u] by simp
    then show ?thesis using False by (simp add: topk_key_def fp16_rank_def hi lo unat_or_hi)
  qed
qed

lemma topk_key_less: "topk_key u < 65536"
proof -
  have "unat (NOT u) < 2 ^ LENGTH(16)" "unat (u OR 0x8000) < 2 ^ LENGTH(16)" by (rule unsigned_less)+
  then show ?thesis by (simp add: topk_key_def)
qed

lemma topk_key_neg_inf: "topk_key NEG_INF16 = KEY_NEG_INF"
  unfolding topk_key_def NEG_INF16_def KEY_NEG_INF_def by simp

section \<open>The selection does not depend on where the call ends\<close>

lemma beats_append_masked:
  assumes "i < length ks" and "\<forall>x \<in> set zs. x \<le> KEY_NEG_INF"
  shows "beats (ks @ zs) j i \<longleftrightarrow> beats ks j i"
proof (cases "j < length ks")
  case True
  then show ?thesis using assms by (auto simp: beats_def nth_append)
next
  case False
  then have "j < length (ks @ zs) \<Longrightarrow> (ks @ zs) ! j \<le> KEY_NEG_INF" using assms(2) by (auto simp: nth_append)
  with False show ?thesis by (auto simp: beats_def)
qed

lemma beat_count_less_length:
  assumes "i < length keys" and "keys ! i > KEY_NEG_INF"
  shows "beat_count keys i < length keys"
proof -
  have "{j. beats keys j i} \<subseteq> {..<length keys} - {i}" by (auto simp: beats_def)
  then have "beat_count keys i \<le> card ({..<length keys} - {i})" unfolding beat_count_def by (rule card_mono [rotated]) simp
  then show ?thesis using assms(1) by simp
qed

lemma topk_select_masked:
  assumes ks: "\<forall>x \<in> set ks. x < 65536" and zs: "\<forall>x \<in> set zs. x \<le> KEY_NEG_INF"
    and k: "0 < K" "ks @ zs \<noteq> []"
  shows "set (topk_select (ks @ zs) (min K (length (ks @ zs)))) =
    {i. i < length ks \<and> ks ! i > KEY_NEG_INF \<and> beat_count ks i < K}"
proof -
  have "\<forall>x \<in> set (ks @ zs). x < 65536" using ks zs by (auto simp: KEY_NEG_INF_def)
  moreover have "0 < min K (length (ks @ zs))" using k by (cases "ks @ zs") auto
  ultimately have "set (topk_select (ks @ zs) (min K (length (ks @ zs)))) =
      {i. i < length (ks @ zs) \<and> (ks @ zs) ! i > KEY_NEG_INF \<and> beat_count (ks @ zs) i < min K (length (ks @ zs))}"
    by (intro topk_select_set(1))
  also have "\<dots> = {i. i < length ks \<and> ks ! i > KEY_NEG_INF \<and> beat_count ks i < K}" (is "?A = ?B")
  proof (rule set_eqI)
    fix i
    show "i \<in> ?A \<longleftrightarrow> i \<in> ?B"
    proof (cases "i < length ks")
      case True
      then have "beat_count (ks @ zs) i = beat_count ks i"
        by (simp add: beat_count_def beats_append_masked [OF True zs])
      with True beat_count_less_length [of i ks] show ?thesis by (auto simp: nth_append)
    next
      case False
      then have "i < length (ks @ zs) \<Longrightarrow> (ks @ zs) ! i \<le> KEY_NEG_INF" using zs by (auto simp: nth_append)
      with False show ?thesis by auto
    qed
  qed
  finally show ?thesis .
qed

definition visible_keys :: "('v \<Rightarrow> 16 word) \<Rightarrow> (nat \<Rightarrow> 'v) \<Rightarrow> nat \<Rightarrow> nat list" where
  "visible_keys score pool q_pos = map (\<lambda>p. topk_key (score (pool p))) [0..<(q_pos + 1) div POOL]"

lemma indexer_keys:
  assumes "(q_pos + 1) div POOL \<le> npools"
  shows "map topk_key (indexer_scores score pool q_pos npools) =
    visible_keys score pool q_pos @ replicate (npools - (q_pos + 1) div POOL) KEY_NEG_INF"
proof (rule nth_equalityI)
  fix p assume "p < length (map topk_key (indexer_scores score pool q_pos npools))"
  then have p: "p < npools" by (simp add: indexer_scores_def)
  have v: "p * 4 + 3 \<le> q_pos \<longleftrightarrow> p < (q_pos + 1) div 4" by presburger
  show "map topk_key (indexer_scores score pool q_pos npools) ! p =
    (visible_keys score pool q_pos @ replicate (npools - (q_pos + 1) div POOL) KEY_NEG_INF) ! p"
    using p v by (auto simp: indexer_scores_def visible_keys_def nth_append POOL_def topk_key_neg_inf add.commute)
qed (use assms in \<open>simp add: indexer_scores_def visible_keys_def\<close>)

text \<open>The pools a query selects, whatever the end of the call.\<close>

definition selected_pools :: "('v \<Rightarrow> 16 word) \<Rightarrow> (nat \<Rightarrow> 'v) \<Rightarrow> nat \<Rightarrow> nat set" where
  "selected_pools score pool q_pos =
     (let ks = visible_keys score pool q_pos
      in {i. i < length ks \<and> ks ! i > KEY_NEG_INF \<and> beat_count ks i < 512})"

lemma topk_selected:
  fixes score :: "'v \<Rightarrow> 16 word" and pool :: "nat \<Rightarrow> 'v"
  assumes "(q_pos + 1) div POOL \<le> npools" and "0 < npools"
  defines "sel \<equiv> topk_select (map topk_key (indexer_scores score pool q_pos npools)) (min 512 npools)"
  shows "set sel = selected_pools score pool q_pos" and "distinct sel" and "length sel \<le> 512"
proof -
  let ?z = "replicate (npools - (q_pos + 1) div POOL) KEY_NEG_INF"
  have ks: "\<forall>x \<in> set (visible_keys score pool q_pos). x < 65536"
    by (auto simp: visible_keys_def topk_key_less)
  have len: "length (visible_keys score pool q_pos @ ?z) = npools"
    using assms(1) by (simp add: visible_keys_def)
  then have ne: "visible_keys score pool q_pos @ ?z \<noteq> []" using assms(2) by (metis list.size(3) less_irrefl)
  have "\<forall>x \<in> set ?z. x \<le> KEY_NEG_INF" by simp
  from topk_select_masked [OF ks this _ ne, of 512]
  show "set sel = selected_pools score pool q_pos"
    unfolding sel_def indexer_keys [OF assms(1)] len selected_pools_def Let_def by simp
  have all: "\<forall>x \<in> set (map topk_key (indexer_scores score pool q_pos npools)). x < 65536"
    by (auto simp: topk_key_less)
  have "0 < min 512 npools" using assms(2) by simp
  note f = topk_select_set [OF this all]
  show "distinct sel" unfolding sel_def by (rule f(2))
  show "length sel \<le> 512" unfolding sel_def f(3) by simp
qed

text \<open>The tokens one query attends to.\<close>

definition attended :: "('v \<Rightarrow> 16 word) \<Rightarrow> (nat \<Rightarrow> 'v) \<Rightarrow> nat \<Rightarrow> nat \<Rightarrow> nat list" where
  "attended score pool q_pos npools =
     map nat (filter (\<lambda>t. t \<ge> 0)
       (pool_expand_row (dsa_topk (indexer_scores score pool q_pos npools) (min 512 npools) 512) (int q_pos)))"

definition attended_ref :: "('v \<Rightarrow> 16 word) \<Rightarrow> (nat \<Rightarrow> 'v) \<Rightarrow> nat \<Rightarrow> nat list" where
  "attended_ref score pool q_pos =
     concat (map (\<lambda>g. [g * 4..<g * 4 + 4]) (sorted_list_of_set (selected_pools score pool q_pos))) @
     [q_pos - 3..<Suc q_pos]"

lemma expand_pool:
  assumes "g * 4 + 3 \<le> q_pos"
  shows "map nat (filter (\<lambda>t. t \<ge> 0) (map (\<lambda>j. let tok = (if int g \<ge> 0 then int g * int POOL + int j else -1)
      in if tok \<ge> 0 \<and> tok \<le> int q_pos then tok else -1) [0..<POOL])) = [g * 4..<g * 4 + 4]"
  using assms by (simp add: POOL_def Let_def upt_rec eval_nat_numeral nat_add_distrib nat_mult_distrib)

lemma expand_none:
  "filter (\<lambda>t. t \<ge> 0) (map (\<lambda>j. let tok = (if (-1 :: int) \<ge> 0 then -1 * int POOL + int j else -1)
      in if tok \<ge> 0 \<and> tok \<le> q_pos then tok else -1) [0..<POOL]) = []"
  by (simp add: POOL_def Let_def upt_rec eval_nat_numeral)

lemma four_nats: "[k..<k + 4] = [k, k + 1, k + 2, k + 3 :: nat]" "[0..<4] = [0, 1, 2, 3 :: nat]"
  by (simp_all add: upt_rec eval_nat_numeral)

lemma expand_tail:
  "map nat (filter (\<lambda>t. t \<ge> 0) (map (\<lambda>i. let tail = int q_pos - (int POOL - 1 - int i)
      in if tail \<ge> 0 then tail else -1) [0..<POOL])) = [q_pos - 3..<Suc q_pos]"
proof -
  consider "q_pos = 0" | "q_pos = 1" | "q_pos = 2" | "q_pos \<ge> 3" by linarith
  then show ?thesis
  proof cases
    case 4
    then obtain r where r: "q_pos = r + 3" by (metis add.commute le_Suc_ex)
    have u: "[q_pos - 3..<Suc q_pos] = [r, r + 1, r + 2, r + 3]" using four_nats(1) [of r] by (simp add: r add.commute)
    have n: "nat (int r + 3) = r + 3" "nat (int r + 2) = r + 2" "nat (int r + 1) = r + 1" by linarith+
    show ?thesis unfolding u unfolding r POOL_def four_nats(2) by (simp add: Let_def n)
  qed (simp_all add: POOL_def four_nats(2) Let_def upt_rec eval_nat_numeral)
qed

lemma expand_row_pools:
  "\<forall>g \<in> set sel. g * 4 + 3 \<le> q_pos \<Longrightarrow>
   map nat (filter (\<lambda>t. t \<ge> 0) (pool_expand_row (map int sel @ replicate m (-1)) (int q_pos))) =
   concat (map (\<lambda>g. [g * 4..<g * 4 + 4]) sel) @ [q_pos - 3..<Suc q_pos]"
proof (induction sel)
  case Nil
  have "filter (\<lambda>t. t \<ge> 0) (concat (map (\<lambda>pi. map (\<lambda>j. let tok = (if pi \<ge> 0 then pi * int POOL + int j else -1)
      in if tok \<ge> 0 \<and> tok \<le> int q_pos then tok else -1) [0..<POOL]) (replicate m (-1)))) = []"
    by (induction m) (simp_all add: expand_none)
  then show ?case unfolding pool_expand_row_def list.map append_Nil concat.simps
    by (simp only: filter_append map_append expand_tail list.map append_Nil)
next
  case (Cons g sel)
  then have g: "g * 4 + 3 \<le> q_pos" by simp
  let ?rest = "map int sel @ replicate m (-1)"
  let ?E = "map (\<lambda>j. let tok = (if int g \<ge> 0 then int g * int POOL + int j else -1)
      in if tok \<ge> 0 \<and> tok \<le> int q_pos then tok else -1) [0..<POOL]"
  have "pool_expand_row (int g # ?rest) (int q_pos) = ?E @ pool_expand_row ?rest (int q_pos)"
    by (simp add: pool_expand_row_def)
  then have "map nat (filter (\<lambda>t. t \<ge> 0) (pool_expand_row (map int (g # sel) @ replicate m (-1)) (int q_pos))) =
      map nat (filter (\<lambda>t. t \<ge> 0) ?E) @ map nat (filter (\<lambda>t. t \<ge> 0) (pool_expand_row ?rest (int q_pos)))"
    by simp
  also have "map nat (filter (\<lambda>t. t \<ge> 0) ?E) = [g * 4..<g * 4 + 4]" by (rule expand_pool [OF g])
  also have "map nat (filter (\<lambda>t. t \<ge> 0) (pool_expand_row ?rest (int q_pos))) =
      concat (map (\<lambda>g. [g * 4..<g * 4 + 4]) sel) @ [q_pos - 3..<Suc q_pos]"
    using Cons by simp
  finally show ?case by simp
qed

lemma selected_pools_visible: "g \<in> selected_pools score pool q_pos \<Longrightarrow> g * 4 + 3 \<le> q_pos"
  by (simp add: selected_pools_def visible_keys_def POOL_def Let_def) linarith

lemma attended_mset:
  assumes "(q_pos + 1) div POOL \<le> npools" and "0 < npools"
  shows "mset (attended score pool q_pos npools) = mset (attended_ref score pool q_pos)"
proof -
  define sel where "sel = topk_select (map topk_key (indexer_scores score pool q_pos npools)) (min 512 npools)"
  note t = topk_selected [OF assms, of score pool, folded sel_def]
  have "\<forall>g \<in> set sel. g * 4 + 3 \<le> q_pos" unfolding t(1) using selected_pools_visible by blast
  from expand_row_pools [OF this, of "512 - length sel"]
  have a: "attended score pool q_pos npools =
      concat (map (\<lambda>g. [g * 4..<g * 4 + 4]) sel) @ [q_pos - 3..<Suc q_pos]"
    by (simp add: attended_def dsa_topk_def sel_def Let_def)
  have "mset sel = mset (sorted_list_of_set (selected_pools score pool q_pos))"
    using t(1,2) by (metis mset_set_set mset_sorted_list_of_multiset sorted_list_of_mset_set)
  then have "mset (concat (map (\<lambda>g. [g * 4..<g * 4 + 4]) sel)) =
      mset (concat (map (\<lambda>g. [g * 4..<g * 4 + 4]) (sorted_list_of_set (selected_pools score pool q_pos))))"
    unfolding mset_concat sum_mset_sum_list [symmetric] mset_map by simp
  then show ?thesis by (simp add: a attended_ref_def)
qed

text \<open>Causality: a query reads no row past its own position, and every pool it reads is complete.\<close>

lemma attended_causal:
  assumes "(q_pos + 1) div POOL \<le> npools" and "0 < npools"
  shows "t \<in> set (attended score pool q_pos npools) \<Longrightarrow> t \<le> q_pos"
    and "q_pos - 3 \<le> t \<Longrightarrow> t \<le> q_pos \<Longrightarrow> t \<in> set (attended score pool q_pos npools)"
proof -
  have s: "set (attended score pool q_pos npools) = set (attended_ref score pool q_pos)"
    using attended_mset [OF assms] by (metis set_mset_mset)
  have "finite (selected_pools score pool q_pos)" by (simp add: selected_pools_def Let_def)
  then show "t \<in> set (attended score pool q_pos npools) \<Longrightarrow> t \<le> q_pos"
    unfolding s by (auto simp: attended_ref_def dest!: selected_pools_visible)
  show "q_pos - 3 \<le> t \<Longrightarrow> t \<le> q_pos \<Longrightarrow> t \<in> set (attended score pool q_pos npools)"
    unfolding s by (auto simp: attended_ref_def)
qed

text \<open>The selection reads the pool keys of complete groups only.\<close>

lemma attended_ref_cong:
  assumes "\<forall>g < (q_pos + 1) div 4. pool g = pool' g"
  shows "attended_ref score pool q_pos = attended_ref score pool' q_pos"
proof -
  have "visible_keys score pool q_pos = visible_keys score pool' q_pos"
    using assms by (simp add: visible_keys_def POOL_def)
  then show ?thesis by (simp add: attended_ref_def selected_pools_def)
qed

lemma beat_count_mono:
  assumes "keys ! i < keys ! j" and "j < length keys" and "keys ! j > KEY_NEG_INF"
  shows "beat_count keys j < beat_count keys i"
proof -
  have "{l. beats keys l j} \<subseteq> {l. beats keys l i}" using assms(1) by (auto simp: beats_def)
  moreover have "j \<in> {l. beats keys l i}" "j \<notin> {l. beats keys l j}" using assms by (auto simp: beats_def)
  ultimately have "{l. beats keys l j} \<subset> {l. beats keys l i}" by blast
  moreover have "finite {l. beats keys l i}" by (rule finite_subset [of _ "{..<length keys}"]) (auto simp: beats_def)
  ultimately show ?thesis unfolding beat_count_def by (intro psubset_card_mono)
qed

text \<open>The newest complete pool and the forced tail overlap: nothing removes the duplicates.\<close>

lemma attended_overlap:
  assumes "(q_pos + 1) div POOL \<le> npools" and "0 < npools" and g: "g \<in> selected_pools score pool q_pos"
    and t: "g * 4 \<le> t" "t \<le> g * 4 + 3" "q_pos - 3 \<le> t"
  shows "2 \<le> count (mset (attended score pool q_pos npools)) t"
proof -
  have vis: "g * 4 + 3 \<le> q_pos" by (rule selected_pools_visible [OF g])
  define sel where "sel = sorted_list_of_set (selected_pools score pool q_pos)"
  have "finite (selected_pools score pool q_pos)" by (simp add: selected_pools_def Let_def)
  with g have "g \<in> set sel" by (simp add: sel_def)
  then have "t \<in> set (concat (map (\<lambda>g. [g * 4..<g * 4 + 4]) sel))" using t by (auto intro!: bexI [of _ g])
  moreover have "t \<in> set [q_pos - 3..<Suc q_pos]" using t vis by auto
  ultimately have "1 \<le> count (mset (concat (map (\<lambda>g. [g * 4..<g * 4 + 4]) sel))) t"
    "1 \<le> count (mset [q_pos - 3..<Suc q_pos]) t"
    by (simp_all only: Suc_le_eq One_nat_def count_greater_zero_iff set_mset_mset)
  then show ?thesis
    unfolding attended_mset [OF assms(1,2)] attended_ref_def sel_def [symmetric] mset_append count_union by linarith
qed

section \<open>Properties\<close>

text \<open>C13: The raw ring is large enough and the launch is free of ordering hazards: in whatever order the
  blocks of \<^verbatim>\<open>kpool_write\<close> run, after a call with at most \<open>raw_rows - 4\<close> rows the ring holds the raw rows of
  the unfinished group and every complete group has the pool key of its own four rows, although rows
  are stored modulo the ring size.\<close>

theorem kpool_write_any_order:
  assumes "ring_holds raw_rows raw pos ring" and "pools_hold pool_key raw pos pool"
    and "length rows + 4 \<le> raw_rows" and "\<forall>i < length rows. rows ! i = raw (pos + i)"
    and "set order = {..<kpool_blocks pos (length rows)}"
  shows "ring_holds raw_rows raw (pos + length rows) (fst (kpool_write raw_rows pool_key pos rows order (ring, pool))) \<and>
    pools_hold pool_key raw (pos + length rows) (snd (kpool_write raw_rows pool_key pos rows order (ring, pool)))"
  using kpool_write_holds [OF assms(1-4), of order] assms(5) by auto

theorem kpool_write_any_order_witness:
  "pools_hold sum_list (\<lambda>q. q * q) (6 + length [36, 49, 64 :: nat])
     (snd (kpool_write 7 sum_list 6 [36, 49, 64] [2, 0, 1] ((\<lambda>x. if x = 4 then 16 else 25), (\<lambda>g. 14))))"
proof (rule kpool_write_any_order [THEN conjunct2])
  have "q = 4 \<or> q = 5" if "4 \<le> q" "q < 6" for q :: nat using that by linarith
  then show "ring_holds 7 (\<lambda>q. q * q) 6 (\<lambda>x. if x = 4 then 16 else 25)"
    unfolding ring_holds_def group_start_def POOL_def by fastforce
  show "pools_hold sum_list (\<lambda>q. q * q) 6 (\<lambda>g. 14)"
    unfolding pools_hold_def POOL_def four_nats(1) by simp
  show "\<forall>i < length [36, 49, 64 :: nat]. [36, 49, 64] ! i = (6 + i) * (6 + i)"
  proof (intro allI impI)
    fix i assume "i < length [36, 49, 64 :: nat]"
    then consider "i = 0" | "i = 1" | "i = 2" by fastforce
    then show "[36, 49, 64] ! i = (6 + i) * (6 + i)" by cases simp_all
  qed
  show "set [2, 0, 1] = {..<kpool_blocks 6 (length [36, 49, 64 :: nat])}"
    by (auto simp: kpool_blocks_def POOL_def)
qed simp

text \<open>C18: The radix selection is a top-k: the output is the selected positions followed by \<open>-1\<close> padding; the
  positions are distinct, there are \<open>k\<close> of them or as many as there are finite scores, and no finite score
  left out is larger (in the fp16 order) than a selected one.\<close>

theorem dsa_topk_selects_best:
  assumes "0 < k"
  shows "\<exists>sel. dsa_topk scores k k_pad = map int sel @ replicate (k_pad - length sel) (-1) \<and> distinct sel \<and>
    length sel = min k (length (filter (\<lambda>u. topk_key u > KEY_NEG_INF) scores)) \<and>
    set sel \<subseteq> {i. i < length scores \<and> topk_key (scores ! i) > KEY_NEG_INF} \<and>
    (\<forall>i \<in> set sel. \<forall>j < length scores. topk_key (scores ! j) > KEY_NEG_INF \<longrightarrow> j \<notin> set sel \<longrightarrow>
       fp16_rank (scores ! j) \<le> fp16_rank (scores ! i))"
proof -
  let ?keys = "map topk_key scores"
  define sel where "sel = topk_select ?keys k"
  have all: "\<forall>x \<in> set ?keys. x < 65536" by (auto simp: topk_key_less)
  note t = topk_select_set [OF assms all, folded sel_def]
  have "fp16_rank (scores ! j) \<le> fp16_rank (scores ! i)"
    if "i \<in> set sel" "j < length scores" "topk_key (scores ! j) > KEY_NEG_INF" "j \<notin> set sel" for i j
  proof (rule ccontr)
    assume "\<not> ?thesis"
    then have "topk_key (scores ! i) < topk_key (scores ! j)"
      using topk_key_rank [of "scores ! i"] topk_key_rank [of "scores ! j"] by linarith
    moreover have "i < length scores" using that(1) t(1) by simp
    ultimately have "beat_count ?keys j < beat_count ?keys i" using that(2,3) by (intro beat_count_mono) simp_all
    then show False using that t(1) by auto
  qed
  moreover have "length (filter (\<lambda>x. x > KEY_NEG_INF) ?keys) = length (filter (\<lambda>u. topk_key u > KEY_NEG_INF) scores)"
    by (simp add: filter_map o_def)
  ultimately show ?thesis
    using t by (intro exI [of _ sel]) (auto simp: dsa_topk_def sel_def Let_def)
qed

theorem dsa_topk_selects_best_witness:
  "\<exists>sel. dsa_topk [0x3c00, 0xfc00, 0x4000, 0xbc00] 2 4 = map int sel @ replicate (4 - length sel) (-1) \<and> distinct sel \<and>
    length sel = min 2 (length (filter (\<lambda>u. topk_key u > KEY_NEG_INF) [0x3c00, 0xfc00, 0x4000, 0xbc00]))"
  using dsa_topk_selects_best [of 2 "[0x3c00, 0xfc00, 0x4000, 0xbc00]" 4] by auto

text \<open>C20: The sparse attention is causal and local: a query reads no token past its own position, always
  reads its own last four, and the tokens it reads depend only on its visible pools, not on where the
  chunk it is part of ends.\<close>

theorem attention_is_causal:
  assumes "(q_pos + 1) div POOL \<le> npools" and "0 < npools"
  shows "(\<forall>t \<in> set (attended score pool q_pos npools). t \<le> q_pos) \<and>
    {q_pos - 3..q_pos} \<subseteq> set (attended score pool q_pos npools) \<and>
    ((q_pos + 1) div POOL \<le> npools' \<and> 0 < npools' \<longrightarrow>
      mset (attended score pool q_pos npools') = mset (attended score pool q_pos npools))"
proof (intro conjI impI; (elim conjE)?)
  show "\<forall>t \<in> set (attended score pool q_pos npools). t \<le> q_pos"
    "{q_pos - 3..q_pos} \<subseteq> set (attended score pool q_pos npools)"
    using attended_causal [OF assms, of _ score pool] by auto
  show "mset (attended score pool q_pos npools') = mset (attended score pool q_pos npools)"
    if "(q_pos + 1) div POOL \<le> npools'" "0 < npools'"
    unfolding attended_mset [OF assms] by (rule attended_mset [OF that])
qed

theorem attention_is_causal_witness:
  "mset (attended (\<lambda>k. k) (\<lambda>g. 0x3c00) 6 9) = mset (attended (\<lambda>k. k) (\<lambda>g. 0x3c00) 6 2)"
  using attention_is_causal [of 6 2 "\<lambda>k. k" "\<lambda>g. 0x3c00" 9] by (simp add: POOL_def)

text \<open>C21: The forced tail is not deduplicated: whenever a selected pool contains one of the last four tokens,
  that token is listed twice, so the softmax of \<^verbatim>\<open>mla_sparse_decode\<close> gives it twice its weight (the comment
  in \<^verbatim>\<open>attn.cuh\<close> says that duplicates are masked with \<open>-1\<close>).\<close>

theorem tail_token_attended_twice:
  assumes "(q_pos + 1) div POOL \<le> npools" and "0 < npools" and "g \<in> selected_pools score pool q_pos"
    and "g * 4 \<le> t" "t \<le> g * 4 + 3" "q_pos - 3 \<le> t"
  shows "2 \<le> count (mset (attended score pool q_pos npools)) t"
  by (rule attended_overlap [OF assms])

theorem tail_token_attended_twice_witness:
  "2 \<le> count (mset (attended (\<lambda>k. k) (\<lambda>g. 0x3c00) 3 1)) 2"
proof -
  have "{j. beats [topk_key 0x3c00] j 0} = {}" by (auto simp: beats_def)
  then have "beat_count [topk_key 0x3c00] 0 = 0" by (simp add: beat_count_def)
  then have "0 \<in> selected_pools (\<lambda>k. k) (\<lambda>g. 0x3c00) 3"
    by (simp add: selected_pools_def visible_keys_def POOL_def Let_def topk_key_def KEY_NEG_INF_def)
  then show ?thesis by (intro tail_token_attended_twice [where g = 0]) (simp_all add: POOL_def)
qed

end
