(* ===== verification/Layers.thy ===== *)
theory Layers
  imports Attention
begin

text \<open>
  The forward pass over the layers, \<^verbatim>\<open>Runner::layer_step\<close>, \<^verbatim>\<open>kda_layer\<close>, \<^verbatim>\<open>mla_layer\<close> and
  \<^verbatim>\<open>kda_state_io\<close> of \<^verbatim>\<open>src/engine/runner.cpp\<close>, on the caches of \<^verbatim>\<open>src/engine/cache.hpp\<close>.  The
  numeric kernels are parameters, one row at a time (a \<open>LayerOps\<close>); what the model keeps is which
  state each layer reads and writes, at which address, and in which order.  \<open>'v\<close> is a row vector,
  \<open>'e\<close> the recurrent state of one KDA layer (its conv window and delta-rule matrix).  The reference
  semantics is a function of the whole input sequence; the caches represent it.
\<close>

section \<open>Layers and caches\<close>

datatype AttnKind = KDA | MLA

record ('v, 'e) LayerOps =
  op_mix_attn :: "'v \<Rightarrow> 'v"
  op_kda :: "'e \<Rightarrow> 'v \<Rightarrow> 'e \<times> 'v"
  op_ckv :: "'v \<Rightarrow> 'v"
  op_raw :: "'v \<Rightarrow> 'v"
  op_pool_key :: "'v list \<Rightarrow> 'v"
  op_score :: "'v \<Rightarrow> 'v \<Rightarrow> 16 word"
  op_attend :: "'v \<Rightarrow> 'v multiset \<Rightarrow> 'v"
  op_apply_attn :: "'v \<Rightarrow> 'v \<Rightarrow> 'v"
  op_mix_ffn :: "'v \<Rightarrow> 'v"
  op_ffn :: "'v \<Rightarrow> 'v"
  op_apply_ffn :: "'v \<Rightarrow> 'v \<Rightarrow> 'v"

record ('v, 'e) Layer =
  ly_kind :: AttnKind
  ly_mla_ord :: int
  ly_kda_ord :: int
  ly_ops :: "('v, 'e) LayerOps"

text \<open>\<^verbatim>\<open>Runner::init\<close> numbers the layers of each kind.\<close>

fun assign_ords :: "nat \<Rightarrow> nat \<Rightarrow> ('v, 'e) Layer list \<Rightarrow> ('v, 'e) Layer list" where
  "assign_ords a k [] = []"
| "assign_ords a k (L # Ls) =
     (if ly_kind L = MLA
      then L\<lparr>ly_mla_ord := int a, ly_kda_ord := -1\<rparr> # assign_ords (Suc a) k Ls
      else L\<lparr>ly_mla_ord := -1, ly_kda_ord := int k\<rparr> # assign_ords a (Suc k) Ls)"

record ('v, 'e) Caches =
  c_cap :: nat
  c_raw_rows :: nat
  c_n_kda :: nat
  c_kda :: "nat \<Rightarrow> 'e"
  c_ckv :: "nat \<Rightarrow> nat \<Rightarrow> 'v"
  c_ring :: "nat \<Rightarrow> nat \<Rightarrow> 'v"
  c_pool :: "nat \<Rightarrow> nat \<Rightarrow> 'v"

section \<open>One layer over a chunk\<close>

fun kda_scan :: "('e \<Rightarrow> 'v \<Rightarrow> 'e \<times> 'v) \<Rightarrow> 'e \<Rightarrow> 'v list \<Rightarrow> 'e \<times> 'v list" where
  "kda_scan step e [] = (e, [])"
| "kda_scan step e (x # xs) =
     (let (e1, y) = step e x; (e2, ys) = kda_scan step e1 xs in (e2, y # ys))"

definition kda_layer ::
  "('v, 'e) Layer \<Rightarrow> 'v list \<Rightarrow> ('v, 'e) Caches \<Rightarrow> ('v, 'e) Caches \<times> 'v list" where
  "kda_layer L xa c =
     (let ord = nat (ly_kda_ord L);
          (e, ys) = kda_scan (op_kda (ly_ops L)) (c_kda c ord) xa
      in (c\<lparr>c_kda := (c_kda c)(ord := e)\<rparr>, ys))"

definition write_rows :: "nat \<Rightarrow> 'v list \<Rightarrow> (nat \<Rightarrow> 'v) \<Rightarrow> nat \<Rightarrow> 'v" where
  "write_rows pos rows plane = (\<lambda>p. if pos \<le> p \<and> p < pos + length rows then rows ! (p - pos) else plane p)"

definition mla_layer ::
  "('v, 'e) Layer \<Rightarrow> nat \<Rightarrow> 'v list \<Rightarrow> ('v, 'e) Caches \<Rightarrow> ('v, 'e) Caches \<times> 'v list" where
  "mla_layer L pos xa c =
     (let ord = nat (ly_mla_ord L);
          n = length xa;
          ckv = write_rows pos (map (op_ckv (ly_ops L)) xa) (c_ckv c ord);
          (ring, pool) = kpool_write (c_raw_rows c) (op_pool_key (ly_ops L)) pos
                           (map (op_raw (ly_ops L)) xa) [0..<kpool_blocks pos n] (c_ring c ord, c_pool c ord);
          npools = (pos + n + 3) div 4;
          out = map (\<lambda>i. op_attend (ly_ops L) (xa ! i)
                      (image_mset ckv (mset (attended (op_score (ly_ops L) (xa ! i)) pool (pos + i) npools))))
                  [0..<n]
      in (c\<lparr>c_ckv := (c_ckv c)(ord := ckv), c_ring := (c_ring c)(ord := ring),
            c_pool := (c_pool c)(ord := pool)\<rparr>, out))"

definition layer_step ::
  "('v, 'e) Layer \<Rightarrow> nat \<Rightarrow> 'v list \<Rightarrow> ('v, 'e) Caches \<Rightarrow> ('v, 'e) Caches \<times> 'v list" where
  "layer_step L pos streams c =
     (let xa = map (op_mix_attn (ly_ops L)) streams;
          (c, attn_out) = (if ly_kind L = KDA then kda_layer L xa c else mla_layer L pos xa c);
          streams = map2 (op_apply_attn (ly_ops L)) streams attn_out;
          xf = map (op_mix_ffn (ly_ops L)) streams;
          ffn_out = map (op_ffn (ly_ops L)) xf
      in (c, map2 (op_apply_ffn (ly_ops L)) streams ffn_out))"

fun run_layers ::
  "('v, 'e) Layer list \<Rightarrow> nat \<Rightarrow> 'v list \<Rightarrow> ('v, 'e) Caches \<Rightarrow> ('v, 'e) Caches \<times> 'v list" where
  "run_layers [] pos streams c = (c, streams)"
| "run_layers (L # Ls) pos streams c =
     (let (c, streams) = layer_step L pos streams c in run_layers Ls pos streams c)"

text \<open>Saving and loading the recurrent state of the whole model; the buffer has one entry per KDA
  ordinal.\<close>

fun kda_save :: "('v, 'e) Layer list \<Rightarrow> ('v, 'e) Caches \<Rightarrow> (nat \<Rightarrow> 'e) \<Rightarrow> nat \<Rightarrow> 'e" where
  "kda_save [] c buf = buf"
| "kda_save (L # Ls) c buf =
     (if ly_kind L \<noteq> KDA \<or> ly_kda_ord L < 0 then kda_save Ls c buf
      else let ord = nat (ly_kda_ord L) in kda_save Ls c (buf(ord := c_kda c ord)))"

fun kda_load :: "('v, 'e) Layer list \<Rightarrow> (nat \<Rightarrow> 'e) \<Rightarrow> ('v, 'e) Caches \<Rightarrow> ('v, 'e) Caches" where
  "kda_load [] buf c = c"
| "kda_load (L # Ls) buf c =
     (if ly_kind L \<noteq> KDA \<or> ly_kda_ord L < 0 then kda_load Ls buf c
      else let ord = nat (ly_kda_ord L) in kda_load Ls buf (c\<lparr>c_kda := (c_kda c)(ord := buf ord)\<rparr>))"

section \<open>Reference semantics\<close>

text \<open>What a layer computes on a whole sequence of rows: row \<open>t\<close> depends on rows \<open>0..t\<close>.\<close>

definition mla_ref_row :: "('v, 'e) LayerOps \<Rightarrow> 'v list \<Rightarrow> nat \<Rightarrow> 'v" where
  "mla_ref_row P xa t =
     op_attend P (xa ! t) (image_mset (\<lambda>p. op_ckv P (xa ! p))
       (mset (attended_ref (op_score P (xa ! t))
         (\<lambda>g. op_pool_key P (map (\<lambda>q. op_raw P (xa ! q)) [g * POOL..<g * POOL + POOL])) t)))"

definition attn_ref :: "'e \<Rightarrow> AttnKind \<Rightarrow> ('v, 'e) LayerOps \<Rightarrow> 'v list \<Rightarrow> 'v list" where
  "attn_ref zero kind P xa =
     (if kind = KDA then snd (kda_scan (op_kda P) zero xa) else map (mla_ref_row P xa) [0..<length xa])"

definition layer_ref :: "'e \<Rightarrow> ('v, 'e) Layer \<Rightarrow> 'v list \<Rightarrow> 'v list" where
  "layer_ref zero L xs =
     (let P = ly_ops L;
          s1 = map2 (op_apply_attn P) xs (attn_ref zero (ly_kind L) P (map (op_mix_attn P) xs))
      in map (\<lambda>s. op_apply_ffn P s (op_ffn P (op_mix_ffn P s))) s1)"

fun model_ref :: "'e \<Rightarrow> ('v, 'e) Layer list \<Rightarrow> 'v list \<Rightarrow> 'v list" where
  "model_ref zero [] xs = xs"
| "model_ref zero (L # Ls) xs = model_ref zero Ls (layer_ref zero L xs)"

text \<open>The caches represent the reference run on the rows so far.\<close>

definition kda_ref_state :: "'e \<Rightarrow> ('v, 'e) Layer \<Rightarrow> 'v list \<Rightarrow> 'e" where
  "kda_ref_state zero L xs = fst (kda_scan (op_kda (ly_ops L)) zero (map (op_mix_attn (ly_ops L)) xs))"

definition raw_of :: "('v, 'e) Layer \<Rightarrow> 'v list \<Rightarrow> nat \<Rightarrow> 'v" where
  "raw_of L xs q = op_raw (ly_ops L) (op_mix_attn (ly_ops L) (xs ! q))"

definition mla_holds :: "('v, 'e) Layer \<Rightarrow> ('v, 'e) Caches \<Rightarrow> 'v list \<Rightarrow> bool" where
  "mla_holds L c xs \<longleftrightarrow>
     (let ord = nat (ly_mla_ord L) in
        (\<forall>p < length xs. c_ckv c ord p = op_ckv (ly_ops L) (op_mix_attn (ly_ops L) (xs ! p))) \<and>
        ring_holds (c_raw_rows c) (raw_of L xs) (length xs) (c_ring c ord) \<and>
        pools_hold (op_pool_key (ly_ops L)) (raw_of L xs) (length xs) (c_pool c ord))"

definition layer_holds :: "'e \<Rightarrow> ('v, 'e) Layer \<Rightarrow> ('v, 'e) Caches \<Rightarrow> 'v list \<Rightarrow> bool" where
  "layer_holds zero L c xs \<longleftrightarrow>
     (if ly_kind L = KDA then c_kda c (nat (ly_kda_ord L)) = kda_ref_state zero L xs
      else mla_holds L c xs)"

fun caches_hold :: "'e \<Rightarrow> ('v, 'e) Layer list \<Rightarrow> ('v, 'e) Caches \<Rightarrow> 'v list \<Rightarrow> bool" where
  "caches_hold zero [] c xs \<longleftrightarrow> True"
| "caches_hold zero (L # Ls) c xs \<longleftrightarrow> layer_holds zero L c xs \<and> caches_hold zero Ls c (layer_ref zero L xs)"

section \<open>The reference is causal\<close>

lemma kda_scan_append:
  "kda_scan step e (xs @ ys) =
     (let (e1, us) = kda_scan step e xs; (e2, vs) = kda_scan step e1 ys in (e2, us @ vs))"
  by (induction xs arbitrary: e) (simp_all add: Let_def split_def)

lemma length_kda_scan [simp]: "length (snd (kda_scan step e xs)) = length xs"
  by (induction xs arbitrary: e) (simp_all add: Let_def split_def)

lemma length_attn_ref [simp]: "length (attn_ref zero kind P xa) = length xa"
  by (simp add: attn_ref_def)

lemma length_layer_ref [simp]: "length (layer_ref zero L xs) = length xs"
  by (simp add: layer_ref_def Let_def)

lemma length_model_ref [simp]: "length (model_ref zero Ls xs) = length xs"
  by (induction Ls arbitrary: xs) simp_all

text \<open>The rows a query attends to, and the pools that rank them, lie in its own past.\<close>

lemma attended_ref_le: "p \<in> set (attended_ref score pool t) \<Longrightarrow> p \<le> t"
proof -
  have "finite (selected_pools score pool t)" by (simp add: selected_pools_def Let_def)
  then show "p \<in> set (attended_ref score pool t) \<Longrightarrow> p \<le> t"
    by (auto simp: attended_ref_def dest!: selected_pools_visible)
qed

lemma mla_ref_row_cong:
  assumes "\<forall>q \<le> t. xa ! q = xb ! q"
  shows "mla_ref_row P xa t = mla_ref_row P xb t"
proof -
  let ?pool = "\<lambda>xa g. op_pool_key P (map (\<lambda>q. op_raw P (xa ! q)) [g * POOL..<g * POOL + POOL])"
  have "?pool xa g = ?pool xb g" if "g < (t + 1) div 4" for g
  proof -
    have "q \<le> t" if "q < g * 4 + 4" for q using that \<open>g < (t + 1) div 4\<close> by linarith
    then show ?thesis using assms by (auto simp: POOL_def intro!: arg_cong [where f = "op_pool_key P"])
  qed
  then have "attended_ref (op_score P (xa ! t)) (?pool xa) t = attended_ref (op_score P (xb ! t)) (?pool xb) t"
    using assms by (intro trans [OF attended_ref_cong [of t "?pool xa" "?pool xb"]]) auto
  moreover have "op_ckv P (xa ! p) = op_ckv P (xb ! p)"
    if "p \<in># mset (attended_ref (op_score P (xb ! t)) (?pool xb) t)" for p
  proof -
    from that have "p \<le> t" by (intro attended_ref_le) simp
    with assms show ?thesis by simp
  qed
  ultimately show ?thesis
    unfolding mla_ref_row_def using assms by (auto intro!: arg_cong2 [where f = "op_attend P"] image_mset_cong)
qed

lemma attn_ref_append: "take (length xs) (attn_ref zero kind P (xs @ ys)) = attn_ref zero kind P xs"
proof (cases kind)
  case KDA
  then show ?thesis by (simp add: attn_ref_def kda_scan_append Let_def split_def)
next
  case MLA
  have "map (mla_ref_row P (xs @ ys)) [0..<length xs] = map (mla_ref_row P xs) [0..<length xs]"
    by (rule map_cong [OF refl], rule mla_ref_row_cong) (auto simp: nth_append)
  with MLA show ?thesis by (simp add: attn_ref_def take_map)
qed

lemma layer_ref_append: "take (length xs) (layer_ref zero L (xs @ ys)) = layer_ref zero L xs"
  by (simp add: layer_ref_def Let_def take_map take_zip
      attn_ref_append [of "map f xs" for f, simplified])

lemma layer_ref_take: "k \<le> length xs \<Longrightarrow> layer_ref zero L (take k xs) = take k (layer_ref zero L xs)"
  using layer_ref_append [of "take k xs" zero L "drop k xs"] by (simp add: min_absorb2)

lemma layer_ref_split:
  "layer_ref zero L (xs @ ys) = layer_ref zero L xs @ drop (length xs) (layer_ref zero L (xs @ ys))"
  using layer_ref_append [of xs zero L ys] append_take_drop_id [of "length xs" "layer_ref zero L (xs @ ys)"] by simp

lemma model_ref_take: "k \<le> length xs \<Longrightarrow> model_ref zero Ls (take k xs) = take k (model_ref zero Ls xs)"
  by (induction Ls arbitrary: xs) (simp_all add: layer_ref_take)

section \<open>A chunk extends what the caches represent\<close>

lemma ring_holds_cong:
  "\<forall>q < pos. raw q = raw' q \<Longrightarrow> ring_holds r raw pos ring \<longleftrightarrow> ring_holds r raw' pos ring"
  by (auto simp: ring_holds_def)

lemma pools_hold_cong:
  assumes "\<forall>q < pos. raw q = raw' q"
  shows "pools_hold k raw pos pool \<longleftrightarrow> pools_hold k raw' pos pool"
proof -
  have e: "map raw [g * POOL..<g * POOL + POOL] = map raw' [g * POOL..<g * POOL + POOL]" if "g < pos div POOL" for g
  proof (rule map_cong [OF refl])
    fix q assume "q \<in> set [g * POOL..<g * POOL + POOL]"
    with that have "q < pos" by (simp add: POOL_def) linarith
    with assms show "raw q = raw' q" by simp
  qed
  show ?thesis unfolding pools_hold_def by (metis e)
qed

lemma mla_layer_correct:
  assumes hold: "mla_holds L c xs" and ys: "ys \<noteq> []" and len: "length ys + 4 \<le> c_raw_rows c"
  defines "P \<equiv> ly_ops L"
  shows "case mla_layer L (length xs) (map (op_mix_attn P) ys) c of (c', out) \<Rightarrow>
    mla_holds L c' (xs @ ys) \<and>
    out = drop (length xs) (map (mla_ref_row P (map (op_mix_attn P) (xs @ ys))) [0..<length (xs @ ys)]) \<and>
    c_raw_rows c' = c_raw_rows c"
proof -
  let ?o = "nat (ly_mla_ord L)" and ?pos = "length xs" and ?n = "length ys"
  define xa where "xa = map (op_mix_attn P) ys"
  define all where "all = map (op_mix_attn P) (xs @ ys)"
  define raw where "raw = raw_of L (xs @ ys)"
  have xan: "xa ! i = all ! (?pos + i)" if "i < ?n" for i using that by (simp add: xa_def all_def nth_append)
  have raw: "raw q = op_raw P (all ! q)" if "q < ?pos + ?n" for q
    using that unfolding all_def by (subst nth_map) (simp_all add: raw_def raw_of_def P_def)
  have raw0: "\<forall>q < ?pos. raw_of L xs q = raw q" by (simp add: raw_def raw_of_def nth_append)
  define ckv where "ckv = write_rows ?pos (map (op_ckv P) xa) (c_ckv c ?o)"
  obtain ring pool where kp: "kpool_write (c_raw_rows c) (op_pool_key P) ?pos (map (op_raw P) xa)
      [0..<kpool_blocks ?pos ?n] (c_ring c ?o, c_pool c ?o) = (ring, pool)" by fastforce
  have h: "ring_holds (c_raw_rows c) raw ?pos (c_ring c ?o)" "pools_hold (op_pool_key P) raw ?pos (c_pool c ?o)"
    "\<forall>p < ?pos. c_ckv c ?o p = op_ckv P (op_mix_attn P (xs ! p))"
    using hold unfolding mla_holds_def Let_def ring_holds_cong [OF raw0] pools_hold_cong [OF raw0] P_def by blast+
  have rows: "\<forall>i < length (map (op_raw P) xa). map (op_raw P) xa ! i = raw (?pos + i)"
    by (simp add: raw xan xa_def) (simp add: all_def nth_append)
  have l: "length (map (op_raw P) xa) = ?n" "length xa = ?n" by (simp_all add: xa_def)
  have blocks: "{..<kpool_blocks ?pos (length (map (op_raw P) xa))} \<subseteq> set [0..<kpool_blocks ?pos ?n]" by (auto simp: l)
  have r: "ring_holds (c_raw_rows c) raw (?pos + ?n) ring"
    using kpool_write_holds(1) [OF h(1,2) _ rows blocks] len l kp by simp
  have p: "pools_hold (op_pool_key P) raw (?pos + ?n) pool"
    using kpool_write_holds(2) [OF h(1,2) _ rows blocks] len l kp by simp
  have k: "ckv q = op_ckv P (all ! q)" if "q < ?pos + ?n" for q
  proof (cases "q < ?pos")
    case True
    then show ?thesis using h(3) by (simp add: ckv_def write_rows_def all_def nth_append)
  next
    case False
    then have q: "q - ?pos < ?n" "?pos + (q - ?pos) = q" using that by auto
    then show ?thesis using False that xan [OF q(1)] by (simp add: ckv_def write_rows_def l)
  qed
  define out where "out = map (\<lambda>i. op_attend P (xa ! i) (image_mset ckv
      (mset (attended (op_score P (xa ! i)) pool (?pos + i) ((?pos + ?n + 3) div 4))))) [0..<?n]"
  define c' where "c' = c\<lparr>c_ckv := (c_ckv c)(?o := ckv), c_ring := (c_ring c)(?o := ring),
            c_pool := (c_pool c)(?o := pool)\<rparr>"
  have m: "mla_layer L ?pos xa c = (c', out)"
    using kp by (simp add: mla_layer_def Let_def l ckv_def out_def c'_def P_def)
  have hold': "mla_holds L c' (xs @ ys)"
    using r p k unfolding all_def by (simp add: mla_holds_def c'_def raw_def P_def del: map_append)
  have "out = drop ?pos (map (mla_ref_row P all) [0..<?pos + ?n])"
  proof (rule nth_equalityI)
    show "length out = length (drop ?pos (map (mla_ref_row P all) [0..<?pos + ?n]))" by (simp add: out_def)
    fix i assume "i < length out"
    then have i: "i < ?n" by (simp add: out_def)
    define t where "t = ?pos + i"
    let ?ref = "\<lambda>g. op_pool_key P (map (\<lambda>q. op_raw P (all ! q)) [g * POOL..<g * POOL + POOL])"
    have "pool g = ?ref g" if "g < (t + 1) div 4" for g
    proof -
      have g: "g < (?pos + ?n) div POOL" using that i unfolding t_def POOL_def by linarith
      have "map raw [g * POOL..<g * POOL + POOL] = map (\<lambda>q. op_raw P (all ! q)) [g * POOL..<g * POOL + POOL]"
      proof (rule map_cong [OF refl])
        fix q assume "q \<in> set [g * POOL..<g * POOL + POOL]"
        then have "q < g * 4 + 4" by (simp add: POOL_def)
        then have "q < ?pos + ?n" using g unfolding POOL_def by linarith
        then show "raw q = op_raw P (all ! q)" by (rule raw)
      qed
      then have "op_pool_key P (map raw [g * POOL..<g * POOL + POOL]) = ?ref g" by (rule arg_cong)
      moreover have "pool g = op_pool_key P (map raw [g * POOL..<g * POOL + POOL])"
        using p g unfolding pools_hold_def by blast
      ultimately show ?thesis by (rule trans [rotated])
    qed
    then have ref: "attended_ref (op_score P (all ! t)) pool t = attended_ref (op_score P (all ! t)) ?ref t"
      by (intro attended_ref_cong) simp
    have sel: "mset (attended (op_score P (all ! t)) pool t ((?pos + ?n + 3) div 4)) =
        mset (attended_ref (op_score P (all ! t)) ?ref t)"
      unfolding ref [symmetric] by (rule attended_mset) (use i in \<open>auto simp: t_def POOL_def\<close>)
    have "image_mset ckv (mset (attended_ref (op_score P (all ! t)) ?ref t)) =
        image_mset (\<lambda>p. op_ckv P (all ! p)) (mset (attended_ref (op_score P (all ! t)) ?ref t))"
    proof (rule image_mset_cong)
      fix q assume "q \<in># mset (attended_ref (op_score P (all ! t)) ?ref t)"
      then have "q \<le> t" by (intro attended_ref_le) simp
      then show "ckv q = op_ckv P (all ! q)" using i by (intro k) (simp add: t_def)
    qed
    then have "out ! i = mla_ref_row P all t"
      using i sel by (simp add: out_def mla_ref_row_def xan t_def)
    then show "out ! i = drop ?pos (map (mla_ref_row P all) [0..<?pos + ?n]) ! i" using i by (simp add: t_def)
  qed
  with m hold' show ?thesis by (simp add: xa_def all_def c'_def)
qed

text \<open>The state a layer owns, and the layers that do not share it.\<close>

definition ly_slot :: "('v, 'e) Layer \<Rightarrow> AttnKind \<times> nat" where
  "ly_slot L = (ly_kind L, nat (if ly_kind L = KDA then ly_kda_ord L else ly_mla_ord L))"

definition layers_ok :: "nat \<Rightarrow> ('v, 'e) Layer list \<Rightarrow> bool" where
  "layers_ok n_kda Ls \<longleftrightarrow> distinct (map ly_slot Ls) \<and>
     (\<forall>L \<in> set Ls. ly_kind L = KDA \<longrightarrow> 0 \<le> ly_kda_ord L \<and> ly_kda_ord L < int n_kda)"

text \<open>Two caches agree on what layer \<open>L\<close> owns.\<close>

definition same_layer :: "('v, 'e) Layer \<Rightarrow> ('v, 'e) Caches \<Rightarrow> ('v, 'e) Caches \<Rightarrow> bool" where
  "same_layer L c c' \<longleftrightarrow> c_raw_rows c' = c_raw_rows c \<and>
     (if ly_kind L = KDA then c_kda c' (snd (ly_slot L)) = c_kda c (snd (ly_slot L))
      else c_ckv c' (snd (ly_slot L)) = c_ckv c (snd (ly_slot L)) \<and>
           c_ring c' (snd (ly_slot L)) = c_ring c (snd (ly_slot L)) \<and>
           c_pool c' (snd (ly_slot L)) = c_pool c (snd (ly_slot L)))"

lemma same_layer_holds: "same_layer L c c' \<Longrightarrow> layer_holds zero L c xs \<Longrightarrow> layer_holds zero L c' xs"
  by (auto simp: same_layer_def layer_holds_def mla_holds_def ly_slot_def split: if_splits)

lemma same_layer_trans: "same_layer L c c' \<Longrightarrow> same_layer L c' c'' \<Longrightarrow> same_layer L c c''"
  by (auto simp: same_layer_def split: if_splits)

lemma same_layers_hold:
  "\<forall>L \<in> set Ls. same_layer L c c' \<Longrightarrow> caches_hold zero Ls c xs \<Longrightarrow> caches_hold zero Ls c' xs"
  by (induction Ls arbitrary: xs) (auto intro: same_layer_holds)

text \<open>What one step changes outside its own layer: nothing.\<close>

definition same_shape :: "('v, 'e) Caches \<Rightarrow> ('v, 'e) Caches \<Rightarrow> bool" where
  "same_shape c c' \<longleftrightarrow> c_cap c' = c_cap c \<and> c_raw_rows c' = c_raw_rows c \<and> c_n_kda c' = c_n_kda c"

lemma ne_KDA: "k \<noteq> KDA \<longleftrightarrow> k = MLA" "KDA \<noteq> k \<longleftrightarrow> k = MLA"
  by (cases k; simp)+

lemma layer_step_frame:
  "ly_slot L' \<noteq> ly_slot L \<Longrightarrow> same_layer L' c (fst (layer_step L pos xs c))"
  "same_shape c (fst (layer_step L pos xs c))"
  by (auto simp: layer_step_def kda_layer_def mla_layer_def same_layer_def same_shape_def ly_slot_def Let_def ne_KDA
      split: prod.splits if_splits AttnKind.splits)

lemma same_shape_trans: "same_shape c c' \<Longrightarrow> same_shape c' c'' \<Longrightarrow> same_shape c c''"
  by (simp add: same_shape_def)

lemma run_layers_frame:
  "\<forall>L \<in> set Ls. ly_slot L' \<noteq> ly_slot L \<Longrightarrow> same_layer L' c (fst (run_layers Ls pos xs c))"
  "same_shape c (fst (run_layers Ls pos xs c))"
proof (induction Ls arbitrary: xs c)
  case Nil
  { case 1 show ?case by (simp add: same_layer_def) next
    case 2 show ?case by (simp add: same_shape_def) }
next
  case (Cons L Ls)
  { case 1
    obtain c1 ys where s: "layer_step L pos xs c = (c1, ys)" by fastforce
    from 1 have "same_layer L' c c1" using layer_step_frame(1) [of L' L c pos xs] s by simp
    moreover have "same_layer L' c1 (fst (run_layers Ls pos ys c1))" using Cons.IH(1) 1 by simp
    ultimately show ?case using s by (simp add: same_layer_trans)
  next
    case 2
    obtain c1 ys where s: "layer_step L pos xs c = (c1, ys)" by fastforce
    have "same_shape c c1" using layer_step_frame(2) [of c L pos xs] s by simp
    then show ?case using Cons.IH(2) [of c1 ys] s by (simp add: same_shape_trans) }
qed

lemma map2_self: "map2 f zs (map g (map h zs)) = map (\<lambda>s. f s (g (h s))) zs"
  by (induction zs) auto

lemma layer_step_correct:
  assumes hold: "layer_holds zero L c xs" and ys: "ys \<noteq> []" and len: "length ys + 4 \<le> c_raw_rows c"
  shows "layer_holds zero L (fst (layer_step L (length xs) ys c)) (xs @ ys)"
    and "snd (layer_step L (length xs) ys c) = drop (length xs) (layer_ref zero L (xs @ ys))"
proof -
  let ?P = "ly_ops L" and ?xa = "map (op_mix_attn (ly_ops L))"
  obtain c1 ao where a: "(if ly_kind L = KDA then kda_layer L (?xa ys) c else mla_layer L (length xs) (?xa ys) c) = (c1, ao)"
    by fastforce
  have "layer_holds zero L c1 (xs @ ys) \<and> ao = drop (length xs) (attn_ref zero (ly_kind L) ?P (?xa (xs @ ys)))"
  proof (cases "ly_kind L")
    case KDA
    have "kda_scan (op_kda ?P) zero (?xa xs) = (kda_ref_state zero L xs, snd (kda_scan (op_kda ?P) zero (?xa xs)))"
      by (simp add: kda_ref_state_def)
    then show ?thesis
      using a hold KDA
      by (auto simp: kda_layer_def layer_holds_def kda_ref_state_def attn_ref_def kda_scan_append Let_def split_def)
  next
    case MLA
    have "mla_holds L c xs" using hold MLA by (simp add: layer_holds_def)
    from mla_layer_correct [OF this ys len] a MLA show ?thesis
      by (simp add: layer_holds_def attn_ref_def)
  qed
  moreover have "layer_step L (length xs) ys c =
      (c1, map (\<lambda>s. op_apply_ffn ?P s (op_ffn ?P (op_mix_ffn ?P s))) (map2 (op_apply_attn ?P) ys ao))"
    using a by (simp only: layer_step_def Let_def prod.case map2_self)
  ultimately show "layer_holds zero L (fst (layer_step L (length xs) ys c)) (xs @ ys)"
    and "snd (layer_step L (length xs) ys c) = drop (length xs) (layer_ref zero L (xs @ ys))"
    by (simp_all add: layer_ref_def Let_def drop_map drop_zip)
qed

text \<open>A chunk through all layers: the caches come to represent the longer sequence, and the rows that
  come out are those of the reference run.\<close>

lemma run_layers_correct:
  assumes "caches_hold zero Ls c xs" and "distinct (map ly_slot Ls)" and "ys \<noteq> []"
    and "length ys + 4 \<le> c_raw_rows c"
  shows "caches_hold zero Ls (fst (run_layers Ls (length xs) ys c)) (xs @ ys)"
    and "snd (run_layers Ls (length xs) ys c) = drop (length xs) (model_ref zero Ls (xs @ ys))"
  using assms
proof (induction Ls arbitrary: c xs ys)
  case Nil
  { case 1 show ?case by simp next case 2 show ?case by simp }
next
  case (Cons L Ls)
  have both: "caches_hold zero (L # Ls) (fst (run_layers (L # Ls) (length xs) ys c)) (xs @ ys) \<and>
      snd (run_layers (L # Ls) (length xs) ys c) = drop (length xs) (model_ref zero (L # Ls) (xs @ ys))"
    if h: "caches_hold zero (L # Ls) c xs" "distinct (map ly_slot (L # Ls))" "ys \<noteq> []" "length ys + 4 \<le> c_raw_rows c" for c xs ys
  proof -
    obtain c1 zs where s: "layer_step L (length xs) ys c = (c1, zs)" by fastforce
    have L: "layer_holds zero L c1 (xs @ ys)" and zs: "zs = drop (length xs) (layer_ref zero L (xs @ ys))"
      using layer_step_correct [of zero L c xs ys] h s by simp_all
    have "same_layer L' c c1" if "L' \<in> set Ls" for L'
      using layer_step_frame(1) [of L' L c "length xs" ys] h(2) that s by (auto simp: image_iff)
    then have c1: "caches_hold zero Ls c1 (layer_ref zero L xs)" using h(1) by (auto intro: same_layers_hold)
    have r: "c_raw_rows c1 = c_raw_rows c"
      using layer_step_frame(2) [of c L "length xs" ys] s by (simp add: same_shape_def)
    have all: "layer_ref zero L xs @ zs = layer_ref zero L (xs @ ys)" unfolding zs by (rule layer_ref_split [symmetric])
    have "length zs = length ys" by (simp add: zs)
    then have zs': "zs \<noteq> []" "length zs + 4 \<le> c_raw_rows c1" using h r by auto
    have d: "distinct (map ly_slot Ls)" using h(2) by simp
    note ih = Cons.IH(1) [OF c1 d zs', unfolded all length_layer_ref] Cons.IH(2) [OF c1 d zs', unfolded all length_layer_ref]
    have "same_layer L c1 (fst (run_layers Ls (length xs) zs c1))"
      by (rule run_layers_frame(1)) (use h(2) in \<open>auto simp: image_iff\<close>)
    from same_layer_holds [OF this L] ih show ?thesis by (simp add: s)
  qed
  { case 1 then show ?case using both by blast next case 2 then show ?case using both by blast }
qed

section \<open>Saved recurrent states\<close>

definition kda_owned :: "('v, 'e) Layer list \<Rightarrow> nat \<Rightarrow> bool" where
  "kda_owned Ls ord \<longleftrightarrow> (\<exists>L \<in> set Ls. ly_kind L = KDA \<and> 0 \<le> ly_kda_ord L \<and> nat (ly_kda_ord L) = ord)"

lemma kda_save_eq: "kda_save Ls c buf ord = (if kda_owned Ls ord then c_kda c ord else buf ord)"
  by (induction Ls arbitrary: buf) (auto simp: kda_owned_def Let_def)

lemma kda_load_eq:
  "kda_load Ls buf c = c\<lparr>c_kda := (\<lambda>ord. if kda_owned Ls ord then buf ord else c_kda c ord)\<rparr>"
proof (induction Ls arbitrary: c)
  case (Cons L Ls)
  show ?case
  proof (cases "ly_kind L \<noteq> KDA \<or> ly_kda_ord L < 0")
    case True
    then have "kda_owned (L # Ls) = kda_owned Ls" by (auto simp: kda_owned_def fun_eq_iff)
    with True Cons [of c] show ?thesis by simp
  next
    case False
    let ?c = "c\<lparr>c_kda := (c_kda c)(nat (ly_kda_ord L) := buf (nat (ly_kda_ord L)))\<rparr>"
    have "kda_load (L # Ls) buf c = kda_load Ls buf ?c" using False by (simp add: Let_def)
    also have "\<dots> = ?c\<lparr>c_kda := (\<lambda>ord. if kda_owned Ls ord then buf ord else c_kda ?c ord)\<rparr>" by (rule Cons)
    also have "\<dots> = c\<lparr>c_kda := (\<lambda>ord. if kda_owned (L # Ls) ord then buf ord else c_kda c ord)\<rparr>"
    proof -
      have "(\<lambda>ord. if kda_owned Ls ord then buf ord else c_kda ?c ord) =
          (\<lambda>ord. if kda_owned (L # Ls) ord then buf ord else c_kda c ord)"
        by (rule ext) (use False in \<open>auto simp: kda_owned_def\<close>)
      then show ?thesis by simp
    qed
    finally show ?thesis .
  qed
qed (simp add: kda_owned_def)

text \<open>A buffer that holds the states of the reference run on \<open>xs\<close>.\<close>

fun snap_ok :: "'e \<Rightarrow> ('v, 'e) Layer list \<Rightarrow> (nat \<Rightarrow> 'e) \<Rightarrow> 'v list \<Rightarrow> bool" where
  "snap_ok zero [] buf xs \<longleftrightarrow> True"
| "snap_ok zero (L # Ls) buf xs \<longleftrightarrow>
     (ly_kind L = KDA \<longrightarrow> buf (nat (ly_kda_ord L)) = kda_ref_state zero L xs) \<and> snap_ok zero Ls buf (layer_ref zero L xs)"

lemma snap_ok_from_caches:
  assumes "\<forall>L \<in> set Ls. ly_kind L = KDA \<longrightarrow> buf (nat (ly_kda_ord L)) = c_kda c (nat (ly_kda_ord L))"
    and "caches_hold zero Ls c xs"
  shows "snap_ok zero Ls buf xs"
  using assms by (induction Ls arbitrary: xs) (auto simp: layer_holds_def)

lemma kda_save_ok:
  assumes "layers_ok n Ls" and "caches_hold zero Ls c xs"
  shows "snap_ok zero Ls (kda_save Ls c buf) xs"
proof (rule snap_ok_from_caches [OF _ assms(2)], intro ballI impI)
  fix L assume "L \<in> set Ls" "ly_kind L = KDA"
  with assms(1) have "kda_owned Ls (nat (ly_kda_ord L))" by (auto simp: layers_ok_def kda_owned_def)
  then show "kda_save Ls c buf (nat (ly_kda_ord L)) = c_kda c (nat (ly_kda_ord L))" by (simp add: kda_save_eq)
qed

text \<open>The position-addressed planes answer for every aligned prefix: no group is cut.\<close>

lemma group_start_aligned: "4 dvd k \<Longrightarrow> group_start k = k"
  by (simp add: group_start_def POOL_def)

lemma mla_holds_take:
  assumes "mla_holds L c xs" and "k \<le> length xs" and "4 dvd k"
  shows "mla_holds L c (take k xs)"
proof -
  have eq: "\<forall>q < k. raw_of L (take k xs) q = raw_of L xs q" by (simp add: raw_of_def)
  have "k div POOL \<le> length xs div POOL" by (rule div_le_mono [OF assms(2)])
  with assms have "pools_hold (op_pool_key (ly_ops L)) (raw_of L xs) k (c_pool c (nat (ly_mla_ord L)))"
    by (auto simp: mla_holds_def pools_hold_def Let_def)
  moreover have "ring_holds (c_raw_rows c) (raw_of L (take k xs)) k (c_ring c (nat (ly_mla_ord L)))"
    unfolding ring_holds_def group_start_aligned [OF assms(3)] by auto
  ultimately show ?thesis
    using assms(1,2) by (simp add: mla_holds_def Let_def min_absorb2 pools_hold_cong [OF eq])
qed

lemma restore_holds:
  assumes "\<forall>L \<in> set Ls. ly_kind L = KDA \<longrightarrow> c_kda c' (nat (ly_kda_ord L)) = buf (nat (ly_kda_ord L))"
    and "\<forall>L \<in> set Ls. ly_kind L = MLA \<longrightarrow> same_layer L c c'"
    and "caches_hold zero Ls c xs" and "k \<le> length xs" and "4 dvd k" and "snap_ok zero Ls buf (take k xs)"
  shows "caches_hold zero Ls c' (take k xs)"
  using assms
proof (induction Ls arbitrary: xs)
  case (Cons L Ls)
  have "layer_holds zero L c' (take k xs)"
  proof (cases "ly_kind L")
    case KDA
    with Cons.prems show ?thesis by (auto simp: layer_holds_def)
  next
    case MLA
    then have "mla_holds L c (take k xs)" using Cons.prems by (intro mla_holds_take) (auto simp: layer_holds_def)
    then have "layer_holds zero L c (take k xs)" using MLA by (simp add: layer_holds_def)
    then show ?thesis using Cons.prems(2) MLA same_layer_holds by auto
  qed
  moreover have "caches_hold zero Ls c' (take k (layer_ref zero L xs))"
    by (rule Cons.IH) (use Cons.prems in \<open>auto simp: layer_ref_take\<close>)
  ultimately show ?case using Cons.prems(4) by (simp add: layer_ref_take)
qed simp

lemma kda_load_holds:
  assumes ok: "layers_ok n Ls" and c: "caches_hold zero Ls c xs"
    and k: "k \<le> length xs" "4 dvd k" and snap: "snap_ok zero Ls buf (take k xs)"
  shows "caches_hold zero Ls (kda_load Ls buf c) (take k xs)"
proof (rule restore_holds [OF _ _ c k snap], intro ballI impI)
  fix L assume "L \<in> set Ls" "ly_kind L = KDA"
  with ok have "kda_owned Ls (nat (ly_kda_ord L))" by (auto simp: layers_ok_def kda_owned_def)
  then show "c_kda (kda_load Ls buf c) (nat (ly_kda_ord L)) = buf (nat (ly_kda_ord L))" by (simp add: kda_load_eq)
qed (auto simp: same_layer_def kda_load_eq)

text \<open>Clearing the recurrent states starts a fresh sequence; the planes need no clearing.\<close>

definition clear_kda :: "'e \<Rightarrow> ('v, 'e) Caches \<Rightarrow> ('v, 'e) Caches" where
  "clear_kda zero c = c\<lparr>c_kda := (\<lambda>ord. if ord < c_n_kda c then zero else c_kda c ord)\<rparr>"

lemma layer_ref_Nil [simp]: "layer_ref zero L [] = []"
proof -
  have "length (layer_ref zero L []) = 0" by simp
  then show ?thesis by (simp only: length_0_conv)
qed

lemma clear_kda_holds:
  assumes "layers_ok (c_n_kda c) Ls"
  shows "caches_hold zero Ls (clear_kda zero c) []"
proof -
  have "\<forall>L \<in> set Ls. layer_holds zero L (clear_kda zero c) []"
    using assms
    by (auto simp: layer_holds_def clear_kda_def kda_ref_state_def mla_holds_def ring_holds_def pools_hold_def
        layers_ok_def nat_less_iff Let_def)
  then show ?thesis by (induction Ls) auto
qed

text \<open>The numbering of \<open>init\<close> gives every layer its own state.\<close>

lemma assign_ords_slots:
  "L \<in> set (assign_ords a k Ls) \<Longrightarrow>
     (ly_kind L = MLA \<and> a \<le> snd (ly_slot L)) \<or>
     (ly_kind L = KDA \<and> k \<le> snd (ly_slot L) \<and> 0 \<le> ly_kda_ord L \<and>
      ly_kda_ord L < int (k + length (filter (\<lambda>L. ly_kind L = KDA) Ls)))"
proof (induction Ls arbitrary: a k)
  case (Cons L0 Ls)
  show ?case
  proof (cases "ly_kind L0")
    case MLA
    with Cons.prems consider "L = L0\<lparr>ly_mla_ord := int a, ly_kda_ord := -1\<rparr>" | "L \<in> set (assign_ords (Suc a) k Ls)"
      by auto
    then show ?thesis
    proof cases
      case 1
      then show ?thesis using MLA by (simp add: ly_slot_def)
    next
      case 2
      from Cons.IH [OF this] show ?thesis using MLA by auto
    qed
  next
    case KDA
    with Cons.prems consider "L = L0\<lparr>ly_mla_ord := -1, ly_kda_ord := int k\<rparr>" | "L \<in> set (assign_ords a (Suc k) Ls)"
      by auto
    then show ?thesis
    proof cases
      case 1
      then show ?thesis using KDA by (simp add: ly_slot_def)
    next
      case 2
      from Cons.IH [OF this] show ?thesis using KDA by auto
    qed
  qed
qed simp

lemma assign_ords_distinct: "distinct (map ly_slot (assign_ords a k Ls))"
proof (induction Ls arbitrary: a k)
  case (Cons L0 Ls)
  show ?case
  proof (cases "ly_kind L0")
    case MLA
    have "(MLA, a) \<notin> ly_slot ` set (assign_ords (Suc a) k Ls)"
    proof
      assume "(MLA, a) \<in> ly_slot ` set (assign_ords (Suc a) k Ls)"
      then obtain L where "L \<in> set (assign_ords (Suc a) k Ls)" "ly_slot L = (MLA, a)" by fastforce
      with assign_ords_slots [OF this(1)] show False by (auto simp: ly_slot_def)
    qed
    then show ?thesis using MLA Cons by (auto simp: ly_slot_def [of "L0\<lparr>ly_mla_ord := x, ly_kda_ord := y\<rparr>" for x y])
  next
    case KDA
    have "(KDA, k) \<notin> ly_slot ` set (assign_ords a (Suc k) Ls)"
    proof
      assume "(KDA, k) \<in> ly_slot ` set (assign_ords a (Suc k) Ls)"
      then obtain L where "L \<in> set (assign_ords a (Suc k) Ls)" "ly_slot L = (KDA, k)" by fastforce
      with assign_ords_slots [OF this(1)] show False by (auto simp: ly_slot_def)
    qed
    then show ?thesis using KDA Cons by (auto simp: ly_slot_def [of "L0\<lparr>ly_mla_ord := x, ly_kda_ord := y\<rparr>" for x y])
  qed
qed simp

lemma assign_ords_ok:
  assumes "n_kda = length (filter (\<lambda>L. ly_kind L = KDA) Ls)"
  shows "layers_ok n_kda (assign_ords 0 0 Ls)"
  unfolding layers_ok_def using assign_ords_distinct [of 0 0 Ls] assign_ords_slots [of _ 0 0 Ls] assms by fastforce

section \<open>Two small layers\<close>

text \<open>One layer of each kind over rows of halves, for the witnesses.\<close>

definition demo_ops :: "(16 word list, 16 word list) LayerOps" where
  "demo_ops = \<lparr>op_mix_attn = (\<lambda>x. x), op_kda = (\<lambda>e x. (x, e)), op_ckv = (\<lambda>x. x), op_raw = (\<lambda>x. x),
     op_pool_key = concat, op_score = (\<lambda>q k. 0x3c00), op_attend = (\<lambda>x m. x), op_apply_attn = (\<lambda>s a. s @ a),
     op_mix_ffn = (\<lambda>x. x), op_ffn = take 1, op_apply_ffn = (\<lambda>s f. s @ f)\<rparr>"

definition demo_layers :: "(16 word list, 16 word list) Layer list" where
  "demo_layers = [\<lparr>ly_kind = KDA, ly_mla_ord = -1, ly_kda_ord = -1, ly_ops = demo_ops\<rparr>,
     \<lparr>ly_kind = MLA, ly_mla_ord = -1, ly_kda_ord = -1, ly_ops = demo_ops\<rparr>]"

section \<open>Properties\<close>

text \<open>C14: Chunking is invisible: two consecutive chunks through all layers give the same hidden rows as one
  chunk, and leave caches that stand for the same sequence, although the second chunk may start in the
  middle of an indexer group.\<close>

theorem chunking_invisible:
  assumes "caches_hold zero Ls c xs" and "layers_ok n Ls" and "ys \<noteq> []" and "zs \<noteq> []"
    and "length (ys @ zs) + 4 \<le> c_raw_rows c"
    and one: "run_layers Ls (length xs) (ys @ zs) c = (c', out)"
    and half1: "run_layers Ls (length xs) ys c = (c1, out1)"
    and half2: "run_layers Ls (length xs + length ys) zs c1 = (c2, out2)"
  shows "out = out1 @ out2 \<and> caches_hold zero Ls c' (xs @ ys @ zs) \<and> caches_hold zero Ls c2 (xs @ ys @ zs)"
proof (intro conjI)
  have d: "distinct (map ly_slot Ls)" using assms(2) by (simp add: layers_ok_def)
  have ne: "ys @ zs \<noteq> []" and len: "length ys + 4 \<le> c_raw_rows c" using assms(3,5) by simp_all
  note w = run_layers_correct [OF assms(1) d ne assms(5), unfolded one fst_conv snd_conv]
  note a = run_layers_correct [OF assms(1) d assms(3) len, unfolded half1 fst_conv snd_conv]
  have r: "length zs + 4 \<le> c_raw_rows c1"
    using run_layers_frame(2) [of c Ls "length xs" ys, unfolded half1] assms(5) by (simp add: same_shape_def)
  note b = run_layers_correct [OF a(1) d assms(4) r, unfolded length_append half2 fst_conv snd_conv]
  show "caches_hold zero Ls c' (xs @ ys @ zs)" by (rule w(1))
  show "caches_hold zero Ls c2 (xs @ ys @ zs)" using b(1) by simp
  let ?m = "model_ref zero Ls (xs @ ys @ zs)"
  have 1: "out1 = drop (length xs) (take (length xs + length ys) ?m)"
    using model_ref_take [of "length (xs @ ys)" "xs @ ys @ zs" zero Ls] unfolding a(2) by simp
  have 2: "out2 = drop (length xs + length ys) ?m" using b(2) by simp
  have "drop (length xs) ?m = take (length ys) (drop (length xs) ?m) @ drop (length ys) (drop (length xs) ?m)"
    by (rule append_take_drop_id [symmetric])
  then show "out = out1 @ out2" unfolding w(2) 1 2 drop_take drop_drop by (simp add: add.commute)
qed

theorem chunking_invisible_witness:
  "\<exists>c c' out c1 out1 c2 out2.
     run_layers (assign_ords 0 0 demo_layers) 0 [[1], [2], [3]] c = (c', out) \<and>
     run_layers (assign_ords 0 0 demo_layers) 0 [[1]] c = (c1, out1) \<and>
     run_layers (assign_ords 0 0 demo_layers) 1 [[2], [3]] c1 = (c2, out2) \<and> out = out1 @ out2"
proof -
  let ?Ls = "assign_ords 0 0 demo_layers"
  define c :: "(16 word list, 16 word list) Caches" where
    "c = \<lparr>c_cap = 8, c_raw_rows = 16, c_n_kda = 1, c_kda = (\<lambda>i. []), c_ckv = (\<lambda>i p. []), c_ring = (\<lambda>i p. []), c_pool = (\<lambda>i p. [])\<rparr>"
  have ok: "layers_ok (c_n_kda c) ?Ls" by (rule assign_ords_ok) (simp add: c_def demo_layers_def)
  have h: "caches_hold [] ?Ls (clear_kda [] c) []" by (rule clear_kda_holds [OF ok])
  obtain c' out where 1: "run_layers ?Ls (length ([] :: 16 word list list)) ([[1]] @ [[2], [3]]) (clear_kda [] c) = (c', out)" by fastforce
  obtain c1 out1 where 2: "run_layers ?Ls (length ([] :: 16 word list list)) [[1]] (clear_kda [] c) = (c1, out1)" by fastforce
  obtain c2 out2 where 3: "run_layers ?Ls (length ([] :: 16 word list list) + length [[1 :: 16 word]]) [[2], [3]] c1 = (c2, out2)" by fastforce
  have "length ([[1]] @ [[2], [3 :: 16 word]]) + 4 \<le> c_raw_rows (clear_kda [] c)" by (simp add: clear_kda_def c_def)
  from chunking_invisible [THEN conjunct1, OF h ok _ _ this 1 2 3] 1 2 3
  show ?thesis by (intro exI [of _ "clear_kda [] c"] exI [of _ c'] exI [of _ out] exI [of _ c1] exI [of _ out1]
    exI [of _ c2] exI [of _ out2]) simp
qed

end
