(* ===== verification/Runner.thy ===== *)
theory Runner
  imports Complex_Main Layers Vision Prefix_Policy Sampler
begin

text \<open>
  The runner, \<^verbatim>\<open>src/engine/runner.cpp\<close>: the chunk driver, prefill and decode, the snapshot ring of
  recurrent states with its asynchronous host copies, the cross-request prefix cache and the
  generation loop.  The state is the record \<open>Runner\<close>; the caches are those of theory Layers.
  Positions and row counts are natural numbers, converted to \<^verbatim>\<open>int\<close> where the code compares signed
  values.  The layer-major prefill (environment variable \<^verbatim>\<open>HELIOS_LAYER_MAJOR\<close>) is a definition of its own
  at the end.
\<close>

section \<open>State\<close>

text \<open>What the runner computes with: the layers, the row functions at both ends of the model and the
  configuration.\<close>

record ('v, 'e, 'f) Engine =
  en_layers :: "('v, 'e) Layer list"
  en_zero :: 'e
  en_embed :: "token \<Rightarrow> hidden_row"
  en_expand :: "hidden_row \<Rightarrow> 'v"
  en_mean :: "'v \<Rightarrow> hidden_row"
  en_head :: "hidden_row \<Rightarrow> 'f list"
  en_exp :: "'f \<Rightarrow> 'f"
  en_hidden :: int
  en_max_chunk :: nat
  en_eos :: token

record ('v, 'e, 'f) Runner =
  rn_caches :: "('v, 'e) Caches"
  rn_xh :: "nat \<Rightarrow> hidden_row"
  rn_logits :: "'f list"
  rn_pos :: nat
  rn_hist :: "token list"
  rn_images :: "ImageEmbedding list option"
  rn_cached_images :: "ImageEmbedding list"
  rn_snap_host :: "nat \<Rightarrow> nat \<Rightarrow> 'e"
  rn_snap_stage :: "nat \<Rightarrow> 'e"
  rn_snap_flight :: "nat option"
  rn_snap_pos :: "int list"
  rn_n_snaps :: nat
  rn_snap_next :: nat
  rn_snap_last :: int
  rn_snap_interval :: int
  rn_resume :: nat
  rn_reuse_total :: int
  rn_prefix_reqs :: int
  rn_prefill_tokens :: nat
  rn_decode_tokens :: nat

section \<open>The snapshot ring\<close>

text \<open>A capture copies the state into the staging buffer and starts an asynchronous copy into a host
  slot; \<open>rn_snap_flight\<close> is the slot of the copy still in flight, which \<^verbatim>\<open>snap_drain\<close> completes.\<close>

definition snap_drain :: "('v, 'e, 'f) Runner \<Rightarrow> ('v, 'e, 'f) Runner" where
  "snap_drain r =
     (case rn_snap_flight r of
        None \<Rightarrow> r
      | Some slot \<Rightarrow> r\<lparr>rn_snap_host := (rn_snap_host r)(slot := rn_snap_stage r), rn_snap_flight := None\<rparr>)"

definition snap_capture :: "('v, 'e, 'f) Engine \<Rightarrow> int \<Rightarrow> ('v, 'e, 'f) Runner \<Rightarrow> ('v, 'e, 'f) Runner" where
  "snap_capture E pos r =
     (if rn_n_snaps r = 0 \<or> pos mod POOL_TOKENS \<noteq> 0 then r
      else let r = snap_drain r;
               r = r\<lparr>rn_snap_stage := kda_save (en_layers E) (rn_caches r) (rn_snap_stage r)\<rparr>;
               r = r\<lparr>rn_snap_flight := Some (rn_snap_next r)\<rparr>
           in r\<lparr>rn_snap_pos := (rn_snap_pos r)[rn_snap_next r := pos],
                rn_snap_last := (if pos > rn_snap_last r then pos else rn_snap_last r),
                rn_snap_next := (rn_snap_next r + 1) mod rn_n_snaps r\<rparr>)"

definition snap_restore :: "('v, 'e, 'f) Engine \<Rightarrow> nat \<Rightarrow> ('v, 'e, 'f) Runner \<Rightarrow> ('v, 'e, 'f) Runner" where
  "snap_restore E slot r =
     (let r = snap_drain r
      in r\<lparr>rn_caches := kda_load (en_layers E) (rn_snap_host r slot) (rn_caches r)\<rparr>)"

definition reset :: "('v, 'e, 'f) Engine \<Rightarrow> ('v, 'e, 'f) Runner \<Rightarrow> ('v, 'e, 'f) Runner" where
  "reset E r =
     (let r = snap_drain r
      in r\<lparr>rn_snap_pos := replicate (length (rn_snap_pos r)) (-1), rn_snap_next := 0, rn_snap_last := 0,
           rn_pos := 0, rn_hist := [], rn_cached_images := [],
           rn_caches := clear_kda (en_zero E) (rn_caches r),
           rn_prefill_tokens := 0, rn_decode_tokens := 0\<rparr>)"

text \<open>The number of snapshots \<^verbatim>\<open>init\<close> reserves for a byte budget (when the pinned allocation succeeds).\<close>

definition kda_state_bytes :: nat where
  "kda_state_bytes = 24576 * 4 * 2 + 64 * 128 * 128 * 4"

definition snapshot_count :: "nat \<Rightarrow> nat \<Rightarrow> nat" where
  "snapshot_count budget n_kda =
     (let stride = kda_state_bytes * n_kda;
          want = budget div (if stride \<noteq> 0 then stride else 1)
      in if want > 64 then 64 else want)"

definition prefix_config :: "int \<Rightarrow> int \<Rightarrow> int" where
  "prefix_config interval old = (if interval > 0 then interval else old)"

section \<open>Resuming\<close>

text \<open>\<^verbatim>\<open>std::vector::resize\<close> of the token history.\<close>

definition vec_resize :: "nat \<Rightarrow> token list \<Rightarrow> token list" where
  "vec_resize k xs = take k xs @ replicate (k - length xs) 0"

definition prefix_begin ::
  "('v, 'e, 'f) Engine \<Rightarrow> token list \<Rightarrow> int \<Rightarrow> ('v, 'e, 'f) Runner \<Rightarrow> ('v, 'e, 'f) Runner" where
  "prefix_begin E prompt reuse_limit r =
     (let pl = prefix_plan (rn_hist r) (int (rn_pos r)) prompt (rn_snap_pos r) reuse_limit;
          r = (if pl_extend pl then r\<lparr>rn_resume := nat (pl_resume pl)\<rparr>
               else if pl_slot pl \<ge> 0
               then (snap_restore E (nat (pl_slot pl)) r)\<lparr>rn_resume := nat (pl_resume pl)\<rparr>
               else (reset E r)\<lparr>rn_resume := 0\<rparr>);
          r = (if rn_resume r > c_cap (rn_caches r) then (reset E r)\<lparr>rn_resume := 0\<rparr> else r);
          (snap_pos, snap_last) = prefix_discard_suffix (rn_snap_pos r) (int (rn_resume r))
      in r\<lparr>rn_snap_pos := snap_pos, rn_snap_last := snap_last, rn_pos := rn_resume r,
           rn_hist := vec_resize (rn_resume r) (rn_hist r), rn_prefix_reqs := rn_prefix_reqs r + 1,
           rn_reuse_total := rn_reuse_total r + int (rn_resume r)\<rparr>)"

section \<open>Chunks, prefill and decode\<close>

definition run_chunk :: "('v, 'e, 'f) Engine \<Rightarrow> token list \<Rightarrow> ('v, 'e, 'f) Runner \<Rightarrow> ('v, 'e, 'f) Runner" where
  "run_chunk E ids r =
     (let cap = c_cap (rn_caches r); pos = rn_pos r
      in if pos \<ge> cap then r
         else let n = (if pos + length ids > cap then cap - pos else length ids);
                  xh = map (en_embed E) (take n ids);
                  xh = (case rn_images r of None \<Rightarrow> xh | Some images \<Rightarrow> inject_images images (int pos) xh);
                  streams = map (en_expand E) xh;
                  (c, streams) = run_layers (en_layers E) pos streams (rn_caches r)
              in r\<lparr>rn_caches := c, rn_xh := write_rows 0 (map (en_mean E) streams) (rn_xh r)\<rparr>)"

definition final_head :: "('v, 'e, 'f) Engine \<Rightarrow> nat \<Rightarrow> ('v, 'e, 'f) Runner \<Rightarrow> ('v, 'e, 'f) Runner" where
  "final_head E n r = r\<lparr>rn_logits := en_head E (rn_xh r (if n > 0 then n - 1 else 0))\<rparr>"

text \<open>The next chunk: at most \<^verbatim>\<open>max_chunk_\<close> rows, cut at the periodic checkpoint and at the checkpoint
  before the prompt end when one lies inside.\<close>

definition cut_at :: "nat \<Rightarrow> int \<Rightarrow> nat \<Rightarrow> nat" where
  "cut_at pos checkpoint chunk =
     (if checkpoint > int pos \<and> checkpoint < int pos + int chunk then nat (checkpoint - int pos) else chunk)"

definition chunk_len :: "('v, 'e, 'f) Engine \<Rightarrow> nat \<Rightarrow> int \<Rightarrow> nat \<Rightarrow> ('v, 'e, 'f) Runner \<Rightarrow> nat" where
  "chunk_len E n tail_checkpoint done0 r =
     (let chunk0 = min (en_max_chunk E) (n - done0)
      in if rn_n_snaps r > 0
         then let interval_checkpoint = (rn_snap_last r + rn_snap_interval r + POOL_TOKENS - 1) div POOL_TOKENS * POOL_TOKENS
              in cut_at (rn_pos r) tail_checkpoint (cut_at (rn_pos r) interval_checkpoint chunk0)
         else chunk0)"

definition prefill_step ::
  "('v, 'e, 'f) Engine \<Rightarrow> token list \<Rightarrow> int \<Rightarrow> ('v, 'e, 'f) Runner \<Rightarrow> ('v, 'e, 'f) Runner" where
  "prefill_step E chunk tail_checkpoint r =
     (let r = run_chunk E chunk r;
          r = r\<lparr>rn_pos := rn_pos r + length chunk, rn_hist := rn_hist r @ chunk\<rparr>
      in if rn_n_snaps r > 0 \<and>
            (int (rn_pos r) - rn_snap_last r \<ge> rn_snap_interval r \<or> int (rn_pos r) = tail_checkpoint)
         then snap_capture E (int (rn_pos r)) r else r)"

text \<open>The chunk loop.  \<open>None\<close> is a loop that never ends (a chunk size of zero).\<close>

partial_function (option) prefill_loop ::
  "('v, 'e, 'f) Engine \<Rightarrow> token list \<Rightarrow> nat \<Rightarrow> int \<Rightarrow> nat \<Rightarrow> nat \<Rightarrow> ('v, 'e, 'f) Runner \<Rightarrow>
   (nat \<times> ('v, 'e, 'f) Runner) option" where
  "prefill_loop E ids n tail_checkpoint done0 last0 r =
     (if done0 < n
      then prefill_loop E ids n tail_checkpoint
             (done0 + chunk_len E n tail_checkpoint done0 r)
             (chunk_len E n tail_checkpoint done0 r)
             (prefill_step E (take (chunk_len E n tail_checkpoint done0 r) (drop done0 ids)) tail_checkpoint r)
      else Some (last0, r))"

definition prefill :: "('v, 'e, 'f) Engine \<Rightarrow> token list \<Rightarrow> ('v, 'e, 'f) Runner \<Rightarrow> ('v, 'e, 'f) Runner option" where
  "prefill E ids r =
     (let r = r\<lparr>rn_hist := vec_resize (rn_pos r) (rn_hist r)\<rparr>;
          cap = c_cap (rn_caches r)
      in if rn_pos r \<ge> cap then Some r
         else let n = (if rn_pos r + length ids > cap then cap - rn_pos r else length ids);
                  tail_checkpoint = prefix_checkpoint_before (int (rn_pos r) + int n)
              in case prefill_loop E ids n tail_checkpoint 0 0 r of
                   None \<Rightarrow> None
                 | Some (last0, r) \<Rightarrow>
                     let r = final_head E last0 r
                     in Some (r\<lparr>rn_prefill_tokens := rn_prefill_tokens r + n\<rparr>))"

definition decode :: "('v, 'e, 'f) Engine \<Rightarrow> token list \<Rightarrow> ('v, 'e, 'f) Runner \<Rightarrow> ('v, 'e, 'f) Runner" where
  "decode E ids r =
     (let n = length ids;
          r = run_chunk E ids r;
          r = r\<lparr>rn_pos := rn_pos r + n, rn_hist := rn_hist r @ ids\<rparr>;
          r = final_head E n r
      in r\<lparr>rn_decode_tokens := rn_decode_tokens r + n\<rparr>)"

section \<open>Generation\<close>

definition image_valid :: "int \<Rightarrow> nat \<Rightarrow> ImageEmbedding \<Rightarrow> bool" where
  "image_valid hidden prompt_len im \<longleftrightarrow>
     \<not> (im_start im < 0 \<or> im_rows im \<le> 0 \<or> im_hidden im \<noteq> hidden \<or>
        im_start im + im_rows im > int prompt_len \<or>
        int (length (im_values im)) \<noteq> im_rows im * im_hidden im)"

text \<open>The loop over \<^verbatim>\<open>p.max_tokens\<close>; \<open>k\<close> counts the remaining iterations.\<close>

fun gen_loop ::
  "('v, 'e, 'f :: linordered_field) Engine \<Rightarrow> 'f GenParams \<Rightarrow> (token list \<Rightarrow> bool) \<Rightarrow> nat \<Rightarrow> token list \<Rightarrow> token list \<Rightarrow>
   rng \<Rightarrow> ('v, 'e, 'f) Runner \<Rightarrow> token list \<times> ('v, 'e, 'f) Runner" where
  "gen_loop E p on_token 0 out recent st r = (out, r)"
| "gen_loop E p on_token (Suc k) out recent st r =
     (if rn_pos r \<ge> c_cap (rn_caches r) then (out, r)
      else let (i, st) = sample (en_exp E) (rn_logits r) p recent st;
               tok = int i
           in if tok = en_eos E \<and> \<not> ignore_eos p then (out, r)
              else let out = out @ [tok]; recent = recent @ [tok]
                   in if \<not> on_token out then (out, r)
                      else if int (length out) \<ge> max_tokens p then (out, r)
                      else gen_loop E p on_token k out recent st (decode E [tok] r))"

datatype gen_error = ImagesDoNotMatch

definition generate ::
  "('v, 'e, 'f :: linordered_field) Engine \<Rightarrow> 'f GenParams \<Rightarrow> (token list \<Rightarrow> bool) \<Rightarrow> token list \<Rightarrow> ImageEmbedding list \<Rightarrow>
   ('v, 'e, 'f) Runner \<Rightarrow> ((gen_error + token list) \<times> ('v, 'e, 'f) Runner) option" where
  "generate E p on_token prompt images r =
     (if prompt = [] then Some (Inr [], r)
      else if \<not> list_all (image_valid (en_hidden E) (length prompt)) images then Some (Inl ImagesDoNotMatch, r)
      else let reuse_limit = image_prefix_limit (rn_cached_images r) images;
               r = r\<lparr>rn_images := Some images\<rparr>;
               r = prefix_begin E prompt reuse_limit r;
               start = rn_resume r;
               r = r\<lparr>rn_cached_images := images\<rparr>
           in case (if start < length prompt then prefill E (drop start prompt) r else Some r) of
                None \<Rightarrow> None
              | Some r \<Rightarrow>
                  let st = sampler_reset (if seed p \<noteq> 0 then seed p else 1234);
                      (out, r) = gen_loop E p on_token (nat (max_tokens p)) [] prompt st r
                  in Some (Inr out, r\<lparr>rn_images := None\<rparr>))"

section \<open>What the runner's state stands for\<close>

text \<open>The input rows of a token sequence with the images of its request, and the row of logits that
  follows it: functions of the tokens alone.\<close>

definition rows_of :: "('v, 'e, 'f) Engine \<Rightarrow> ImageEmbedding list \<Rightarrow> token list \<Rightarrow> 'v list" where
  "rows_of E images ts =
     map (\<lambda>i. en_expand E (input_row images (int i) (en_embed E (ts ! i)))) [0..<length ts]"

definition hidden_after :: "('v, 'e, 'f) Engine \<Rightarrow> ImageEmbedding list \<Rightarrow> token list \<Rightarrow> hidden_row" where
  "hidden_after E images ts = en_mean E (last (model_ref (en_zero E) (en_layers E) (rows_of E images ts)))"

definition logits_after :: "('v, 'e, 'f) Engine \<Rightarrow> ImageEmbedding list \<Rightarrow> token list \<Rightarrow> 'f list" where
  "logits_after E images ts = en_head E (hidden_after E images ts)"

text \<open>The content of a host slot once the copy in flight has landed.\<close>

definition host_now :: "('v, 'e, 'f) Runner \<Rightarrow> nat \<Rightarrow> nat \<Rightarrow> 'e" where
  "host_now r i = (if rn_snap_flight r = Some i then rn_snap_stage r else rn_snap_host r i)"

definition engine_ok :: "('v, 'e, 'f) Engine \<Rightarrow> ('v, 'e, 'f) Runner \<Rightarrow> bool" where
  "engine_ok E r \<longleftrightarrow> layers_ok (c_n_kda (rn_caches r)) (en_layers E) \<and>
     en_max_chunk E + 4 \<le> c_raw_rows (rn_caches r) \<and> 5 \<le> c_raw_rows (rn_caches r)"

definition holds :: "('v, 'e, 'f) Engine \<Rightarrow> ImageEmbedding list \<Rightarrow> ('v, 'e, 'f) Runner \<Rightarrow> bool" where
  "holds E images r \<longleftrightarrow> rn_pos r = length (rn_hist r) \<and> rn_pos r \<le> c_cap (rn_caches r) \<and>
     caches_hold (en_zero E) (en_layers E) (rn_caches r) (rows_of E images (rn_hist r))"

definition slot_ok :: "('v, 'e, 'f) Engine \<Rightarrow> ImageEmbedding list \<Rightarrow> ('v, 'e, 'f) Runner \<Rightarrow> nat \<Rightarrow> int \<Rightarrow> bool" where
  "slot_ok E images r i p \<longleftrightarrow> p = -1 \<or>
     (0 \<le> p \<and> p \<le> int (rn_pos r) \<and> p mod 4 = 0 \<and>
      snap_ok (en_zero E) (en_layers E) (host_now r i) (take (nat p) (rows_of E images (rn_hist r))))"

definition snaps_ok :: "('v, 'e, 'f) Engine \<Rightarrow> ImageEmbedding list \<Rightarrow> ('v, 'e, 'f) Runner \<Rightarrow> bool" where
  "snaps_ok E images r \<longleftrightarrow> length (rn_snap_pos r) = rn_n_snaps r \<and>
     (rn_n_snaps r > 0 \<longrightarrow> rn_snap_next r < rn_n_snaps r) \<and>
     (\<forall>i < rn_n_snaps r. slot_ok E images r i (rn_snap_pos r ! i))"

definition runner_ok :: "('v, 'e, 'f) Engine \<Rightarrow> ('v, 'e, 'f) Runner \<Rightarrow> bool" where
  "runner_ok E r \<longleftrightarrow> engine_ok E r \<and> holds E (rn_cached_images r) r \<and> snaps_ok E (rn_cached_images r) r \<and>
     images_disjoint (rn_cached_images r) \<and> (\<forall>im \<in> set (rn_cached_images r). 0 \<le> im_start im)"

lemma host_now_fields [simp]:
  "host_now (r\<lparr>rn_pos := x\<rparr>) = host_now r" "host_now (r\<lparr>rn_hist := h\<rparr>) = host_now r"
  "host_now (r\<lparr>rn_images := im\<rparr>) = host_now r" "host_now (r\<lparr>rn_cached_images := ims\<rparr>) = host_now r"
  "host_now (r\<lparr>rn_logits := l\<rparr>) = host_now r" "host_now (r\<lparr>rn_caches := c\<rparr>) = host_now r"
  "host_now (r\<lparr>rn_resume := k\<rparr>) = host_now r" "host_now (r\<lparr>rn_prefill_tokens := k\<rparr>) = host_now r"
  "host_now (r\<lparr>rn_decode_tokens := k\<rparr>) = host_now r"
  by (simp_all add: host_now_def fun_eq_iff)

lemma length_rows_of [simp]: "length (rows_of E images ts) = length ts"
  by (simp add: rows_of_def)

lemma rows_of_append:
  "rows_of E images (ts @ us) = rows_of E images ts @
     map (en_expand E) (inject_images images (int (length ts)) (map (en_embed E) us))"
  by (rule nth_equalityI) (auto simp: rows_of_def nth_append inject_images_eq)

lemma rows_of_take: "k \<le> length ts \<Longrightarrow> rows_of E images (take k ts) = take k (rows_of E images ts)"
  by (rule nth_equalityI) (auto simp: rows_of_def)

lemma take_rows_of_append:
  "k \<le> length ts \<Longrightarrow> take k (rows_of E images (ts @ us)) = take k (rows_of E images ts)"
  by (simp add: rows_of_append)

section \<open>The snapshot ring is faithful\<close>

lemma host_now_drain [simp]: "rn_snap_flight (snap_drain r) = None" "rn_snap_host (snap_drain r) = host_now r"
  by (auto simp: snap_drain_def host_now_def fun_eq_iff split: option.splits)

lemma drain_fields [simp]:
  "rn_caches (snap_drain r) = rn_caches r" "rn_pos (snap_drain r) = rn_pos r" "rn_hist (snap_drain r) = rn_hist r"
  "rn_images (snap_drain r) = rn_images r" "rn_cached_images (snap_drain r) = rn_cached_images r"
  "rn_snap_pos (snap_drain r) = rn_snap_pos r" "rn_n_snaps (snap_drain r) = rn_n_snaps r"
  "rn_snap_next (snap_drain r) = rn_snap_next r" "rn_snap_last (snap_drain r) = rn_snap_last r"
  "rn_snap_interval (snap_drain r) = rn_snap_interval r" "rn_xh (snap_drain r) = rn_xh r"
  "rn_logits (snap_drain r) = rn_logits r" "host_now (snap_drain r) = host_now r"
  by (auto simp: snap_drain_def host_now_def fun_eq_iff split: option.splits)

lemma capture_fields [simp]:
  "rn_caches (snap_capture E p r) = rn_caches r" "rn_pos (snap_capture E p r) = rn_pos r"
  "rn_hist (snap_capture E p r) = rn_hist r" "rn_images (snap_capture E p r) = rn_images r"
  "rn_cached_images (snap_capture E p r) = rn_cached_images r" "rn_n_snaps (snap_capture E p r) = rn_n_snaps r"
  "rn_xh (snap_capture E p r) = rn_xh r" "rn_snap_interval (snap_capture E p r) = rn_snap_interval r"
  by (auto simp: snap_capture_def Let_def)

lemma snap_capture_ok:
  assumes snaps: "snaps_ok E images r" and h: "holds E images r" and e: "engine_ok E r"
  shows "snaps_ok E images (snap_capture E (int (rn_pos r)) r)"
proof (cases "rn_n_snaps r = 0 \<or> int (rn_pos r) mod POOL_TOKENS \<noteq> 0")
  case True
  then have "snap_capture E (int (rn_pos r)) r = r" by (simp add: snap_capture_def)
  with snaps show ?thesis by simp
next
  case False
  let ?r = "snap_capture E (int (rn_pos r)) r" and ?buf = "kda_save (en_layers E) (rn_caches r) (rn_snap_stage (snap_drain r))"
  have f: "rn_snap_pos ?r = (rn_snap_pos r)[rn_snap_next r := int (rn_pos r)]"
    "host_now ?r = (host_now r)(rn_snap_next r := ?buf)"
    "rn_snap_next ?r = (rn_snap_next r + 1) mod rn_n_snaps r"
    using False by (auto simp: snap_capture_def Let_def host_now_def [of "r\<lparr>rn_snap_flight := x\<rparr>" for r x] fun_eq_iff)
      (auto simp: host_now_def)
  have buf: "snap_ok (en_zero E) (en_layers E) ?buf (rows_of E images (rn_hist r))"
    using kda_save_ok e h by (auto simp: engine_ok_def holds_def)
  have "rn_n_snaps r > 0" using False by simp
  moreover have "slot_ok E images ?r i (rn_snap_pos ?r ! i)" if i: "i < rn_n_snaps r" for i
  proof (cases "i = rn_snap_next r")
    case True
    then have p: "rn_snap_pos ?r ! i = int (rn_pos r)" "host_now ?r i = ?buf"
      using snaps i by (simp_all add: f snaps_ok_def)
    have "take (rn_pos r) (rows_of E images (rn_hist r)) = rows_of E images (rn_hist r)"
      using h by (simp add: holds_def)
    with False buf show ?thesis unfolding slot_ok_def p by (simp add: POOL_TOKENS_def)
  next
    case ne: False
    have "slot_ok E images r i (rn_snap_pos r ! i)" using snaps i by (simp add: snaps_ok_def)
    with ne show ?thesis by (simp add: slot_ok_def f)
  qed
  ultimately show ?thesis using snaps by (simp add: snaps_ok_def f(1,3))
qed

section \<open>One chunk\<close>

lemma run_chunk_fields [simp]:
  "rn_pos (run_chunk E ids r) = rn_pos r" "rn_hist (run_chunk E ids r) = rn_hist r"
  "rn_images (run_chunk E ids r) = rn_images r" "rn_cached_images (run_chunk E ids r) = rn_cached_images r"
  "rn_snap_pos (run_chunk E ids r) = rn_snap_pos r" "rn_n_snaps (run_chunk E ids r) = rn_n_snaps r"
  "rn_snap_next (run_chunk E ids r) = rn_snap_next r" "rn_snap_last (run_chunk E ids r) = rn_snap_last r"
  "rn_snap_interval (run_chunk E ids r) = rn_snap_interval r" "host_now (run_chunk E ids r) = host_now r"
  "rn_resume (run_chunk E ids r) = rn_resume r"
  by (auto simp: run_chunk_def Let_def host_now_def fun_eq_iff split: prod.splits)

lemma run_chunk_shape: "same_shape (rn_caches r) (rn_caches (run_chunk E ids r))"
proof -
  have "same_shape (rn_caches r) c" if "run_layers Ls pos xs (rn_caches r) = (c, ys)" for Ls pos xs c ys
    using run_layers_frame(2) [of "rn_caches r" Ls pos xs] that by simp
  then show ?thesis by (auto simp: run_chunk_def Let_def same_shape_def split: prod.splits) 
qed

text \<open>The central step: a chunk of the right size extends the represented sequence and leaves the
  hidden rows of the reference run in the buffer.\<close>

lemma run_chunk_correct:
  assumes h: "holds E images r" and e: "engine_ok E r" and im: "rn_images r = Some images"
    and ids: "ids \<noteq> []" "length ids + 4 \<le> c_raw_rows (rn_caches r)" "rn_pos r + length ids \<le> c_cap (rn_caches r)"
  defines "r' \<equiv> run_chunk E ids r"
  shows "caches_hold (en_zero E) (en_layers E) (rn_caches r') (rows_of E images (rn_hist r @ ids))"
    and "rn_xh r' (length ids - 1) = hidden_after E images (rn_hist r @ ids)"
proof -
  define ys where "ys = map (en_expand E) (inject_images images (int (rn_pos r)) (map (en_embed E) ids))"
  define xs where "xs = rows_of E images (rn_hist r)"
  have ys: "ys \<noteq> []" "length ys = length ids" using ids(1) by (auto simp: ys_def simp flip: length_greater_0_conv)
  have pos: "rn_pos r = length xs" using h by (simp add: holds_def xs_def)
  obtain c out where run: "run_layers (en_layers E) (length xs) ys (rn_caches r) = (c, out)" by fastforce
  have "\<not> rn_pos r \<ge> c_cap (rn_caches r)" "\<not> rn_pos r + length ids > c_cap (rn_caches r)" using ids by (cases ids; auto)+
  then have r': "r' = r\<lparr>rn_caches := c, rn_xh := write_rows 0 (map (en_mean E) out) (rn_xh r)\<rparr>"
    using run unfolding r'_def run_chunk_def Let_def by (simp add: im ys_def pos)
  have ch: "caches_hold (en_zero E) (en_layers E) (rn_caches r) xs" using h by (simp add: holds_def xs_def)
  have d: "distinct (map ly_slot (en_layers E))" using e by (simp add: engine_ok_def layers_ok_def)
  have len: "length ys + 4 \<le> c_raw_rows (rn_caches r)" using ids(2) ys by simp
  have all: "xs @ ys = rows_of E images (rn_hist r @ ids)"
    using h by (simp add: rows_of_append xs_def ys_def holds_def)
  note c = run_layers_correct [OF ch d ys(1) len, unfolded run fst_conv snd_conv all]
  show "caches_hold (en_zero E) (en_layers E) (rn_caches r') (rows_of E images (rn_hist r @ ids))"
    using c(1) by (simp add: r')
  have lo: "length out = length ids" unfolding c(2) by (simp add: xs_def)
  have "out \<noteq> []" using lo ids(1) by auto
  then have "out ! (length ids - 1) = last out" using lo by (simp add: last_conv_nth)
  also have "\<dots> = last (model_ref (en_zero E) (en_layers E) (rows_of E images (rn_hist r @ ids)))"
    using \<open>out \<noteq> []\<close> unfolding c(2) by (simp add: last_drop)
  finally have "en_mean E (out ! (length ids - 1)) = hidden_after E images (rn_hist r @ ids)"
    by (simp add: hidden_after_def)
  then show "rn_xh r' (length ids - 1) = hidden_after E images (rn_hist r @ ids)"
    using lo ids(1) by (simp add: r' write_rows_def)
qed

section \<open>Prefill\<close>

text \<open>What every step of the chunk loop keeps: the sequence grows, the caches and the snapshots follow.\<close>

definition same_config :: "('v, 'e, 'f) Runner \<Rightarrow> ('v, 'e, 'f) Runner \<Rightarrow> bool" where
  "same_config r r' \<longleftrightarrow> same_shape (rn_caches r) (rn_caches r') \<and> rn_images r' = rn_images r \<and>
     rn_cached_images r' = rn_cached_images r \<and> rn_n_snaps r' = rn_n_snaps r"

lemma same_config_trans: "same_config r r' \<Longrightarrow> same_config r' r'' \<Longrightarrow> same_config r r''"
  by (auto simp: same_config_def intro: same_shape_trans)

lemma same_config_refl [simp]: "same_config r r"
  by (simp add: same_config_def same_shape_def)

lemma engine_ok_config: "same_config r r' \<Longrightarrow> engine_ok E r' \<longleftrightarrow> engine_ok E r"
  by (simp add: same_config_def same_shape_def engine_ok_def)

text \<open>Snapshots stay valid while the sequence grows.\<close>

lemma snaps_ok_grow:
  assumes "snaps_ok E images r" and "rn_pos r = length (rn_hist r)"
    and "rn_snap_pos r' = rn_snap_pos r" "rn_n_snaps r' = rn_n_snaps r" "rn_snap_next r' = rn_snap_next r"
    "host_now r' = host_now r" "rn_pos r \<le> rn_pos r'" "rn_hist r' = rn_hist r @ us"
  shows "snaps_ok E images r'"
proof -
  have "slot_ok E images r' i p" if "slot_ok E images r i p" for i p
  proof (cases "p = -1")
    case False
    with that assms(2) have "0 \<le> p" "p \<le> int (length (rn_hist r))" by (simp_all add: slot_ok_def)
    then have "nat p \<le> length (rn_hist r)" by linarith
    from take_rows_of_append [OF this, of E images us] that False assms show ?thesis
      by (auto simp: slot_ok_def)
  qed (simp add: slot_ok_def)
  then show ?thesis using assms by (simp add: snaps_ok_def)
qed

lemma prefill_step_correct:
  fixes tail :: int
  assumes h: "holds E images r" and e: "engine_ok E r" and s: "snaps_ok E images r" and im: "rn_images r = Some images"
    and ids: "ids \<noteq> []" "length ids + 4 \<le> c_raw_rows (rn_caches r)" "rn_pos r + length ids \<le> c_cap (rn_caches r)"
  defines "r' \<equiv> prefill_step E ids tail r"
  shows "holds E images r'" and "snaps_ok E images r'" and "same_config r r'"
    and "rn_hist r' = rn_hist r @ ids" and "rn_xh r' (length ids - 1) = hidden_after E images (rn_hist r @ ids)"
proof -
  define r1 where "r1 = run_chunk E ids r"
  define r2 where "r2 = r1\<lparr>rn_pos := rn_pos r1 + length ids, rn_hist := rn_hist r1 @ ids\<rparr>"
  note c = run_chunk_correct [OF h e im ids, folded r1_def]
  have shape: "same_shape (rn_caches r) (rn_caches r1)" unfolding r1_def by (rule run_chunk_shape)
  have pos: "rn_pos r = length (rn_hist r)" using h by (simp add: holds_def)
  have cfg: "same_config r r2" using shape by (simp add: same_config_def r2_def) (simp add: r1_def)
  have h2: "holds E images r2"
    using c(1) pos ids(3) shape by (simp add: holds_def r2_def same_shape_def) (simp add: r1_def)
  have s2: "snaps_ok E images r2"
    by (rule snaps_ok_grow [OF s pos, where us = ids])
      (simp_all add: r2_def r1_def)
  have hist2: "rn_hist r2 = rn_hist r @ ids" by (simp add: r2_def r1_def)
  have xh2: "rn_xh r2 = rn_xh r1" by (simp add: r2_def)
  have r': "r' = (if rn_n_snaps r2 > 0 \<and> (int (rn_pos r2) - rn_snap_last r2 \<ge> rn_snap_interval r2 \<or> int (rn_pos r2) = tail)
      then snap_capture E (int (rn_pos r2)) r2 else r2)"
    by (simp add: r'_def prefill_step_def Let_def r1_def r2_def)
  have e2: "engine_ok E r2" using e engine_ok_config [OF cfg] by simp
  have cap: "holds E images (snap_capture E p r2)" for p using h2 by (simp add: holds_def)
  show "holds E images r'" using h2 cap unfolding r' by simp
  show "snaps_ok E images r'" using s2 snap_capture_ok [OF s2 h2 e2] unfolding r' by simp
  show "same_config r r'" using cfg unfolding r' by (simp add: same_config_def)
  show "rn_hist r' = rn_hist r @ ids" unfolding r' using hist2 by simp
  show "rn_xh r' (length ids - 1) = hidden_after E images (rn_hist r @ ids)" unfolding r' using c(2) xh2 by simp
qed

lemma cut_at_bounds: "0 < chunk \<Longrightarrow> 0 < cut_at pos cp chunk \<and> cut_at pos cp chunk \<le> chunk"
  by (auto simp: cut_at_def)

lemma chunk_len_bounds:
  fixes tail :: int
  assumes "done0 < n" and "0 < en_max_chunk E"
  shows "0 < chunk_len E n tail done0 r" and "chunk_len E n tail done0 r \<le> en_max_chunk E"
    and "chunk_len E n tail done0 r \<le> n - done0"
proof -
  define c where "c = min (en_max_chunk E) (n - done0)"
  have c: "0 < c" using assms by (simp add: c_def)
  have "0 < cut_at (rn_pos r) tail (cut_at (rn_pos r) cp c) \<and> cut_at (rn_pos r) tail (cut_at (rn_pos r) cp c) \<le> c" for cp
  proof -
    have b: "0 < cut_at (rn_pos r) cp c" "cut_at (rn_pos r) cp c \<le> c" using cut_at_bounds [OF c] by blast+
    from cut_at_bounds [OF b(1), of "rn_pos r" tail] b(2) show ?thesis by linarith
  qed
  then have "0 < chunk_len E n tail done0 r \<and> chunk_len E n tail done0 r \<le> c"
    unfolding chunk_len_def c_def [symmetric] Let_def using c by auto
  then show "0 < chunk_len E n tail done0 r" and "chunk_len E n tail done0 r \<le> en_max_chunk E"
    and "chunk_len E n tail done0 r \<le> n - done0" by (auto simp: c_def)
qed

lemma prefill_loop_correct:
  assumes "holds E images r" and "engine_ok E r" and "snaps_ok E images r" and "rn_images r = Some images"
    and "0 < en_max_chunk E" and "done0 < n" and "n \<le> length ids"
    and "rn_pos r + (n - done0) \<le> c_cap (rn_caches r)"
  shows "\<exists>last0 r'. prefill_loop E ids n tail done0 l0 r = Some (last0, r') \<and> 0 < last0 \<and>
    holds E images r' \<and> snaps_ok E images r' \<and> same_config r r' \<and>
    rn_hist r' = rn_hist r @ take (n - done0) (drop done0 ids) \<and>
    rn_xh r' (last0 - 1) = hidden_after E images (rn_hist r')"
  using assms
proof (induction "n - done0" arbitrary: done0 r l0 rule: less_induct)
  case less
  define k where "k = chunk_len E n tail done0 r"
  define chunk where "chunk = take k (drop done0 ids)"
  define r1 where "r1 = prefill_step E chunk tail r"
  note k = chunk_len_bounds [OF less.prems(6,5), of tail r, folded k_def]
  have lc: "length chunk = k" using k less.prems(7) by (simp add: chunk_def)
  have c: "chunk \<noteq> []" "length chunk + 4 \<le> c_raw_rows (rn_caches r)" "rn_pos r + length chunk \<le> c_cap (rn_caches r)"
    using k less.prems lc by (auto simp: engine_ok_def)
  note st = prefill_step_correct [OF less.prems(1-4) c, of tail, folded r1_def]
  have unf: "prefill_loop E ids n tail done0 l0 r = prefill_loop E ids n tail (done0 + k) k r1"
    using less.prems(6) by (subst prefill_loop.simps) (simp add: k_def chunk_def r1_def)
  have pos1: "rn_pos r1 = rn_pos r + k"
    using st(1,4) less.prems(1) lc by (simp add: holds_def)
  have cap1: "c_cap (rn_caches r1) = c_cap (rn_caches r)" using st(3) by (simp add: same_config_def same_shape_def)
  show ?case
  proof (cases "done0 + k < n")
    case True
    have "n - (done0 + k) < n - done0" using k(1) True by simp
    moreover have "engine_ok E r1" using less.prems(2) engine_ok_config [OF st(3)] by simp
    moreover have "rn_images r1 = Some images" using st(3) less.prems(4) by (simp add: same_config_def)
    moreover have "rn_pos r1 + (n - (done0 + k)) \<le> c_cap (rn_caches r1)" using less.prems(8) True by (simp add: pos1 cap1)
    ultimately obtain last0 r' where r': "prefill_loop E ids n tail (done0 + k) k r1 = Some (last0, r')" "0 < last0"
      "holds E images r'" "snaps_ok E images r'" "same_config r1 r'"
      "rn_hist r' = rn_hist r1 @ take (n - (done0 + k)) (drop (done0 + k) ids)"
      "rn_xh r' (last0 - 1) = hidden_after E images (rn_hist r')"
      using less.hyps [of "done0 + k" r1 k] st(1,2) less.prems(5,7) True by blast
    have "take (n - done0) (drop done0 ids) = chunk @ take (n - (done0 + k)) (drop (done0 + k) ids)"
    proof -
      have "n - done0 = k + (n - (done0 + k))" using True by simp
      then show ?thesis unfolding chunk_def by (simp only: take_add drop_drop add.commute [of k done0])
    qed
    then have "rn_hist r' = rn_hist r @ take (n - done0) (drop done0 ids)" using r'(6) st(4) by simp
    moreover have "same_config r r'" using st(3) r'(5) by (rule same_config_trans)
    ultimately show ?thesis using unf r' by auto
  next
    case False
    then have "done0 + k = n" using k(3) less.prems(6) by simp
    moreover have "prefill_loop E ids n tail (done0 + k) k r1 = Some (k, r1)"
      using False by (subst prefill_loop.simps) simp
    moreover have "chunk = take (n - done0) (drop done0 ids)" using \<open>done0 + k = n\<close> by (auto simp: chunk_def)
    ultimately show ?thesis using unf st k(1) lc by simp
  qed
qed

section \<open>Resuming keeps what the new request can use\<close>

lemma rows_of_images_cong:
  assumes "images_disjoint a" and "images_disjoint b" and "int (length ts) \<le> image_prefix_limit a b"
  shows "rows_of E a ts = rows_of E b ts"
  unfolding rows_of_def
  by (rule map_cong [OF refl]) (use assms image_prefix_limit_row [OF assms(1,2)] in auto)

text \<open>Cutting the sequence at \<open>R\<close>, once the caches stand for the first \<open>R\<close> rows.\<close>

definition cut_state :: "nat \<Rightarrow> ('v, 'e, 'f) Runner \<Rightarrow> ('v, 'e, 'f) Runner" where
  "cut_state R r =
     (let (snap_pos, snap_last) = prefix_discard_suffix (rn_snap_pos r) (int R)
      in r\<lparr>rn_snap_pos := snap_pos, rn_snap_last := snap_last, rn_pos := R,
           rn_hist := vec_resize R (rn_hist r), rn_prefix_reqs := rn_prefix_reqs r + 1,
           rn_reuse_total := rn_reuse_total r + int R\<rparr>)"

lemma cut_state_fields:
  "rn_caches (cut_state R r) = rn_caches r" "rn_images (cut_state R r) = rn_images r"
  "rn_n_snaps (cut_state R r) = rn_n_snaps r" "rn_snap_next (cut_state R r) = rn_snap_next r"
  "rn_pos (cut_state R r) = R" "rn_hist (cut_state R r) = vec_resize R (rn_hist r)"
  "rn_snap_pos (cut_state R r) = fst (prefix_discard_suffix (rn_snap_pos r) (int R))"
  "rn_resume (cut_state R r) = rn_resume r" "rn_cached_images (cut_state R r) = rn_cached_images r"
  "host_now (cut_state R r) = host_now r"
  by (simp_all add: cut_state_def host_now_def fun_eq_iff split: prod.splits)

lemma vec_resize_take: "k \<le> length xs \<Longrightarrow> vec_resize k xs = take k xs"
  by (simp add: vec_resize_def)

lemma cut_state_ok:
  assumes caches: "caches_hold (en_zero E) (en_layers E) (rn_caches r) (rows_of E old (take R (rn_hist r)))"
    and R: "R \<le> length (rn_hist r)" "R \<le> c_cap (rn_caches r)"
    and snaps: "length (rn_snap_pos r) = rn_n_snaps r" "rn_n_snaps r > 0 \<longrightarrow> rn_snap_next r < rn_n_snaps r"
    and slots: "\<forall>i < rn_n_snaps r. rn_snap_pos r ! i = -1 \<or> (0 \<le> rn_snap_pos r ! i \<and> rn_snap_pos r ! i mod 4 = 0 \<and>
      (rn_snap_pos r ! i \<le> int R \<longrightarrow> snap_ok (en_zero E) (en_layers E) (host_now r i)
        (take (nat (rn_snap_pos r ! i)) (rows_of E old (rn_hist r)))))"
    and rows: "rows_of E old (take R (rn_hist r)) = rows_of E images (take R (rn_hist r))"
  shows "holds E images (cut_state R r)" and "snaps_ok E images (cut_state R r)"
proof -
  let ?r = "cut_state R r"
  have hist: "rn_hist ?r = take R (rn_hist r)" using R by (simp add: cut_state_fields vec_resize_take)
  show "holds E images ?r"
    using caches R unfolding holds_def hist rows by (simp add: cut_state_fields)
  have "slot_ok E images ?r i (rn_snap_pos ?r ! i)" if i: "i < rn_n_snaps r" for i
  proof (cases "rn_snap_pos r ! i > int R \<or> rn_snap_pos r ! i = -1")
    case True
    then have "rn_snap_pos ?r ! i = -1" using i snaps(1) by (auto simp: cut_state_fields discard_suffix_slots)
    then show ?thesis by (simp add: slot_ok_def)
  next
    case False
    then have p: "rn_snap_pos ?r ! i = rn_snap_pos r ! i"
      using i snaps(1) by (simp add: cut_state_fields discard_suffix_slots)
    from False slots i have b: "0 \<le> rn_snap_pos r ! i" "rn_snap_pos r ! i mod 4 = 0" "rn_snap_pos r ! i \<le> int R"
      and ok: "snap_ok (en_zero E) (en_layers E) (host_now r i) (take (nat (rn_snap_pos r ! i)) (rows_of E old (rn_hist r)))"
      by auto
    have "take (nat (rn_snap_pos r ! i)) (rows_of E images (rn_hist ?r)) =
        take (nat (rn_snap_pos r ! i)) (rows_of E old (rn_hist r))"
      using b(3) R(1) unfolding hist rows [symmetric] by (simp add: rows_of_take min_absorb1 nat_le_iff)
    with ok b show ?thesis unfolding slot_ok_def p by (simp add: cut_state_fields)
  qed
  then show "snaps_ok E images ?r"
    using snaps by (simp add: snaps_ok_def cut_state_fields discard_suffix_slots)
qed

definition resume_state ::
  "('v, 'e, 'f) Engine \<Rightarrow> PrefixPlan \<Rightarrow> ('v, 'e, 'f) Runner \<Rightarrow> ('v, 'e, 'f) Runner" where
  "resume_state E pl r =
     (if pl_extend pl then r\<lparr>rn_resume := nat (pl_resume pl)\<rparr>
      else if pl_slot pl \<ge> 0
      then (snap_restore E (nat (pl_slot pl)) r)\<lparr>rn_resume := nat (pl_resume pl)\<rparr>
      else (reset E r)\<lparr>rn_resume := 0\<rparr>)"

lemma prefix_begin_eq:
  assumes "r1 = resume_state E (prefix_plan (rn_hist r) (int (rn_pos r)) prompt (rn_snap_pos r) limit) r"
    and "rn_resume r1 \<le> c_cap (rn_caches r1)"
  shows "prefix_begin E prompt limit r = cut_state (rn_resume r1) r1"
  using assms(2) unfolding prefix_begin_def Let_def resume_state_def [symmetric] assms(1) [symmetric]
  by (simp add: cut_state_def split: prod.splits)

lemma reset_fields:
  "rn_caches (reset E r) = clear_kda (en_zero E) (rn_caches r)" "rn_hist (reset E r) = []"
  "rn_pos (reset E r) = 0" "rn_images (reset E r) = rn_images r" "rn_n_snaps (reset E r) = rn_n_snaps r"
  "rn_snap_pos (reset E r) = replicate (length (rn_snap_pos r)) (-1)" "rn_snap_next (reset E r) = 0"
  by (simp_all add: reset_def Let_def)

lemma restore_fields:
  "rn_caches (snap_restore E slot r) = kda_load (en_layers E) (host_now r slot) (rn_caches r)"
  "rn_hist (snap_restore E slot r) = rn_hist r" "rn_pos (snap_restore E slot r) = rn_pos r"
  "rn_images (snap_restore E slot r) = rn_images r" "rn_n_snaps (snap_restore E slot r) = rn_n_snaps r"
  "rn_snap_pos (snap_restore E slot r) = rn_snap_pos r" "rn_snap_next (snap_restore E slot r) = rn_snap_next r"
  "host_now (snap_restore E slot r) = host_now r"
  by (simp_all add: snap_restore_def Let_def)

lemma prefix_begin_correct:
  assumes ok: "runner_ok E r" and prompt: "prompt \<noteq> []"
    and im: "images_disjoint images" "\<forall>im \<in> set images. 0 \<le> im_start im"
  defines "r' \<equiv> prefix_begin E prompt (image_prefix_limit (rn_cached_images r) images) (r\<lparr>rn_images := Some images\<rparr>)"
  shows "holds E images r'" and "snaps_ok E images r'" and "rn_resume r' < length prompt"
    and "rn_hist r' = take (rn_resume r') prompt" and "same_shape (rn_caches r) (rn_caches r')"
    and "rn_images r' = Some images" and "rn_pos r' = rn_resume r'"
proof -
  define old where "old = rn_cached_images r"
  define limit where "limit = image_prefix_limit old images"
  define r0 where "r0 = r\<lparr>rn_images := Some images\<rparr>"
  define pl where "pl = prefix_plan (rn_hist r) (int (rn_pos r)) prompt (rn_snap_pos r) limit"
  define r1 where "r1 = resume_state E pl r0"
  define R where "R = nat (pl_resume pl)"
  have h: "rn_pos r = length (rn_hist r)" "rn_pos r \<le> c_cap (rn_caches r)"
    "caches_hold (en_zero E) (en_layers E) (rn_caches r) (rows_of E old (rn_hist r))"
    using ok by (simp_all add: runner_ok_def holds_def old_def)
  have e: "layers_ok (c_n_kda (rn_caches r)) (en_layers E)" using ok by (simp add: runner_ok_def engine_ok_def)
  have sn: "length (rn_snap_pos r) = rn_n_snaps r" "rn_n_snaps r > 0 \<longrightarrow> rn_snap_next r < rn_n_snaps r"
    "\<forall>i < rn_n_snaps r. slot_ok E old r i (rn_snap_pos r ! i)"
    using ok by (auto simp: runner_ok_def snaps_ok_def old_def)
  have dj: "images_disjoint old" "\<forall>im \<in> set old. 0 \<le> im_start im" using ok by (auto simp: runner_ok_def old_def)
  have lim0: "0 \<le> limit" unfolding limit_def by (rule image_prefix_limit_nonneg) (use dj(2) im(2) in auto)
  have pos0: "0 \<le> int (rn_pos r)" by simp
  note pr = prefix_plan_resume [OF prompt pos0 lim0, of "rn_hist r" "rn_snap_pos r", folded pl_def]
  note pc = prefix_plan_cases [OF prompt, of "rn_hist r" "int (rn_pos r)" "rn_snap_pos r" limit, folded pl_def]
  have R: "R < length prompt" "R \<le> length (rn_hist r)" "int R \<le> limit" "int R = pl_resume pl"
    using pr(1-6) by (simp_all add: R_def)
  have agree: "take R prompt = take R (rn_hist r)"
  proof -
    have "R \<le> nat (pl_common pl)" using pr(1,3) by (simp add: R_def)
    then have "take R xs = take R (take (nat (pl_common pl)) xs)" for xs :: "token list" by (simp add: min_absorb1)
    then show ?thesis using pr(7) by metis
  qed
  have rows: "rows_of E old (take R (rn_hist r)) = rows_of E images (take R (rn_hist r))"
    by (rule rows_of_images_cong [OF dj(1) im(1)]) (use R limit_def in simp)
  have slots: "\<forall>i < rn_n_snaps r. rn_snap_pos r ! i = -1 \<or> (0 \<le> rn_snap_pos r ! i \<and> rn_snap_pos r ! i mod 4 = 0 \<and>
      (rn_snap_pos r ! i \<le> int R \<longrightarrow> snap_ok (en_zero E) (en_layers E) (host_now r i)
        (take (nat (rn_snap_pos r ! i)) (rows_of E old (rn_hist r)))))"
    using sn(3) by (auto simp: slot_ok_def)
  have key: "rn_resume r1 \<le> c_cap (rn_caches r1) \<and> holds E images (cut_state (rn_resume r1) r1) \<and>
      snaps_ok E images (cut_state (rn_resume r1) r1) \<and> rn_resume r1 < length prompt \<and>
      rn_hist (cut_state (rn_resume r1) r1) = take (rn_resume r1) prompt \<and>
      same_shape (rn_caches r) (rn_caches r1) \<and> rn_images r1 = Some images"
  proof (cases "pl_extend pl")
    case True
    then have r1: "r1 = r0\<lparr>rn_resume := R\<rparr>" by (simp add: r1_def resume_state_def R_def)
    have "pl_resume pl = int (rn_pos r)" using pc(2) [OF True] by linarith
    then have "R = length (rn_hist r)" using R(4) h(1) by simp
    then have c: "caches_hold (en_zero E) (en_layers E) (rn_caches r1) (rows_of E old (take R (rn_hist r1)))"
      using h(3) by (simp add: r1 r0_def)
    have "R \<le> c_cap (rn_caches r)" using \<open>R = length (rn_hist r)\<close> h by simp
    from cut_state_ok [OF c] this R sn slots rows agree
    show ?thesis by (simp add: r1 r0_def cut_state_fields vec_resize_take same_shape_def)
  next
    case ne: False
    show ?thesis
    proof (cases "pl_slot pl \<ge> 0")
      case True
      define slot where "slot = nat (pl_slot pl)"
      have r1: "r1 = (snap_restore E slot r0)\<lparr>rn_resume := R\<rparr>"
        using ne True by (simp add: r1_def resume_state_def R_def slot_def)
      note p3 = pc(3) [OF ne True, folded slot_def]
      have sl: "slot < rn_n_snaps r" "rn_snap_pos r ! slot = int R"
        using p3 sn(1) R(4) by simp_all
      have "pl_resume pl mod 4 = 0" using p3 unfolding snap_usable_def POOL_TOKENS_def by blast
      then have R4: "int R mod 4 = 0" by (simp only: R(4))
      have "snap_ok (en_zero E) (en_layers E) (host_now r slot) (take R (rows_of E old (rn_hist r)))"
        using slots sl by fastforce
      moreover have "4 dvd R" using R4 by presburger
      ultimately have "caches_hold (en_zero E) (en_layers E) (kda_load (en_layers E) (host_now r slot) (rn_caches r))
          (take R (rows_of E old (rn_hist r)))"
        using R(2) by (intro kda_load_holds [OF e h(3)]) simp_all
      then have c: "caches_hold (en_zero E) (en_layers E) (rn_caches r1) (rows_of E old (take R (rn_hist r1)))"
        using R(2) by (simp add: r1 r0_def restore_fields rows_of_take)
      have "R \<le> c_cap (rn_caches r)" using R(2) h by simp
      from cut_state_ok [OF c] this R sn slots rows agree
      show ?thesis
        by (simp add: r1 r0_def cut_state_fields vec_resize_take same_shape_def restore_fields kda_load_eq)
    next
      case False
      have r1: "r1 = (reset E r0)\<lparr>rn_resume := 0\<rparr>" using ne False by (simp add: r1_def resume_state_def)
      have "caches_hold (en_zero E) (en_layers E) (clear_kda (en_zero E) (rn_caches r)) []"
        by (rule clear_kda_holds [OF e])
      then have c: "caches_hold (en_zero E) (en_layers E) (rn_caches r1) (rows_of E images (take 0 (rn_hist r1)))"
        by (simp add: r1 r0_def reset_fields rows_of_def)
      have "holds E images (cut_state 0 r1) \<and> snaps_ok E images (cut_state 0 r1)"
        using cut_state_ok [OF c] sn by (simp add: r1 r0_def reset_fields)
      then show ?thesis
        using prompt by (simp add: r1 r0_def cut_state_fields reset_fields vec_resize_take same_shape_def clear_kda_def)
    qed
  qed
  have "rn_hist r0 = rn_hist r" "rn_pos r0 = rn_pos r" "rn_snap_pos r0 = rn_snap_pos r" by (simp_all add: r0_def)
  then have "r1 = resume_state E (prefix_plan (rn_hist r0) (int (rn_pos r0)) prompt (rn_snap_pos r0) limit) r0"
    by (simp add: r1_def pl_def)
  from prefix_begin_eq [OF this conjunct1 [OF key]]
  have "r' = cut_state (rn_resume r1) r1" by (simp add: r'_def r0_def limit_def old_def)
  with key show "holds E images r'" and "snaps_ok E images r'" and "rn_resume r' < length prompt"
    and "rn_hist r' = take (rn_resume r') prompt" and "same_shape (rn_caches r) (rn_caches r')"
    and "rn_images r' = Some images" and "rn_pos r' = rn_resume r'"
    by (simp_all add: cut_state_fields)
qed

section \<open>Generation, from the reference\<close>

text \<open>The tokens a request should get, from its prompt and images alone: the logits of each step are
  those of the reference run on the whole sequence so far.\<close>

fun gen_spec ::
  "('v, 'e, 'f :: linordered_field) Engine \<Rightarrow> 'f GenParams \<Rightarrow> (token list \<Rightarrow> bool) \<Rightarrow> nat \<Rightarrow> ImageEmbedding list \<Rightarrow> nat \<Rightarrow>
   token list \<Rightarrow> token list \<Rightarrow> rng \<Rightarrow> token list \<Rightarrow> token list" where
  "gen_spec E p on_token cap images 0 out recent st hist = out"
| "gen_spec E p on_token cap images (Suc k) out recent st hist =
     (if length hist \<ge> cap then out
      else let (i, st) = sample (en_exp E) (logits_after E images hist) p recent st;
               tok = int i
           in if tok = en_eos E \<and> \<not> ignore_eos p then out
              else let out = out @ [tok]; recent = recent @ [tok]
                   in if \<not> on_token out then out
                      else if int (length out) \<ge> max_tokens p then out
                      else gen_spec E p on_token cap images k out recent st (hist @ [tok]))"

definition generate_spec ::
  "('v, 'e, 'f :: linordered_field) Engine \<Rightarrow> 'f GenParams \<Rightarrow> (token list \<Rightarrow> bool) \<Rightarrow> nat \<Rightarrow> token list \<Rightarrow>
   ImageEmbedding list \<Rightarrow> token list" where
  "generate_spec E p on_token cap prompt images =
     gen_spec E p on_token cap images (nat (max_tokens p)) [] prompt
       (sampler_reset (if seed p \<noteq> 0 then seed p else 1234)) (take cap prompt)"

text \<open>The state between two steps of the loop: the logits are those of the sequence, unless the cache
  is full.\<close>

definition gen_inv :: "('v, 'e, 'f) Engine \<Rightarrow> ImageEmbedding list \<Rightarrow> ('v, 'e, 'f) Runner \<Rightarrow> bool" where
  "gen_inv E images r \<longleftrightarrow> engine_ok E r \<and> holds E images r \<and> snaps_ok E images r \<and> rn_images r = Some images \<and>
     (rn_pos r < c_cap (rn_caches r) \<longrightarrow> rn_logits r = logits_after E images (rn_hist r))"

lemma snaps_ok_fields:
  "snaps_ok E images (r\<lparr>rn_logits := l\<rparr>) = snaps_ok E images r"
  "snaps_ok E images (r\<lparr>rn_decode_tokens := k\<rparr>) = snaps_ok E images r"
  "snaps_ok E images (r\<lparr>rn_prefill_tokens := k\<rparr>) = snaps_ok E images r"
  "snaps_ok E images (r\<lparr>rn_images := im\<rparr>) = snaps_ok E images r"
  "snaps_ok E images (r\<lparr>rn_cached_images := ims\<rparr>) = snaps_ok E images r"
  by (simp_all add: snaps_ok_def slot_ok_def)

lemma decode_correct:
  fixes tok :: token
  assumes inv: "gen_inv E images r" and cap: "rn_pos r < c_cap (rn_caches r)"
  defines "r' \<equiv> decode E [tok] r"
  shows "gen_inv E images r'" and "rn_hist r' = rn_hist r @ [tok]" and "c_cap (rn_caches r') = c_cap (rn_caches r)"
    and "rn_cached_images r' = rn_cached_images r"
proof -
  define r1 where "r1 = run_chunk E [tok] r"
  have h: "holds E images r" and e: "engine_ok E r" and s: "snaps_ok E images r" and im: "rn_images r = Some images"
    using inv by (simp_all add: gen_inv_def)
  have "length [tok] + 4 \<le> c_raw_rows (rn_caches r)" "rn_pos r + length [tok] \<le> c_cap (rn_caches r)"
    using e cap by (simp_all add: engine_ok_def)
  note c = run_chunk_correct [OF h e im _ this, folded r1_def, simplified]
  have shape: "same_shape (rn_caches r) (rn_caches r1)" unfolding r1_def by (rule run_chunk_shape)
  have pos: "rn_pos r = length (rn_hist r)" using h by (simp add: holds_def)
  have r1: "rn_pos r1 = rn_pos r" "rn_hist r1 = rn_hist r" "rn_images r1 = Some images"
    "rn_cached_images r1 = rn_cached_images r" by (simp_all add: r1_def im)
  have r': "r' = (final_head E 1 (r1\<lparr>rn_pos := rn_pos r1 + 1, rn_hist := rn_hist r1 @ [tok]\<rparr>))
      \<lparr>rn_decode_tokens := rn_decode_tokens r' \<rparr>"
    by (simp add: r'_def decode_def Let_def r1_def final_head_def)
  have f: "rn_caches r' = rn_caches r1" "rn_pos r' = rn_pos r + 1" "rn_hist r' = rn_hist r @ [tok]"
    "rn_images r' = Some images" "rn_cached_images r' = rn_cached_images r" "host_now r' = host_now r"
    "rn_snap_pos r' = rn_snap_pos r" "rn_n_snaps r' = rn_n_snaps r" "rn_snap_next r' = rn_snap_next r"
    "rn_logits r' = logits_after E images (rn_hist r @ [tok])"
    by (subst r'; simp add: final_head_def r1 logits_after_def c(2); simp add: r1_def)+
  have "snaps_ok E images r'" by (rule snaps_ok_grow [OF s pos, where us = "[tok]"]) (simp_all add: f)
  moreover have "holds E images r'" using c(1) pos cap shape by (simp add: holds_def f same_shape_def)
  moreover have "engine_ok E r'" using e shape by (simp add: engine_ok_def same_shape_def f)
  ultimately show "gen_inv E images r'" by (simp add: gen_inv_def f)
  show "rn_hist r' = rn_hist r @ [tok]" "rn_cached_images r' = rn_cached_images r" by (rule f)+
  show "c_cap (rn_caches r') = c_cap (rn_caches r)" using shape by (simp add: f same_shape_def)
qed

lemma gen_loop_correct:
  assumes "gen_inv E images r"
  shows "fst (gen_loop E p on_token k out recent st r) =
      gen_spec E p on_token (c_cap (rn_caches r)) images k out recent st (rn_hist r) \<and>
    gen_inv E images (snd (gen_loop E p on_token k out recent st r)) \<and>
    rn_cached_images (snd (gen_loop E p on_token k out recent st r)) = rn_cached_images r"
  using assms
proof (induction k arbitrary: out recent st r)
  case (Suc k)
  have pos: "rn_pos r = length (rn_hist r)" using Suc.prems by (simp add: gen_inv_def holds_def)
  show ?case
  proof (cases "rn_pos r \<ge> c_cap (rn_caches r)")
    case True
    then show ?thesis using Suc.prems pos by simp
  next
    case False
    then have l: "rn_logits r = logits_after E images (rn_hist r)" using Suc.prems by (simp add: gen_inv_def)
    obtain i st1 where smp: "sample (en_exp E) (logits_after E images (rn_hist r)) p recent st = (i, st1)" by fastforce
    have cap: "rn_pos r < c_cap (rn_caches r)" using False by simp
    note d = decode_correct [OF Suc.prems cap, of "int i"]
    show ?thesis
      using Suc.IH [OF d(1), of "out @ [int i]" "recent @ [int i]" st1] Suc.prems False pos
      by (simp add: l smp Let_def d(2-4))
  qed
qed simp

lemma gen_loop_cap:
  "c_cap (rn_caches (snd (gen_loop E p on_token k out recent st r))) = c_cap (rn_caches r)"
proof (induction k arbitrary: out recent st r)
  case (Suc k)
  have "c_cap (rn_caches (decode E [tok] r)) = c_cap (rn_caches r)" for tok
    using run_chunk_shape [of r E "[tok]"] by (simp add: decode_def Let_def final_head_def same_shape_def)
  then show ?case using Suc by (simp add: Let_def split: prod.splits)
qed simp

lemma prefill_correct:
  assumes h: "holds E images r" and e: "engine_ok E r" and s: "snaps_ok E images r" and im: "rn_images r = Some images"
    and mc: "0 < en_max_chunk E" and ids: "ids \<noteq> []"
  shows "\<exists>r'. prefill E ids r = Some r' \<and> gen_inv E images r' \<and>
    rn_hist r' = take (c_cap (rn_caches r)) (rn_hist r @ ids) \<and> c_cap (rn_caches r') = c_cap (rn_caches r) \<and>
    rn_cached_images r' = rn_cached_images r"
proof -
  have pos: "rn_pos r = length (rn_hist r)" "rn_pos r \<le> c_cap (rn_caches r)" using h by (simp_all add: holds_def)
  have r0: "r\<lparr>rn_hist := vec_resize (rn_pos r) (rn_hist r)\<rparr> = r" using pos by (simp add: vec_resize_take)
  show ?thesis
  proof (cases "rn_pos r \<ge> c_cap (rn_caches r)")
    case True
    then have "prefill E ids r = Some r" by (simp add: prefill_def r0 Let_def)
    with True assms pos show ?thesis by (auto simp: gen_inv_def)
  next
    case False
    define n where "n = (if rn_pos r + length ids > c_cap (rn_caches r) then c_cap (rn_caches r) - rn_pos r else length ids)"
    have n: "0 < n" "n \<le> length ids" "rn_pos r + (n - 0) \<le> c_cap (rn_caches r)"
      using False ids by (auto simp: n_def)
    define tl where "tl = prefix_checkpoint_before (int (rn_pos r) + int n)"
    from prefill_loop_correct [OF h e s im mc n, of tl 0] obtain last0 r1 where
      r1: "prefill_loop E ids n tl 0 0 r = Some (last0, r1)" "0 < last0" "holds E images r1" "snaps_ok E images r1"
        "same_config r r1" "rn_hist r1 = rn_hist r @ take n ids" "rn_xh r1 (last0 - 1) = hidden_after E images (rn_hist r1)"
      by auto
    define r' where "r' = (final_head E last0 r1)\<lparr>rn_prefill_tokens := rn_prefill_tokens r1 + n\<rparr>"
    have p: "prefill E ids r = Some r'"
      using False r1(1) unfolding prefill_def r0 Let_def n_def [symmetric] tl_def [symmetric]
      by (simp add: r'_def final_head_def)
    have f: "rn_caches r' = rn_caches r1" "rn_pos r' = rn_pos r1" "rn_hist r' = rn_hist r1" "rn_images r' = rn_images r1"
      "rn_logits r' = logits_after E images (rn_hist r1)"
      using r1(2,7) by (simp_all add: r'_def final_head_def logits_after_def)
    have "snaps_ok E images r'" using r1(4) by (simp add: r'_def final_head_def snaps_ok_fields)
    moreover have "holds E images r'" using r1(3) by (simp add: holds_def f)
    moreover have "engine_ok E r'" using e r1(5) by (simp add: engine_ok_def same_config_def same_shape_def f)
    moreover have "rn_images r' = Some images" using im r1(5) by (simp add: same_config_def f)
    ultimately have inv: "gen_inv E images r'" by (simp add: gen_inv_def f)
    have "take (c_cap (rn_caches r)) (rn_hist r @ ids) = rn_hist r @ take n ids"
      using pos False by (auto simp: n_def)
    then have "rn_hist r' = take (c_cap (rn_caches r)) (rn_hist r @ ids)" using r1(6) f by simp
    moreover have "c_cap (rn_caches r') = c_cap (rn_caches r)" "rn_cached_images r' = rn_cached_images r"
      using r1(5) by (simp_all add: same_config_def same_shape_def f) (simp add: r'_def final_head_def)
    ultimately show ?thesis using p inv by blast
  qed
qed

text \<open>The whole request: it ends, returns exactly what the reference says, and leaves a state the next
  request may start from.\<close>

lemma generate_correct:
  assumes ok: "runner_ok E r" and mc: "0 < en_max_chunk E" and prompt: "prompt \<noteq> []"
    and valid: "list_all (image_valid (en_hidden E) (length prompt)) images" and dj: "images_disjoint images"
  shows "\<exists>r'. generate E p on_token prompt images r =
      Some (Inr (generate_spec E p on_token (c_cap (rn_caches r)) prompt images), r') \<and>
    runner_ok E r' \<and> c_cap (rn_caches r') = c_cap (rn_caches r)"
proof -
  define r0 where "r0 = prefix_begin E prompt (image_prefix_limit (rn_cached_images r) images) (r\<lparr>rn_images := Some images\<rparr>)"
  define r1 where "r1 = r0\<lparr>rn_cached_images := images\<rparr>"
  have st: "\<forall>im \<in> set images. 0 \<le> im_start im" using valid by (auto simp: image_valid_def list_all_iff)
  note b = prefix_begin_correct [OF ok prompt dj st, folded r0_def]
  have h: "holds E images r1" "snaps_ok E images r1" using b(1,2) by (simp_all add: r1_def holds_def snaps_ok_fields)
  have e: "engine_ok E r1" using ok b(5) by (simp add: runner_ok_def engine_ok_def same_shape_def r1_def)
  have im: "rn_images r1 = Some images" using b(6) by (simp add: r1_def)
  have cap: "c_cap (rn_caches r1) = c_cap (rn_caches r)" using b(5) by (simp add: same_shape_def r1_def)
  have "drop (rn_resume r0) prompt \<noteq> []" using b(3) by simp
  from prefill_correct [OF h(1) e h(2) im mc this] obtain r2 where
    r2: "prefill E (drop (rn_resume r0) prompt) r1 = Some r2" "gen_inv E images r2"
      "rn_hist r2 = take (c_cap (rn_caches r)) prompt" "c_cap (rn_caches r2) = c_cap (rn_caches r)"
      "rn_cached_images r2 = images"
    using b(4) cap by (auto simp: r1_def)
  define st0 where "st0 = sampler_reset (if seed p \<noteq> 0 then seed p else 1234)"
  obtain out r3 where g: "gen_loop E p on_token (nat (max_tokens p)) [] prompt st0 r2 = (out, r3)" by fastforce
  note gl = gen_loop_correct [OF r2(2), of p on_token "nat (max_tokens p)" "[]" prompt st0, unfolded g fst_conv snd_conv]
  have res: "rn_resume r1 = rn_resume r0" by (simp add: r1_def)
  have "generate E p on_token prompt images r = Some (Inr out, r3\<lparr>rn_images := None\<rparr>)"
    using prompt valid b(3) r2(1) g
    unfolding generate_def Let_def r0_def [symmetric] r1_def [symmetric] st0_def [symmetric] by simp
  moreover have "out = generate_spec E p on_token (c_cap (rn_caches r)) prompt images"
    using gl r2(3,4) by (simp add: generate_spec_def st0_def)
  moreover have "runner_ok E (r3\<lparr>rn_images := None\<rparr>)"
    using gl dj st r2(5) by (simp add: runner_ok_def gen_inv_def engine_ok_def holds_def snaps_ok_fields)
  moreover have "c_cap (rn_caches r3) = c_cap (rn_caches r)"
    using gen_loop_cap [of E p on_token "nat (max_tokens p)" "[]" prompt st0 r2] g r2(4) by simp
  ultimately show ?thesis by auto
qed

section \<open>The state after init\<close>

text \<open>The end of \<^verbatim>\<open>Runner::init\<close>: the layers are numbered, the snapshot slots are reserved (when the pinned
  allocation succeeds) and the sequence is reset; \<open>c\<close>, \<open>xh\<close>, \<open>logits\<close>, \<open>host\<close> and \<open>stage\<close> are the allocated
  buffers, with arbitrary content.\<close>

definition runner_init ::
  "('v, 'e, 'f) Engine \<Rightarrow> ('v, 'e) Caches \<Rightarrow> (nat \<Rightarrow> hidden_row) \<Rightarrow> 'f list \<Rightarrow> (nat \<Rightarrow> nat \<Rightarrow> 'e) \<Rightarrow> (nat \<Rightarrow> 'e) \<Rightarrow>
   nat \<Rightarrow> int \<Rightarrow> bool \<Rightarrow> ('v, 'e, 'f) Runner" where
  "runner_init E c xh logits host stage budget interval alloc_ok =
     (let want = snapshot_count budget (c_n_kda c);
          n_snaps = (if want > 0 \<and> \<not> alloc_ok then 0 else want)
      in reset E \<lparr>rn_caches = c, rn_xh = xh, rn_logits = logits, rn_pos = 0, rn_hist = [], rn_images = None,
           rn_cached_images = [], rn_snap_host = host, rn_snap_stage = stage, rn_snap_flight = None,
           rn_snap_pos = replicate n_snaps (-1), rn_n_snaps = n_snaps, rn_snap_next = 0, rn_snap_last = 0,
           rn_snap_interval = interval, rn_resume = 0, rn_reuse_total = 0, rn_prefix_reqs = 0,
           rn_prefill_tokens = 0, rn_decode_tokens = 0\<rparr>)"

lemma runner_init_ok:
  assumes "layers_ok (c_n_kda c) (en_layers E)" and "en_max_chunk E + 4 \<le> c_raw_rows c" and "5 \<le> c_raw_rows c"
  shows "runner_ok E (runner_init E c xh logits host stage budget interval alloc_ok)"
proof -
  define n where "n = (if snapshot_count budget (c_n_kda c) > 0 \<and> \<not> alloc_ok then 0 else snapshot_count budget (c_n_kda c))"
  let ?r = "runner_init E c xh logits host stage budget interval alloc_ok"
  have f: "rn_caches ?r = clear_kda (en_zero E) c" "rn_hist ?r = []" "rn_pos ?r = 0" "rn_cached_images ?r = []"
    "rn_snap_pos ?r = replicate n (-1)" "rn_n_snaps ?r = n" "rn_snap_next ?r = 0"
    by (simp_all add: runner_init_def Let_def reset_def n_def [symmetric] snap_drain_def)
  have "caches_hold (en_zero E) (en_layers E) (clear_kda (en_zero E) c) []" by (rule clear_kda_holds [OF assms(1)])
  then show ?thesis
    using assms
    by (simp add: runner_ok_def engine_ok_def holds_def snaps_ok_def slot_ok_def images_disjoint_def f rows_of_def)
      (simp add: clear_kda_def)
qed

text \<open>The ring of \<^verbatim>\<open>Cache::init\<close> is large enough for every chunk of the runner.\<close>

lemma raw_ring_rows_enough:
  "5 \<le> raw_ring_rows mc" "0 < mc \<Longrightarrow> nat mc + 4 \<le> raw_ring_rows mc"
  by (auto simp: raw_ring_rows_def POOL_def Let_def)

section \<open>A chunk size of zero\<close>

lemma chunk_len_zero: "en_max_chunk E = 0 \<Longrightarrow> chunk_len E n tail done0 r = 0"
  by (simp add: chunk_len_def cut_at_def Let_def)

lemma prefill_loop_zero:
  assumes "prefill_loop E ids n tail done0 l0 r = Some y"
  shows "\<not> (en_max_chunk E = 0 \<and> done0 < n)"
proof (rule prefill_loop.raw_induct [OF _ assms, where P = "\<lambda>E ids n tail done0 l0 r y. \<not> (en_max_chunk E = 0 \<and> done0 < n)"])
  fix f E ids n tail done0 l0 r y
  assume ih: "\<And>E ids n tail done0 l0 r y. f E ids n tail done0 l0 r = Some y \<Longrightarrow> \<not> (en_max_chunk E = 0 \<and> done0 < n)"
    and eq: "(if done0 < n
      then f E ids n tail (done0 + chunk_len E n tail done0 r) (chunk_len E n tail done0 r)
             (prefill_step E (take (chunk_len E n tail done0 r) (drop done0 ids)) tail r)
      else Some (l0, r)) = Some y"
  show "\<not> (en_max_chunk E = 0 \<and> done0 < n)"
  proof
    assume a: "en_max_chunk E = 0 \<and> done0 < n"
    then have "done0 < n" by (rule conjunct2)
    from ih [OF eq [unfolded if_P [OF this]]] a show False by (simp add: chunk_len_zero)
  qed
qed

section \<open>The layer-major prefill\<close>

text \<open>The opt-in variant: a super-chunk of up to \<^verbatim>\<open>max_chunk_\<close> rows goes through the model layer by layer, each
  layer in inner chunks.  \<open>pos_\<close> has already been advanced past the finished super-chunks when
  \<^verbatim>\<open>pos_ + done + c\<close> is computed.\<close>

function lm_chunks ::
  "('v, 'e) Layer \<Rightarrow> nat \<Rightarrow> nat \<Rightarrow> 'v list \<Rightarrow> ('v, 'e) Caches \<Rightarrow> ('v, 'e) Caches \<times> 'v list" where
  "lm_chunks L inner p xs c =
     (if xs = [] \<or> inner = 0 then (c, xs)
      else let (c, out) = layer_step L p (take inner xs) c;
               (c, rest) = lm_chunks L inner (p + inner) (drop inner xs) c
           in (c, out @ rest))"
  by pat_completeness auto
termination
  by (relation "measure (\<lambda>(L, inner, p, xs, c). length xs)") auto

declare lm_chunks.simps [simp del]

fun lm_layers ::
  "('v, 'e) Layer list \<Rightarrow> nat \<Rightarrow> nat \<Rightarrow> 'v list \<Rightarrow> ('v, 'e) Caches \<Rightarrow> ('v, 'e) Caches \<times> 'v list" where
  "lm_layers [] inner p xs c = (c, xs)"
| "lm_layers (L # Ls) inner p xs c =
     (let (c, xs) = lm_chunks L inner p xs c in lm_layers Ls inner p xs c)"

definition lm_step ::
  "('v, 'e, 'f) Engine \<Rightarrow> token list \<Rightarrow> nat \<Rightarrow> ('v, 'e, 'f) Runner \<Rightarrow> ('v, 'e, 'f) Runner \<times> 'v list" where
  "lm_step E chunk done0 r =
     (let streams = map (en_expand E) (map (en_embed E) chunk);
          (c, streams) = lm_layers (en_layers E) (min 128 (en_max_chunk E)) (rn_pos r + done0) streams (rn_caches r)
      in (r\<lparr>rn_caches := c, rn_pos := rn_pos r + length chunk, rn_hist := rn_hist r @ chunk\<rparr>, streams))"

partial_function (option) lm_loop ::
  "('v, 'e, 'f) Engine \<Rightarrow> token list \<Rightarrow> nat \<Rightarrow> nat \<Rightarrow> 'v list \<Rightarrow> ('v, 'e, 'f) Runner \<Rightarrow>
   ('v list \<times> ('v, 'e, 'f) Runner) option" where
  "lm_loop E ids n done0 streams r =
     (if done0 < n
      then let sc = min (en_max_chunk E) (n - done0);
               s = lm_step E (take sc (drop done0 ids)) done0 r
           in lm_loop E ids n (done0 + sc) (snd s) (fst s)
      else Some (streams, r))"

definition prefill_layer_major ::
  "('v, 'e, 'f) Engine \<Rightarrow> token list \<Rightarrow> ('v, 'e, 'f) Runner \<Rightarrow> ('v, 'e, 'f) Runner option" where
  "prefill_layer_major E ids r =
     (let r = r\<lparr>rn_hist := vec_resize (rn_pos r) (rn_hist r)\<rparr>;
          cap = c_cap (rn_caches r)
      in if rn_pos r \<ge> cap then Some r
         else let n = (if rn_pos r + length ids > cap then cap - rn_pos r else length ids)
              in case lm_loop E ids n 0 [] r of
                   None \<Rightarrow> None
                 | Some (streams, r) \<Rightarrow>
                     let r = (if rn_n_snaps r > 0 \<and> int (rn_pos r) \<noteq> rn_snap_last r then snap_capture E (int (rn_pos r)) r else r);
                         r = r\<lparr>rn_xh := (rn_xh r)(0 := en_mean E (last streams))\<rparr>;
                         r = final_head E 1 r
                     in Some (r\<lparr>rn_prefill_tokens := rn_prefill_tokens r + n\<rparr>))"

text \<open>Two super-chunks of one row each: the second one is written at position 2, and position 1 keeps
  whatever the plane held before.\<close>

lemma lm_second_chunk:
  assumes L: "ly_kind L = MLA" and E: "en_layers E = [L]" "en_max_chunk E = 1" and r: "rn_pos r = 0" and n: "rn_n_snaps r = 0"
    and cap: "2 \<le> c_cap (rn_caches r)"
  shows "\<exists>r'. prefill_layer_major E [a, b] r = Some r' \<and> rn_pos r' = 2 \<and>
    c_ckv (rn_caches r') (nat (ly_mla_ord L)) 1 = c_ckv (rn_caches r) (nat (ly_mla_ord L)) 1 \<and>
    c_ckv (rn_caches r') (nat (ly_mla_ord L)) 2 =
      op_ckv (ly_ops L) (op_mix_attn (ly_ops L) (en_expand E (en_embed E b)))"
proof -
  define od where "od = nat (ly_mla_ord L)"
  have step: "rn_pos (fst (lm_step E [t] d s)) = rn_pos s + 1 \<and>
      rn_n_snaps (fst (lm_step E [t] d s)) = rn_n_snaps s \<and>
      c_ckv (rn_caches (fst (lm_step E [t] d s))) od =
        write_rows (rn_pos s + d) [op_ckv (ly_ops L) (op_mix_attn (ly_ops L) (en_expand E (en_embed E t)))]
          (c_ckv (rn_caches s) od)" for t d and s :: "('a, 'b, 'c) Runner"
    using L E by (simp add: lm_step_def Let_def lm_chunks.simps layer_step_def mla_layer_def od_def split: prod.splits)
  obtain s1 where s1: "s1 = fst (lm_step E [a] 0 (r\<lparr>rn_hist := vec_resize 0 (rn_hist r)\<rparr>))" by blast
  obtain s2 str where s2: "lm_step E [b] 1 s1 = (s2, str)" by fastforce
  have "lm_loop E [a, b] 2 0 [] (r\<lparr>rn_hist := vec_resize 0 (rn_hist r)\<rparr>) = Some (str, s2)"
    using E s2 by (simp add: lm_loop.simps [of E "[a, b]" 2 0] lm_loop.simps [of E "[a, b]" 2 1]
        lm_loop.simps [of E "[a, b]" 2 2] lm_loop.simps [of E "[a, b]" 2 "Suc 0"] lm_loop.simps [of E "[a, b]" 2 "Suc (Suc 0)"]
        s1 [symmetric])
  moreover have "rn_n_snaps s2 = 0" "rn_pos s2 = 2"
    using step [of b 1 s1] step [of a 0 "r\<lparr>rn_hist := vec_resize 0 (rn_hist r)\<rparr>"] s1 s2 r n by auto
  ultimately have "prefill_layer_major E [a, b] r =
      Some ((final_head E 1 (s2\<lparr>rn_xh := (rn_xh s2)(0 := en_mean E (last str))\<rparr>))\<lparr>rn_prefill_tokens := rn_prefill_tokens s2 + 2\<rparr>)"
    using r cap by (simp add: prefill_layer_major_def Let_def final_head_def numeral_2_eq_2)
  moreover have "c_ckv (rn_caches s2) od = write_rows 2 [op_ckv (ly_ops L) (op_mix_attn (ly_ops L) (en_expand E (en_embed E b)))]
      (write_rows 0 [op_ckv (ly_ops L) (op_mix_attn (ly_ops L) (en_expand E (en_embed E a)))] (c_ckv (rn_caches r) od))"
    using step [of b 1 s1] step [of a 0 "r\<lparr>rn_hist := vec_resize 0 (rn_hist r)\<rparr>"] s1 s2 r by (simp add: numeral_2_eq_2)
  ultimately show ?thesis
    using \<open>rn_pos s2 = 2\<close> by (simp add: final_head_def write_rows_def od_def [symmetric])
qed

section \<open>A small engine\<close>

text \<open>The concrete engine the witnesses run on, over the two layers of theory Layers.\<close>

definition demo_engine :: "(hidden_row, hidden_row, rat) Engine" where
  "demo_engine = \<lparr>en_layers = assign_ords 0 0
       demo_layers,
     en_zero = [], en_embed = (\<lambda>t. [of_int t, 1]), en_expand = (\<lambda>x. x), en_mean = (\<lambda>x. x),
     en_head = (\<lambda>x. [1, 3, 2]), en_exp = (\<lambda>x. 1), en_hidden = 2, en_max_chunk = 2, en_eos = 0\<rparr>"

definition demo_caches :: "(hidden_row, hidden_row) Caches" where
  "demo_caches = \<lparr>c_cap = 8, c_raw_rows = raw_ring_rows 2, c_n_kda = 1, c_kda = (\<lambda>i. [7]),
     c_ckv = (\<lambda>i p. []), c_ring = (\<lambda>i p. []), c_pool = (\<lambda>i p. [])\<rparr>"

definition demo_runner :: "(hidden_row, hidden_row, rat) Runner" where
  "demo_runner = runner_init demo_engine demo_caches (\<lambda>i. []) [] (\<lambda>i j. []) (\<lambda>j. []) (10 ^ 9) 4 True"

definition demo_params :: "rat GenParams" where
  "demo_params = \<lparr>max_tokens = 3, temperature = 0, top_k = 40, top_p = 1, min_p = 0, rep_penalty = 1,
     rep_window = 256, seed = 0, greedy = True, ignore_eos = False, stop_strings = []\<rparr>"

lemma demo_layers_ok: "layers_ok 1 (en_layers demo_engine)"
  unfolding demo_engine_def Engine.simps by (rule assign_ords_ok) (simp add: demo_layers_def)

lemma demo_runner_ok: "runner_ok demo_engine demo_runner"
  unfolding demo_runner_def
  by (rule runner_init_ok) (use demo_layers_ok in \<open>simp_all add: demo_caches_def demo_engine_def raw_ring_rows_def POOL_def Let_def\<close>)

section \<open>Properties\<close>



text \<open>C5: Prefix-cache transparency: what a request returns does not depend on the requests served
  before it.  Two states that both satisfy the invariant, one fresh and one with any resident history
  and snapshots, give the same result.\<close>

theorem prefix_cache_transparent:
  assumes "runner_ok E r" and "runner_ok E fresh" and "c_cap (rn_caches fresh) = c_cap (rn_caches r)"
    and "0 < en_max_chunk E" and "list_all (image_valid (en_hidden E) (length prompt)) images" and "images_disjoint images"
  shows "map_option fst (generate E p on_token prompt images r) = map_option fst (generate E p on_token prompt images fresh)"
proof (cases "prompt = []")
  case True
  then show ?thesis by (simp add: generate_def)
next
  case False
  from generate_correct [OF assms(1,4) False assms(5,6), of p on_token]
    generate_correct [OF assms(2,4) False assms(5,6), of p on_token] assms(3)
  show ?thesis by auto
qed

theorem prefix_cache_transparent_witness:
  "map_option fst (generate demo_engine demo_params (\<lambda>ts. True) [1, 2, 3] [] demo_runner) =
   map_option fst (generate demo_engine demo_params (\<lambda>ts. True) [1, 2, 3] []
     (runner_init demo_engine demo_caches (\<lambda>i. [5]) [] (\<lambda>i j. []) (\<lambda>j. []) 0 4 False))"
  by (rule prefix_cache_transparent [OF demo_runner_ok runner_init_ok [where c = demo_caches]])
    (use demo_layers_ok in \<open>simp_all add: demo_caches_def demo_engine_def raw_ring_rows_def POOL_def Let_def
      images_disjoint_def demo_runner_def runner_init_def reset_def snap_drain_def clear_kda_def\<close>)





text \<open>C7: A chunk refines the reference: if the caches stand for the history, running a chunk makes them
  stand for the longer history, and the last row of the hidden buffer is the reference's row for the
  last token (what \<^verbatim>\<open>final_head\<close> turns into logits).\<close>

theorem run_chunk_refines:
  assumes "holds E images r" and "engine_ok E r" and "rn_images r = Some images"
    and "ids \<noteq> []" and "length ids \<le> en_max_chunk E" and "rn_pos r + length ids \<le> c_cap (rn_caches r)"
  shows "caches_hold (en_zero E) (en_layers E) (rn_caches (run_chunk E ids r)) (rows_of E images (rn_hist r @ ids)) \<and>
    rn_logits (final_head E (length ids) (run_chunk E ids r)) = logits_after E images (rn_hist r @ ids)"
proof (rule conjI)
  have "length ids + 4 \<le> c_raw_rows (rn_caches r)" using assms(2,5) by (simp add: engine_ok_def)
  note c = run_chunk_correct [OF assms(1-4) this assms(6)]
  show "caches_hold (en_zero E) (en_layers E) (rn_caches (run_chunk E ids r)) (rows_of E images (rn_hist r @ ids))"
    by (rule c(1))
  show "rn_logits (final_head E (length ids) (run_chunk E ids r)) = logits_after E images (rn_hist r @ ids)"
    using c(2) assms(4) by (simp add: final_head_def logits_after_def)
qed

theorem run_chunk_refines_witness:
  "rn_logits (final_head demo_engine (length [3, 4 :: token]) (run_chunk demo_engine [3, 4] (demo_runner\<lparr>rn_images := Some []\<rparr>))) =
   logits_after demo_engine [] (rn_hist (demo_runner\<lparr>rn_images := Some []\<rparr>) @ [3, 4])"
proof (rule run_chunk_refines [THEN conjunct2])
  have ok: "runner_ok demo_engine demo_runner" by (rule demo_runner_ok)
  have im: "rn_cached_images demo_runner = []" by (simp add: demo_runner_def runner_init_def Let_def reset_def)
  show "holds demo_engine [] (demo_runner\<lparr>rn_images := Some []\<rparr>)"
    "engine_ok demo_engine (demo_runner\<lparr>rn_images := Some []\<rparr>)"
    using ok im by (simp_all add: runner_ok_def holds_def engine_ok_def)
  show "rn_pos (demo_runner\<lparr>rn_images := Some []\<rparr>) + length [3, 4 :: token] \<le> c_cap (rn_caches (demo_runner\<lparr>rn_images := Some []\<rparr>))"
    by (simp add: demo_runner_def runner_init_def Let_def reset_def snap_drain_def clear_kda_def demo_caches_def)
qed (simp_all add: demo_engine_def)

text \<open>C15: Snapshots round-trip: restoring the slot of a capture gives every KDA layer the state it had when
  the capture was taken, whatever happened to the caches since and whether or not the asynchronous copy
  had landed; a capture at a position that is not pool-aligned is refused.\<close>

theorem snapshot_roundtrip:
  "layers_ok n (en_layers E) \<Longrightarrow> L \<in> set (en_layers E) \<Longrightarrow> ly_kind L = KDA \<Longrightarrow>
   (0 < rn_n_snaps r \<and> pos mod 4 = 0 \<longrightarrow>
   c_kda (rn_caches (snap_restore E (rn_snap_next r) ((snap_capture E pos r)\<lparr>rn_caches := later\<rparr>))) (nat (ly_kda_ord L)) =
     c_kda (rn_caches r) (nat (ly_kda_ord L)) \<and>
   rn_snap_pos (snap_capture E pos r) = (rn_snap_pos r)[rn_snap_next r := pos]) \<and>
   (pos mod 4 \<noteq> 0 \<longrightarrow> snap_capture E pos r = r)"
proof (rule conjI; rule impI)
  assume "layers_ok n (en_layers E)" "L \<in> set (en_layers E)" "ly_kind L = KDA" "0 < rn_n_snaps r \<and> pos mod 4 = 0"
  then have a: "0 < rn_n_snaps r" "pos mod 4 = 0" "layers_ok n (en_layers E)" "L \<in> set (en_layers E)" "ly_kind L = KDA" by auto
  then have own: "kda_owned (en_layers E) (nat (ly_kda_ord L))" by (auto simp: layers_ok_def kda_owned_def)
  have "host_now (snap_capture E pos r) (rn_snap_next r) = kda_save (en_layers E) (rn_caches r) (rn_snap_stage (snap_drain r))"
    using a(1,2) by (simp add: snap_capture_def Let_def POOL_TOKENS_def host_now_def)
  then show "c_kda (rn_caches (snap_restore E (rn_snap_next r) ((snap_capture E pos r)\<lparr>rn_caches := later\<rparr>))) (nat (ly_kda_ord L)) =
      c_kda (rn_caches r) (nat (ly_kda_ord L)) \<and>
    rn_snap_pos (snap_capture E pos r) = (rn_snap_pos r)[rn_snap_next r := pos]"
    using a(1,2) own by (simp add: restore_fields kda_load_eq kda_save_eq)
      (simp add: snap_capture_def Let_def POOL_TOKENS_def)
qed (simp add: snap_capture_def POOL_TOKENS_def)

theorem snapshot_roundtrip_witness:
  "c_kda (rn_caches (snap_restore demo_engine (rn_snap_next demo_runner)
     ((snap_capture demo_engine 4 demo_runner)\<lparr>rn_caches := demo_caches\<rparr>))) (nat (ly_kda_ord (hd (en_layers demo_engine)))) =
   c_kda (rn_caches demo_runner) (nat (ly_kda_ord (hd (en_layers demo_engine))))"
  by (rule snapshot_roundtrip [OF demo_layers_ok, THEN conjunct1, THEN mp, THEN conjunct1])
    (simp_all add: demo_engine_def demo_layers_def demo_runner_def runner_init_def Let_def reset_def snapshot_count_def
      kda_state_bytes_def demo_caches_def snap_drain_def)



end
