(* ===== verification/Slot_Manager.thy ===== *)
theory Slot_Manager
  imports Main Helios_Prelude "HOL-Library.Word"
begin

text \<open>
  The expert slot manager (\<^verbatim>\<open>src/engine/slotmgr.cpp\<close>) and the loop of \<^verbatim>\<open>Runner::moe_ffn\<close> that
  makes the routed experts of a layer resident.  A slot of the GPU pool holds the slab of
  one (layer, expert) or nothing; a hash map finds it; a step marks the slots it reads as
  busy so that no later eviction of the same step takes them.  The contents of the slots and
  the copies queued on the DMA stream are part of the state: a copy lands in the pool only at
  \<^verbatim>\<open>sync_copies\<close>, the latest moment the stream allows.  The arena the slabs come from is a
  parameter.  Integers keep their widths where they can wrap: 32-bit heat and census counts,
  the 64-bit clock and the 64-bit packed map key.
\<close>

unbundle bit_operations_syntax

section \<open>State\<close>

record Slot =
  s_layer :: int
  s_expert :: int
  s_heat :: "32 word"
  s_last_used :: "64 word"
  s_pinned :: bool
  s_busy :: bool

definition Slot_new :: Slot where
  "Slot_new = \<lparr>s_layer = -1, s_expert = -1, s_heat = 0, s_last_used = 0, s_pinned = False,
     s_busy = False\<rparr>"

record Stats =
  st_hits :: nat
  st_misses :: nat
  st_evictions :: nat
  st_h2d_bytes :: nat
  st_pinned_hits :: nat
  st_lookups :: nat
  st_resident_hits :: nat

definition Stats_new :: Stats where
  "Stats_new = \<lparr>st_hits = 0, st_misses = 0, st_evictions = 0, st_h2d_bytes = 0,
     st_pinned_hits = 0, st_lookups = 0, st_resident_hits = 0\<rparr>"

text \<open>The part of the loaded model the manager reads: the slab of an expert in the RAM arena,
  the size of a slab of each layer (\<^verbatim>\<open>expert_layouts.at(layer).stride\<close>, which throws when the
  layer has none) and the stride of a slot.\<close>

record 'b Arena =
  arena_slab :: "int \<Rightarrow> int \<Rightarrow> 'b"
  layout_stride :: "int \<Rightarrow> nat option"
  slot_stride :: nat

record 'b SlotMgr =
  n_layer :: nat
  slots :: "Slot list"
  freq :: "32 word list"
  hot :: "bool list"
  hot_count :: nat
  slot_map :: "64 word \<rightharpoonup> nat"
  used :: "nat list"
  pending :: "nat list"
  clock :: "64 word"
  pinned_count :: int
  max_pinned :: nat
  census_path :: string
  since_rank :: nat
  stats :: Stats
  pool :: "nat \<Rightarrow> 'b option"
  dma :: "(nat \<times> 'b) list"

abbreviation n_slots :: "'b SlotMgr \<Rightarrow> nat" where
  "n_slots m \<equiv> length (slots m)"

definition slot_key :: "int \<Rightarrow> int \<Rightarrow> 64 word" where
  "slot_key l e = push_bit 32 (ucast (word_of_int l :: 32 word)) OR ucast (word_of_int e :: 32 word)"

definition upd_slot :: "nat \<Rightarrow> (Slot \<Rightarrow> Slot) \<Rightarrow> 'b SlotMgr \<Rightarrow> 'b SlotMgr" where
  "upd_slot i f m = m\<lparr>slots := (slots m)[i := f (slots m ! i)]\<rparr>"

definition upd_stats :: "(Stats \<Rightarrow> Stats) \<Rightarrow> 'b SlotMgr \<Rightarrow> 'b SlotMgr" where
  "upd_stats f m = m\<lparr>stats := f (stats m)\<rparr>"

section \<open>The census\<close>

definition census_idx :: "int \<Rightarrow> int \<Rightarrow> nat" where
  "census_idx l e = nat l * 288 + nat e"

definition in_census :: "'b SlotMgr \<Rightarrow> int \<Rightarrow> int \<Rightarrow> bool" where
  "in_census m l e \<longleftrightarrow> 0 \<le> l \<and> l < int (n_layer m) \<and> 0 \<le> e \<and> e < 288"

definition is_hot :: "'b SlotMgr \<Rightarrow> int \<Rightarrow> int \<Rightarrow> bool" where
  "is_hot m l e \<longleftrightarrow> hot m \<noteq> [] \<and> in_census m l e \<and> hot m ! census_idx l e"

text \<open>\<^verbatim>\<open>std::partial_sort\<close> with a descending comparison, then \<^verbatim>\<open>resize(k)\<close>.  The order of equal
  counts is unspecified in C++; the model keeps the index order.\<close>

definition top_census :: "32 word list \<Rightarrow> nat \<Rightarrow> nat list" where
  "top_census fr k =
     (let idx = filter (\<lambda>i. fr ! i \<noteq> 0) [0..<length fr] in
      if k < length idx then take k (sort_key (\<lambda>i. - int (unat (fr ! i))) idx) else idx)"

definition recompute_hot :: "'b SlotMgr \<Rightarrow> 'b SlotMgr" where
  "recompute_hot m =
     (if freq m = [] then m else
      (let idx = top_census (freq m) (max_pinned m) in
       m\<lparr>hot := fold (\<lambda>i h. h[i := True]) idx (replicate (length (hot m)) False),
         hot_count := length idx\<rparr>))"

definition note_request :: "'b SlotMgr \<Rightarrow> int \<Rightarrow> int \<Rightarrow> 'b SlotMgr" where
  "note_request m l e =
     (if freq m = [] then m
      else if \<not> in_census m l e then m
      else (let c = freq m ! census_idx l e in
        if c < 0xffffffff then m\<lparr>freq := (freq m)[census_idx l e := c + 1]\<rparr> else m))"

text \<open>The census file: a magic, two little-endian dimensions and the counts.\<close>

definition le32 :: "32 word \<Rightarrow> bytes" where
  "le32 w = [char_of (unat w mod 256), char_of (unat w div 256 mod 256),
     char_of (unat w div 65536 mod 256), char_of (unat w div 16777216)]"

fun de_le32 :: "bytes \<Rightarrow> 32 word" where
  "de_le32 (a # b # c # d # _) =
     of_nat (byte_val a + 256 * byte_val b + 65536 * byte_val c + 16777216 * byte_val d)"
| "de_le32 _ = 0"

definition save_census :: "'b SlotMgr \<Rightarrow> bytes option" where
  "save_census m =
     (if census_path m = [] \<or> freq m = [] then None
      else Some (''HELIOSC1'' @ le32 (of_nat (n_layer m)) @ le32 288 @ concat (map le32 (freq m))))"

text \<open>\<^verbatim>\<open>fread(freq_.data(), 4, freq_.size(), f)\<close>: as many whole items as the file still has; the
  others keep their value.\<close>

fun read_items :: "32 word list \<Rightarrow> bytes \<Rightarrow> 32 word list" where
  "read_items [] bs = []"
| "read_items (x # xs) bs =
     (if length bs < 4 then x # xs else de_le32 bs # read_items xs (drop 4 bs))"

definition load_census :: "nat \<Rightarrow> 32 word list \<Rightarrow> bytes \<Rightarrow> 32 word list" where
  "load_census nlayer fr f =
     (let nl = de_le32 (drop 8 f); ne = de_le32 (drop 12 f) in
      if 16 \<le> length f \<and> take 8 f = ''HELIOSC1'' \<and> ne = 288 \<and>
         (nl = of_nat nlayer \<or> nl = of_nat nlayer + 1)
      then read_items fr (drop 16 f)
      else replicate (length fr) 0)"

definition init_from_pool ::
  "nat \<Rightarrow> nat \<Rightarrow> string \<Rightarrow> bytes option \<Rightarrow> (nat \<Rightarrow> 'b option) \<Rightarrow> 'b SlotMgr option" where
  "init_from_pool nlayer nslots path file mem =
     (let fr0 = replicate (nlayer * 288) 0;
          fr = (if path = [] then fr0
                else case file of None \<Rightarrow> fr0 | Some f \<Rightarrow> load_census nlayer fr0 f) in
      if nslots < 16 then None
      else Some (recompute_hot
        \<lparr>n_layer = nlayer, slots = replicate nslots Slot_new, freq = fr,
          hot = replicate (length fr) False, hot_count = 0, slot_map = Map.empty, used = [],
          pending = [], clock = 0, pinned_count = 0, max_pinned = nslots * 60 div 100,
          census_path = path, since_rank = 0, stats = Stats_new, pool = mem, dma = []\<rparr>))"

section \<open>Lookup and eviction\<close>

definition find_slot :: "'b SlotMgr \<Rightarrow> int \<Rightarrow> int \<Rightarrow> 'b SlotMgr \<times> nat option" where
  "find_slot m l e =
     (case slot_map m (slot_key l e) of
        None \<Rightarrow> (upd_stats (\<lambda>t. t\<lparr>st_lookups := st_lookups t + 1\<rparr>) m, None)
      | Some i \<Rightarrow>
          (let m1 = upd_stats (\<lambda>t. t\<lparr>st_lookups := st_lookups t + 1,
                      st_resident_hits := st_resident_hits t + 1\<rparr>) m;
               m2 = m1\<lparr>clock := clock m1 + 1\<rparr>;
               m3 = upd_slot i (\<lambda>s. s\<lparr>s_last_used := clock m2,
                      s_heat := (if s_heat s < 0xffff then s_heat s + 1 else s_heat s)\<rparr>) m2;
               s = slots m3 ! i;
               m4 = (if is_hot m3 l e then
                       (if \<not> s_pinned s \<and> pinned_count m3 < int (max_pinned m3)
                        then upd_stats (\<lambda>t. t\<lparr>st_pinned_hits := st_pinned_hits t + 1\<rparr>)
                          ((upd_slot i (\<lambda>s. s\<lparr>s_pinned := True\<rparr>) m3)
                             \<lparr>pinned_count := pinned_count m3 + 1\<rparr>)
                        else m3)
                     else if s_pinned s
                     then (upd_slot i (\<lambda>s. s\<lparr>s_pinned := False\<rparr>) m3)
                            \<lparr>pinned_count := pinned_count m3 - 1\<rparr>
                     else m3)
           in (m4, Some i)))"

text \<open>The rank of an eviction candidate: the census count, then the heat.\<close>

datatype EvictRank = EvictRank (er_score: nat) (er_heat: nat)

instantiation EvictRank :: linorder
begin

definition less_EvictRank :: "EvictRank \<Rightarrow> EvictRank \<Rightarrow> bool" where
  "less_EvictRank a b \<longleftrightarrow>
     er_score a < er_score b \<or> (er_score a = er_score b \<and> er_heat a < er_heat b)"

definition less_eq_EvictRank :: "EvictRank \<Rightarrow> EvictRank \<Rightarrow> bool" where
  "less_eq_EvictRank a b \<longleftrightarrow> a < b \<or> (a :: EvictRank) = b"

instance
  by standard
    (auto simp: less_EvictRank_def less_eq_EvictRank_def EvictRank.expand,
      metis EvictRank.expand linorder_neqE_nat)

end

text \<open>The scans of the eviction code: the first index with the least rank among those that are
  not skipped.  \<^verbatim>\<open>~0ull\<close> is the rank the scan starts from.\<close>

definition min_step ::
  "(nat \<Rightarrow> bool) \<Rightarrow> (nat \<Rightarrow> 'r::linorder) \<Rightarrow> nat \<Rightarrow> nat option \<times> 'r \<Rightarrow> nat option \<times> 'r" where
  "min_step skip rank i b = (if skip i then b else if rank i < snd b then (Some i, rank i) else b)"

definition min_scan :: "(nat \<Rightarrow> bool) \<Rightarrow> (nat \<Rightarrow> 'r::linorder) \<Rightarrow> nat \<Rightarrow> 'r \<Rightarrow> nat option" where
  "min_scan skip rank n hi = fst (fold (min_step skip rank) [0..<n] (None, hi))"

definition slot_rank :: "'b SlotMgr \<Rightarrow> Slot \<Rightarrow> EvictRank" where
  "slot_rank m s = EvictRank
     (if 0 \<le> s_layer s \<and> census_idx (s_layer s) (s_expert s) < length (freq m)
      then unat (freq m ! census_idx (s_layer s) (s_expert s)) else 0)
     (unat (s_heat s))"

definition lru_scan :: "'b SlotMgr \<Rightarrow> (nat \<Rightarrow> bool) \<Rightarrow> nat option" where
  "lru_scan m skip = min_scan skip (\<lambda>i. s_last_used (slots m ! i)) (n_slots m) (- 1)"

text \<open>Emptying a slot: busy for the caller, its key out of the map.\<close>

definition vacate :: "nat \<Rightarrow> 'b SlotMgr \<Rightarrow> 'b SlotMgr" where
  "vacate i m =
     (let s = slots m ! i;
          m1 = (if 0 \<le> s_layer s
                then m\<lparr>slot_map := (slot_map m)(slot_key (s_layer s) (s_expert s) := None)\<rparr> else m)
      in upd_stats (\<lambda>t. t\<lparr>st_evictions := st_evictions t + 1\<rparr>)
           (upd_slot i (\<lambda>s. s\<lparr>s_busy := True, s_layer := -1, s_expert := -1, s_heat := 0\<rparr>) m1))"

definition unpin_lru :: "'b SlotMgr \<Rightarrow> 'b SlotMgr \<times> nat option" where
  "unpin_lru m =
     (case lru_scan m (\<lambda>i. s_busy (slots m ! i)) of
        None \<Rightarrow> (m, None)
      | Some i \<Rightarrow> ((upd_slot i (\<lambda>s. s\<lparr>s_pinned := False\<rparr>) m)
                    \<lparr>pinned_count := pinned_count m - 1\<rparr>, Some i))"

definition evict_one :: "'b SlotMgr \<Rightarrow> 'b SlotMgr \<times> nat option" where
  "evict_one m =
     (case first_idx (\<lambda>s. s_layer s < 0 \<and> \<not> s_busy s) (slots m) of
        Some i \<Rightarrow> (upd_slot i (\<lambda>s. s\<lparr>s_busy := True\<rparr>) m, Some i)
      | None \<Rightarrow>
          (let (m1, best) =
             (case min_scan (\<lambda>i. s_busy (slots m ! i) \<or> s_pinned (slots m ! i))
                     (\<lambda>i. slot_rank m (slots m ! i)) (n_slots m)
                     (EvictRank (2 ^ 64 - 1) (2 ^ 64 - 1)) of
                Some i \<Rightarrow> (m, Some i)
              | None \<Rightarrow> unpin_lru m)
           in case best of None \<Rightarrow> (m1, None) | Some i \<Rightarrow> (vacate i m1, Some i)))"

section \<open>Copies and steps\<close>

text \<open>\<^verbatim>\<open>start_copy\<close> ends the process (\<open>None\<close>) when the layer has no layout or its slab does not fit
  a slot.\<close>

definition start_copy :: "'b Arena \<Rightarrow> 'b SlotMgr \<Rightarrow> nat \<Rightarrow> int \<Rightarrow> int \<Rightarrow> 'b SlotMgr option" where
  "start_copy A m i l e =
     (case layout_stride A l of
        None \<Rightarrow> None
      | Some bytes \<Rightarrow>
          if slot_stride A < bytes then None
          else Some (upd_stats (\<lambda>t. t\<lparr>st_h2d_bytes := st_h2d_bytes t + bytes,
                        st_misses := st_misses t + 1\<rparr>)
                 (m\<lparr>dma := dma m @ [(i, arena_slab A l e)], pending := pending m @ [i]\<rparr>)))"

definition sync_copies :: "'b SlotMgr \<Rightarrow> 'b SlotMgr" where
  "sync_copies m =
     (if pending m = [] then m
      else (let m1 = m\<lparr>pool := fold (\<lambda>(i, b) p. p(i := Some b)) (dma m) (pool m), dma := []\<rparr>;
                m2 = fold (\<lambda>i m'. if i \<in> set (used m') then m'
                             else upd_slot i (\<lambda>s. s\<lparr>s_busy := False\<rparr>) m') (pending m1) m1
            in m2\<lparr>pending := []\<rparr>))"

definition drop_pinned :: "'b SlotMgr \<Rightarrow> 'b SlotMgr \<times> nat option" where
  "drop_pinned m =
     (case lru_scan m (\<lambda>i. s_busy (slots m ! i)) of
        None \<Rightarrow> (m, None)
      | Some i \<Rightarrow>
          (vacate i ((upd_slot i (\<lambda>s. s\<lparr>s_pinned := False\<rparr>) m)
             \<lparr>pinned_count := (if pinned_count m > 0 then pinned_count m - 1 else pinned_count m)\<rparr>),
           Some i))"

definition choose_slot :: "'b SlotMgr \<Rightarrow> 'b SlotMgr \<times> nat option" where
  "choose_slot m =
     (case evict_one m of
        (m1, Some i) \<Rightarrow> (m1, Some i)
      | (m1, None) \<Rightarrow>
          (case evict_one (sync_copies m1) of
             (m2, Some i) \<Rightarrow> (m2, Some i)
           | (m2, None) \<Rightarrow> drop_pinned m2))"

definition acquire ::
  "'b Arena \<Rightarrow> 'b SlotMgr \<Rightarrow> int \<Rightarrow> int \<Rightarrow> ('b SlotMgr \<times> nat option) option" where
  "acquire A m l e =
     (case slot_map m (slot_key l e) of
        Some i \<Rightarrow>
          (let m1 = m\<lparr>clock := clock m + 1\<rparr>;
               m2 = upd_slot i (\<lambda>s. s\<lparr>s_last_used := clock m1, s_heat := s_heat s + 1\<rparr>) m1;
               m3 = m2\<lparr>used := used m2 @ [i]\<rparr>
           in Some (upd_stats (\<lambda>t. t\<lparr>st_hits := st_hits t + 1,
                      st_pinned_hits := st_pinned_hits t + (if s_pinned (slots m3 ! i) then 1 else 0)\<rparr>) m3,
                    Some i))
      | None \<Rightarrow>
          (case choose_slot m of
             (m1, None) \<Rightarrow> Some (m1, None)
           | (m1, Some i) \<Rightarrow>
               (let m2 = m1\<lparr>clock := clock m1 + 1\<rparr>;
                    m3 = upd_slot i (\<lambda>s. s\<lparr>s_layer := l, s_expert := e, s_last_used := clock m2,
                           s_heat := 1\<rparr>) m2;
                    m4 = m3\<lparr>slot_map := (slot_map m3)(slot_key l e \<mapsto> i), used := used m3 @ [i]\<rparr>
                in map_option (\<lambda>m5. (m5, Some i)) (start_copy A m4 i l e))))"

definition begin_step :: "'b SlotMgr \<Rightarrow> 'b SlotMgr" where
  "begin_step m = m\<lparr>used := []\<rparr>"

definition reserve :: "'b SlotMgr \<Rightarrow> nat \<Rightarrow> 'b SlotMgr" where
  "reserve m i =
     (if n_slots m \<le> i then m
      else if s_busy (slots m ! i) then m
      else (upd_slot i (\<lambda>s. s\<lparr>s_busy := True\<rparr>) m)\<lparr>used := used m @ [i]\<rparr>)"

text \<open>The wall clock decides whether the ranking is refreshed; the census file is written
  by \<^const>\<open>save_census\<close>, which leaves the state alone.\<close>

definition end_step :: "bool \<Rightarrow> 'b SlotMgr \<Rightarrow> 'b SlotMgr" where
  "end_step rank_due m =
     (let m1 = fold (\<lambda>i m'. if 0 \<le> s_layer (slots m' ! i)
                       then upd_slot i (\<lambda>s. s\<lparr>s_busy := False\<rparr>) m' else m') (used m) m;
          m2 = m1\<lparr>used := [], since_rank := since_rank m1 + 1\<rparr>
      in if rank_due then recompute_hot m2 else m2)"

fun force_loop :: "'b Arena \<Rightarrow> nat \<Rightarrow> 'b SlotMgr \<Rightarrow> int \<Rightarrow> int \<Rightarrow> ('b SlotMgr \<times> nat option) option" where
  "force_loop A 0 m l e = Some (m, None)"
| "force_loop A (Suc k) m l e =
     (case lru_scan m (\<lambda>i. i \<in> set (used m)) of
        None \<Rightarrow> Some (m, None)
      | Some i \<Rightarrow>
          (let m1 = (if s_pinned (slots m ! i)
                     then (upd_slot i (\<lambda>s. s\<lparr>s_pinned := False\<rparr>) m)
                       \<lparr>pinned_count := (if pinned_count m > 0 then pinned_count m - 1 else pinned_count m)\<rparr>
                     else m);
               m2 = upd_slot i (\<lambda>s. s\<lparr>s_busy := False\<rparr>) m1
           in case acquire A m2 l e of
                None \<Rightarrow> None
              | Some (m3, Some j) \<Rightarrow> Some (m3, Some j)
              | Some (m3, None) \<Rightarrow> force_loop A k m3 l e))"

definition force_resident ::
  "'b Arena \<Rightarrow> 'b SlotMgr \<Rightarrow> int \<Rightarrow> int \<Rightarrow> ('b SlotMgr \<times> nat option) option" where
  "force_resident A m l e =
     (case find_slot m l e of
        (m1, Some i) \<Rightarrow> Some (m1, Some i)
      | (m1, None) \<Rightarrow> force_loop A 4 m1 l e)"


section \<open>The loop of the layer\<close>

text \<open>\<^verbatim>\<open>Runner::moe_ffn\<close>: \<open>cnt\<close> is \<^verbatim>\<open>dev_cnt\<close>, the number of tokens routed to each of the \<open>E\<close>
  experts.  First the acquire loop, then the forced residency of what is still missing, then
  the pointer tables.\<close>

definition moe_request :: "'b Arena \<Rightarrow> int \<Rightarrow> 'b SlotMgr \<Rightarrow> int \<Rightarrow> 'b SlotMgr option" where
  "moe_request A l m e =
     (let (m1, r) = find_slot (note_request m l e) l e in
      case r of
        None \<Rightarrow> map_option fst (acquire A m1 l e)
      | Some i \<Rightarrow> Some (reserve m1 i))"

fun moe_acquire_loop ::
  "'b Arena \<Rightarrow> int \<Rightarrow> (nat \<Rightarrow> int) \<Rightarrow> nat list \<Rightarrow> 'b SlotMgr \<Rightarrow> 'b SlotMgr option" where
  "moe_acquire_loop A l cnt [] m = Some m"
| "moe_acquire_loop A l cnt (e # es) m =
     (if cnt e \<le> 0 then moe_acquire_loop A l cnt es m
      else case moe_request A l m (int e) of
             None \<Rightarrow> None
           | Some m1 \<Rightarrow> moe_acquire_loop A l cnt es m1)"

fun count_missing :: "int \<Rightarrow> (nat \<Rightarrow> int) \<Rightarrow> nat list \<Rightarrow> 'b SlotMgr \<Rightarrow> 'b SlotMgr \<times> nat" where
  "count_missing l cnt [] m = (m, 0)"
| "count_missing l cnt (e # es) m =
     (if cnt e \<le> 0 then count_missing l cnt es m
      else (let (m1, r) = find_slot m l (int e); (m2, k) = count_missing l cnt es m1
            in (m2, if r = None then Suc k else k)))"

fun moe_force_loop ::
  "'b Arena \<Rightarrow> int \<Rightarrow> (nat \<Rightarrow> int) \<Rightarrow> nat list \<Rightarrow> 'b SlotMgr \<Rightarrow> 'b SlotMgr option" where
  "moe_force_loop A l cnt [] m = Some m"
| "moe_force_loop A l cnt (e # es) m =
     (if cnt e \<le> 0 then moe_force_loop A l cnt es m
      else (let (m1, r) = find_slot m l (int e) in
        if r \<noteq> None then moe_force_loop A l cnt es m1
        else case force_resident A m1 l (int e) of
               None \<Rightarrow> None
             | Some (m2, Some i) \<Rightarrow> moe_force_loop A l cnt es (reserve m2 i)
             | Some (m2, None) \<Rightarrow> moe_force_loop A l cnt es m2))"

text \<open>What a table entry points to: a slot of the pool, the all-zero slab, or nothing.\<close>

datatype Base = InSlot nat | ZeroSlab | NullPtr

fun moe_tables :: "int \<Rightarrow> (nat \<Rightarrow> int) \<Rightarrow> nat list \<Rightarrow> 'b SlotMgr \<Rightarrow> 'b SlotMgr \<times> Base list" where
  "moe_tables l cnt [] m = (m, [])"
| "moe_tables l cnt (e # es) m =
     (let (m1, r) = find_slot m l (int e);
          b = (case r of Some i \<Rightarrow> InSlot i | None \<Rightarrow> if cnt e > 0 then ZeroSlab else NullPtr);
          (m2, bs) = moe_tables l cnt es m1
      in (m2, b # bs))"

definition moe_slots ::
  "'b Arena \<Rightarrow> int \<Rightarrow> nat \<Rightarrow> (nat \<Rightarrow> int) \<Rightarrow> 'b SlotMgr \<Rightarrow> ('b SlotMgr \<times> Base list) option" where
  "moe_slots A l E cnt m =
     (case moe_acquire_loop A l cnt [0..<E] (begin_step m) of
        None \<Rightarrow> None
      | Some m1 \<Rightarrow>
          (let (m2, missing) = count_missing l cnt [0..<E] (sync_copies m1) in
           case (if missing = 0 then Some m2
                 else map_option (\<lambda>m'. fst (count_missing l cnt [0..<E] m'))
                        (moe_force_loop A l cnt [0..<E] m2)) of
             None \<Rightarrow> None
           | Some m3 \<Rightarrow> Some (moe_tables l cnt [0..<E] m3)))"

section \<open>Scans\<close>

lemma fold_min_step:
  assumes "fold (min_step skip rank) [0..<n] (None, hi) = (b, r)"
  shows "(case b of None \<Rightarrow> r = hi \<and> (\<forall>j < n. skip j \<or> hi \<le> rank j)
     | Some i \<Rightarrow> i < n \<and> \<not> skip i \<and> r = rank i \<and> r < hi \<and> (\<forall>j < n. skip j \<or> rank i \<le> rank j) \<and>
         (\<forall>j < i. skip j \<or> rank i < rank j))"
  using assms
proof (induction n arbitrary: b r)
  case 0
  then show ?case by simp
next
  case (Suc n)
  obtain b0 r0 where f: "fold (min_step skip rank) [0..<n] (None, hi) = (b0, r0)"
    by fastforce
  note ih = Suc.IH [OF f]
  from Suc.prems f have s: "min_step skip rank n (b0, r0) = (b, r)" by simp
  show ?case
  proof (cases b0)
    case None
    with ih s show ?thesis
      by (auto simp: min_step_def less_Suc_eq split: if_splits option.splits)
  next
    case (Some i)
    with ih s show ?thesis
      by (auto simp: min_step_def less_Suc_eq split: if_splits option.splits)
  qed
qed

lemma min_scan_Some:
  assumes "min_scan skip rank n hi = Some i"
  shows "i < n" and "\<not> skip i" and "\<And>j. j < n \<Longrightarrow> \<not> skip j \<Longrightarrow> rank i \<le> rank j"
    and "\<And>j. j < i \<Longrightarrow> \<not> skip j \<Longrightarrow> rank i < rank j"
proof -
  obtain b r where f: "fold (min_step skip rank) [0..<n] (None, hi) = (b, r)" by fastforce
  with assms have "b = Some i" by (simp add: min_scan_def)
  then show "i < n" and "\<not> skip i" and "\<And>j. j < n \<Longrightarrow> \<not> skip j \<Longrightarrow> rank i \<le> rank j"
    and "\<And>j. j < i \<Longrightarrow> \<not> skip j \<Longrightarrow> rank i < rank j"
    using fold_min_step [OF f] by auto
qed

lemma min_scan_None:
  assumes "min_scan skip rank n hi = None" and "j < n" and "\<not> skip j"
  shows "hi \<le> rank j"
proof -
  obtain b r where f: "fold (min_step skip rank) [0..<n] (None, hi) = (b, r)" by fastforce
  with assms have "b = None" by (simp add: min_scan_def)
  then show ?thesis using fold_min_step [OF f] assms by auto
qed

section \<open>The map key\<close>

lemma word_of_int_31_inj:
  assumes "(word_of_int x :: 32 word) = word_of_int y" and "0 \<le> x" "x < 2 ^ 31" "0 \<le> y" "y < 2 ^ 31"
  shows "x = y"
proof -
  have "uint (word_of_int z :: 32 word) = z" if "0 \<le> z" "z < 2 ^ 31" for z
    using that by (simp add: uint_word_of_int_eq take_bit_int_eq_self)
  then show ?thesis using assms by metis
qed

lemma slot_key_inj:
  assumes "slot_key l e = slot_key l' e'" and "0 \<le> l" "l < 2 ^ 31" "0 \<le> l'" "l' < 2 ^ 31"
    and "0 \<le> e" "e < 2 ^ 31" "0 \<le> e'" "e' < 2 ^ 31"
  shows "l = l' \<and> e = e'"
proof -
  let ?w = "\<lambda>x. word_of_int x :: 32 word"
  have b: "bit (slot_key l e) n = (if n < 32 then bit (?w e) n else n < 64 \<and> bit (?w l) (n - 32))"
    for l e n
    by (auto simp: slot_key_def bit_or_iff bit_push_bit_iff bit_ucast_iff dest: bit_imp_le_length)
  have "?w e = ?w e'"
  proof (rule bit_word_eqI)
    fix n assume "n < LENGTH(32)"
    then show "bit (?w e) n = bit (?w e') n"
      using b [of l e n] b [of l' e' n] assms(1) by simp
  qed
  moreover have "?w l = ?w l'"
  proof (rule bit_word_eqI)
    fix n assume "n < LENGTH(32)"
    then show "bit (?w l) n = bit (?w l') n"
      using b [of l e "n + 32"] b [of l' e' "n + 32"] assms(1) by simp
  qed
  ultimately show ?thesis
    using assms(2-) word_of_int_31_inj by blast
qed

section \<open>Invariant\<close>

text \<open>What a slot holds once the queued copies have landed.\<close>

definition contents :: "'b SlotMgr \<Rightarrow> nat \<Rightarrow> 'b option" where
  "contents m = fold (\<lambda>(i, b) p. p(i := Some b)) (dma m) (pool m)"

definition map_ok :: "'b SlotMgr \<Rightarrow> bool" where
  "map_ok m \<longleftrightarrow>
     (\<forall>i < n_slots m. 0 \<le> s_layer (slots m ! i) \<longrightarrow>
        s_layer (slots m ! i) < 2 ^ 31 \<and> 0 \<le> s_expert (slots m ! i) \<and>
        s_expert (slots m ! i) < 2 ^ 31 \<and>
        slot_map m (slot_key (s_layer (slots m ! i)) (s_expert (slots m ! i))) = Some i) \<and>
     (\<forall>k i. slot_map m k = Some i \<longrightarrow> i < n_slots m \<and> 0 \<le> s_layer (slots m ! i) \<and>
        k = slot_key (s_layer (slots m ! i)) (s_expert (slots m ! i)))"

definition pins_ok :: "'b SlotMgr \<Rightarrow> bool" where
  "pins_ok m \<longleftrightarrow> pinned_count m = int (length (filter s_pinned (slots m))) \<and>
     pinned_count m \<le> int (max_pinned m) \<and>
     (\<forall>i < n_slots m. s_layer (slots m ! i) < 0 \<longrightarrow> \<not> s_pinned (slots m ! i))"

definition step_ok :: "'b SlotMgr \<Rightarrow> bool" where
  "step_ok m \<longleftrightarrow>
     (\<forall>i < n_slots m. s_busy (slots m ! i) \<longrightarrow> i \<in> set (used m) \<and> 0 \<le> s_layer (slots m ! i)) \<and>
     set (used m) \<subseteq> {..<n_slots m} \<and> set (pending m) \<subseteq> {..<n_slots m} \<and>
     map fst (dma m) = pending m"

definition data_ok :: "'b Arena \<Rightarrow> 'b SlotMgr \<Rightarrow> bool" where
  "data_ok A m \<longleftrightarrow> (\<forall>i < n_slots m. 0 \<le> s_layer (slots m ! i) \<longrightarrow>
     contents m i = Some (arena_slab A (s_layer (slots m ! i)) (s_expert (slots m ! i))))"

definition slot_inv :: "'b Arena \<Rightarrow> 'b SlotMgr \<Rightarrow> bool" where
  "slot_inv A m \<longleftrightarrow> map_ok m \<and> pins_ok m \<and> step_ok m \<and> data_ok A m"

lemma slot_invI: "map_ok m \<Longrightarrow> pins_ok m \<Longrightarrow> step_ok m \<Longrightarrow> data_ok A m \<Longrightarrow> slot_inv A m"
  by (simp add: slot_inv_def)

text \<open>An empty, busy slot \<open>i\<close> obtained from \<open>m\<close>; everything else is as before.\<close>

definition freed :: "'b SlotMgr \<Rightarrow> nat \<Rightarrow> 'b SlotMgr \<Rightarrow> bool" where
  "freed m i m1 \<longleftrightarrow> i < n_slots m \<and> \<not> s_busy (slots m ! i) \<and>
     (\<exists>s. slots m1 = (slots m)[i := s] \<and> s_layer s < 0 \<and> s_busy s \<and> \<not> s_pinned s) \<and>
     slot_map m1 = (if 0 \<le> s_layer (slots m ! i)
       then (slot_map m)(slot_key (s_layer (slots m ! i)) (s_expert (slots m ! i)) := None)
       else slot_map m) \<and>
     pinned_count m1 = pinned_count m - (if s_pinned (slots m ! i) then 1 else 0) \<and>
     used m1 = used m \<and> clock m1 = clock m \<and> n_layer m1 = n_layer m \<and>
     max_pinned m1 = max_pinned m \<and> freq m1 = freq m \<and> contents m1 = contents m \<and>
     map fst (dma m1) = pending m1 \<and> set (pending m1) \<subseteq> {..<n_slots m}"

lemma upd_slot_sel [simp]:
  "slots (upd_slot i f m) = (slots m)[i := f (slots m ! i)]"
  "slot_map (upd_slot i f m) = slot_map m" "pinned_count (upd_slot i f m) = pinned_count m"
  "used (upd_slot i f m) = used m" "clock (upd_slot i f m) = clock m"
  "pending (upd_slot i f m) = pending m" "dma (upd_slot i f m) = dma m"
  "pool (upd_slot i f m) = pool m" "freq (upd_slot i f m) = freq m" "hot (upd_slot i f m) = hot m"
  "n_layer (upd_slot i f m) = n_layer m" "max_pinned (upd_slot i f m) = max_pinned m"
  by (simp_all add: upd_slot_def)

lemma upd_stats_sel [simp]:
  "slots (upd_stats g m) = slots m"
  "slot_map (upd_stats g m) = slot_map m" "pinned_count (upd_stats g m) = pinned_count m"
  "used (upd_stats g m) = used m" "clock (upd_stats g m) = clock m"
  "pending (upd_stats g m) = pending m" "dma (upd_stats g m) = dma m"
  "pool (upd_stats g m) = pool m" "freq (upd_stats g m) = freq m" "hot (upd_stats g m) = hot m"
  "n_layer (upd_stats g m) = n_layer m" "max_pinned (upd_stats g m) = max_pinned m"
  by (simp_all add: upd_stats_def)

lemma vacate_sel [simp]:
  "slots (vacate i m) = (slots m)[i := (slots m ! i)
     \<lparr>s_busy := True, s_layer := -1, s_expert := -1, s_heat := 0\<rparr>]"
  "slot_map (vacate i m) = (if 0 \<le> s_layer (slots m ! i)
     then (slot_map m)(slot_key (s_layer (slots m ! i)) (s_expert (slots m ! i)) := None)
     else slot_map m)"
  "pinned_count (vacate i m) = pinned_count m" "used (vacate i m) = used m"
  "clock (vacate i m) = clock m" "pending (vacate i m) = pending m" "dma (vacate i m) = dma m"
  "pool (vacate i m) = pool m" "freq (vacate i m) = freq m" "n_layer (vacate i m) = n_layer m"
  "max_pinned (vacate i m) = max_pinned m"
  by (simp_all add: vacate_def Let_def)

lemma slot_rank_less: "slot_rank m s < EvictRank (2 ^ 64 - 1) (2 ^ 64 - 1)"
proof -
  have u: "unat w < 18446744073709551615" for w :: "32 word"
    using unsigned_less [of w, where ?'a = nat] by simp
  show ?thesis by (simp add: slot_rank_def less_EvictRank_def u)
qed

lemma contents_cong: "dma m1 = dma m \<Longrightarrow> pool m1 = pool m \<Longrightarrow> contents m1 = contents m"
  by (simp add: contents_def)

lemma unpin_lru_cases:
  assumes "unpin_lru m = (m1, r)"
  obtains (none) "r = None" "m1 = m" "lru_scan m (\<lambda>i. s_busy (slots m ! i)) = None"
  | (some) i where "r = Some i" "i < n_slots m" "\<not> s_busy (slots m ! i)"
      "m1 = (upd_slot i (\<lambda>s. s\<lparr>s_pinned := False\<rparr>) m)\<lparr>pinned_count := pinned_count m - 1\<rparr>"
proof (cases "lru_scan m (\<lambda>i. s_busy (slots m ! i))")
  case None
  with assms that(1) show ?thesis by (simp add: unpin_lru_def)
next
  case (Some i)
  then have "i < n_slots m" "\<not> s_busy (slots m ! i)"
    unfolding lru_scan_def by (auto dest: min_scan_Some(1) min_scan_Some(2))
  with Some assms that(2) [of i] show ?thesis by (auto simp: unpin_lru_def)
qed

lemma evict_one_None:
  assumes "evict_one m = (m1, None)"
  shows "m1 = m" and "lru_scan m (\<lambda>i. s_busy (slots m ! i)) = None"
  using assms
  by (auto simp: evict_one_def Let_def split: option.splits prod.splits elim: unpin_lru_cases)

lemma evict_one_freed:
  assumes inv: "pins_ok m" "step_ok m" and e: "evict_one m = (m1, Some i)"
  shows "freed m i m1"
proof (cases "first_idx (\<lambda>s. s_layer s < 0 \<and> \<not> s_busy s) (slots m)")
  case (Some j)
  with e have j: "j = i" "m1 = upd_slot i (\<lambda>s. s\<lparr>s_busy := True\<rparr>) m"
    by (auto simp: evict_one_def)
  from first_idx_Some [OF Some] j(1)
  have i: "i < n_slots m" "s_layer (slots m ! i) < 0" "\<not> s_busy (slots m ! i)" by auto
  with inv have "\<not> s_pinned (slots m ! i)" by (simp add: pins_ok_def)
  with i inv show ?thesis
    by (auto simp: freed_def j(2) step_ok_def intro!: contents_cong)
next
  case None
  show ?thesis
  proof (cases "min_scan (\<lambda>i. s_busy (slots m ! i) \<or> s_pinned (slots m ! i))
                     (\<lambda>i. slot_rank m (slots m ! i)) (n_slots m)
                     (EvictRank (2 ^ 64 - 1) (2 ^ 64 - 1))")
    case (Some j)
    with e None have j: "j = i" "m1 = vacate i m" by (auto simp: evict_one_def)
    from min_scan_Some(1,2) [OF Some] j(1)
    have "i < n_slots m" "\<not> s_busy (slots m ! i)" "\<not> s_pinned (slots m ! i)" by auto
    with inv show ?thesis
      by (auto simp: freed_def j(2) step_ok_def intro!: contents_cong)
  next
    case none: None
    obtain m2 r where u: "unpin_lru m = (m2, r)" by fastforce
    with e None none have r: "r = Some i" "m1 = vacate i m2"
      by (auto simp: evict_one_def split: option.splits)
    from u r(1) have i: "i < n_slots m" "\<not> s_busy (slots m ! i)"
      and m2: "m2 = (upd_slot i (\<lambda>s. s\<lparr>s_pinned := False\<rparr>) m)\<lparr>pinned_count := pinned_count m - 1\<rparr>"
      by (auto elim: unpin_lru_cases)
    have "s_pinned (slots m ! i)"
    proof (rule ccontr)
      assume "\<not> s_pinned (slots m ! i)"
      with i min_scan_None [OF none, of i]
      have "EvictRank (2 ^ 64 - 1) (2 ^ 64 - 1) \<le> slot_rank m (slots m ! i)" by simp
      with slot_rank_less [of m "slots m ! i"] show False by simp
    qed
    with i inv show ?thesis
      by (auto simp: freed_def r(2) m2 step_ok_def intro!: contents_cong)
  qed
qed

lemma sync_fold_id:
  assumes "\<forall>i \<in> set is. i < n_slots m \<and> (s_busy (slots m ! i) \<longrightarrow> i \<in> set (used m))"
  shows "fold (\<lambda>i m'. if i \<in> set (used m') then m'
      else upd_slot i (\<lambda>s. s\<lparr>s_busy := False\<rparr>) m') is m = m"
  using assms
proof (induction "is")
  case (Cons i "is")
  have "upd_slot i (\<lambda>s. s\<lparr>s_busy := False\<rparr>) m = m" if "i \<notin> set (used m)"
  proof -
    have "(slots m ! i)\<lparr>s_busy := False\<rparr> = slots m ! i" using that Cons.prems by simp
    then show ?thesis by (simp add: upd_slot_def)
  qed
  with Cons show ?case by simp
qed simp

lemma sync_same:
  assumes "step_ok m"
  shows "sync_copies m = m\<lparr>pool := contents m, dma := [], pending := []\<rparr>"
proof (cases "pending m = []")
  case True
  with assms have "dma m = []" by (simp add: step_ok_def)
  with True show ?thesis by (simp add: sync_copies_def contents_def)
next
  case False
  let ?m1 = "m\<lparr>pool := fold (\<lambda>(i, b) p. p(i := Some b)) (dma m) (pool m), dma := []\<rparr>"
  have "\<forall>i \<in> set (pending ?m1). i < n_slots ?m1 \<and>
      (s_busy (slots ?m1 ! i) \<longrightarrow> i \<in> set (used ?m1))"
    using assms by (auto simp: step_ok_def)
  from sync_fold_id [OF this] False show ?thesis
    by (simp add: sync_copies_def Let_def contents_def)
qed

lemma sync_inv:
  assumes "slot_inv A m"
  shows "slot_inv A (sync_copies m)" and "contents (sync_copies m) = contents m"
  using assms
  by (simp_all add: slot_inv_def sync_same map_ok_def pins_ok_def step_ok_def data_ok_def contents_def)

lemma choose_slot_None:
  assumes "step_ok m" and "choose_slot m = (m1, None)"
  shows "m1 = sync_copies m" and "lru_scan m (\<lambda>i. s_busy (slots m ! i)) = None"
proof -
  obtain m' r' where e1: "evict_one m = (m', r')" by fastforce
  with assms(2) have r': "r' = None" by (auto simp: choose_slot_def split: option.splits)
  from evict_one_None [of m m'] e1 r' have m': "m' = m" "lru_scan m (\<lambda>i. s_busy (slots m ! i)) = None"
    by auto
  obtain m2 r2 where e2: "evict_one (sync_copies m) = (m2, r2)" by fastforce
  with assms(2) e1 m' r' have r2: "r2 = None" by (auto simp: choose_slot_def split: option.splits)
  from evict_one_None [of "sync_copies m" m2] e2 r2 have m2: "m2 = sync_copies m" 
      "lru_scan (sync_copies m) (\<lambda>i. s_busy (slots (sync_copies m) ! i)) = None" by auto
  with assms(2) e1 e2 m' r' r2 show "m1 = sync_copies m"
    by (auto simp: choose_slot_def drop_pinned_def)
  show "lru_scan m (\<lambda>i. s_busy (slots m ! i)) = None" by (rule m'(2))
qed

lemma choose_slot_freed:
  assumes inv: "slot_inv A m" and c: "choose_slot m = (m1, Some i)"
  shows "freed m i m1"
proof -
  from inv have ok: "pins_ok m" "step_ok m" by (simp_all add: slot_inv_def)
  obtain m' r' where e1: "evict_one m = (m', r')" by fastforce
  show ?thesis
  proof (cases r')
    case (Some j)
    with c e1 have "evict_one m = (m1, Some i)" by (simp add: choose_slot_def)
    then show ?thesis by (rule evict_one_freed [OF ok])
  next
    case None
    from evict_one_None [of m m'] e1 None have m': "m' = m" "lru_scan m (\<lambda>i. s_busy (slots m ! i)) = None"
      by auto
    obtain m2 r2 where e2: "evict_one (sync_copies m) = (m2, r2)" by fastforce
    show ?thesis
    proof (cases r2)
      case (Some j)
      with c e1 None m' e2 have "evict_one (sync_copies m) = (m1, Some i)"
        by (simp add: choose_slot_def)
      then have "freed (sync_copies m) i m1"
        using evict_one_freed sync_inv [OF inv] by (auto simp: slot_inv_def)
      then show ?thesis
        using sync_inv(2) [OF inv] by (simp add: freed_def sync_same [OF ok(2)])
    next
      case r2: None
      from evict_one_None [of "sync_copies m" m2] e2 r2 have
        "m2 = sync_copies m" "lru_scan (sync_copies m) (\<lambda>i. s_busy (slots (sync_copies m) ! i)) = None"
        by auto
      with c e1 None m' e2 r2 show ?thesis by (simp add: choose_slot_def drop_pinned_def)
    qed
  qed
qed

lemma contents_enqueue:
  "contents (m\<lparr>dma := dma m @ [(i, b)], pending := ps\<rparr>) = (contents m)(i := Some b)"
  by (simp add: contents_def)

text \<open>A miss puts the expert into a slot nobody holds.\<close>

definition placed :: "'b Arena \<Rightarrow> 'b SlotMgr \<Rightarrow> int \<Rightarrow> int \<Rightarrow> nat \<Rightarrow> 'b SlotMgr \<Rightarrow> bool" where
  "placed A m l e i m' \<longleftrightarrow> (\<exists>m1 s. freed m i m1 \<and> s_layer s = l \<and> s_expert s = e \<and> s_busy s \<and>
     \<not> s_pinned s \<and> s_last_used s = clock m + 1 \<and> slots m' = (slots m)[i := s] \<and>
     slot_map m' = (slot_map m1)(slot_key l e \<mapsto> i) \<and> pinned_count m' = pinned_count m1 \<and>
     used m' = used m @ [i] \<and> clock m' = clock m + 1 \<and> n_layer m' = n_layer m \<and>
     max_pinned m' = max_pinned m \<and> freq m' = freq m \<and>
     contents m' = (contents m)(i := Some (arena_slab A l e)) \<and> map fst (dma m') = pending m' \<and>
     set (pending m') \<subseteq> {..<n_slots m})"

lemma acquire_miss:
  assumes inv: "slot_inv A m" and k: "slot_map m (slot_key l e) = None"
    and a: "acquire A m l e = Some (m', Some i)"
  shows "placed A m l e i m'"
proof -
  obtain m1 r where c: "choose_slot m = (m1, r)" by fastforce
  with k a have r: "r = Some i"
    by (auto simp: acquire_def split: option.splits)
  from choose_slot_freed [OF inv] c r have f: "freed m i m1" by simp
  from k a c r f show ?thesis
    unfolding placed_def
    by (intro exI [of _ m1] exI [of _ "slots m' ! i"])
      (auto simp: acquire_def start_copy_def Let_def freed_def contents_def split: option.splits if_splits)
qed

lemma placed_inv:
  assumes inv: "slot_inv A m" and k: "slot_map m (slot_key l e) = None"
    and r: "0 \<le> l" "l < 2 ^ 31" "0 \<le> e" "e < 2 ^ 31" and p: "placed A m l e i m'"
  shows "slot_inv A m'"
proof -
  from p obtain m1 s where f: "freed m i m1" and s: "s_layer s = l" "s_expert s = e" "s_busy s"
      "\<not> s_pinned s" "slots m' = (slots m)[i := s]"
    and p': "slot_map m' = (slot_map m1)(slot_key l e \<mapsto> i)" "pinned_count m' = pinned_count m1"
     "used m' = used m @ [i]" "max_pinned m' = max_pinned m"
     "contents m' = (contents m)(i := Some (arena_slab A l e))" "map fst (dma m') = pending m'"
     "set (pending m') \<subseteq> {..<n_slots m}"
    unfolding placed_def by blast
  let ?old = "slot_key (s_layer (slots m ! i)) (s_expert (slots m ! i))"
  from f have i: "i < n_slots m" and b: "\<not> s_busy (slots m ! i)"
    and sm: "slot_map m1 = (if 0 \<le> s_layer (slots m ! i) then (slot_map m)(?old := None) else slot_map m)"
    and pc: "pinned_count m1 = pinned_count m - (if s_pinned (slots m ! i) then 1 else 0)"
    by (simp_all add: freed_def)
  from inv have mo: "map_ok m" and po: "pins_ok m" and so: "step_ok m" and d: "data_ok A m"
    by (simp_all add: slot_inv_def)
  have sm': "slot_map m' key = (if key = slot_key l e then Some i
      else if 0 \<le> s_layer (slots m ! i) \<and> key = ?old then None else slot_map m key)" for key
    by (simp add: p'(1) sm)
  have old: "slot_map m key = Some i \<Longrightarrow> 0 \<le> s_layer (slots m ! i) \<and> key = ?old" for key
    using mo by (simp add: map_ok_def)
  have mo_i: "0 \<le> s_layer (slots m ! i) \<Longrightarrow> slot_map m ?old = Some i"
    using mo i by (simp add: map_ok_def)
  show ?thesis
  proof (rule slot_invI)
    show "map_ok m'"
      unfolding map_ok_def
    proof (intro conjI allI impI)
      fix j assume j: "j < n_slots m'" "0 \<le> s_layer (slots m' ! j)"
      show "s_layer (slots m' ! j) < 2 ^ 31" "0 \<le> s_expert (slots m' ! j)" "s_expert (slots m' ! j) < 2 ^ 31"
        using j r s i mo by (cases "j = i"; simp add: map_ok_def)+
      show "slot_map m' (slot_key (s_layer (slots m' ! j)) (s_expert (slots m' ! j))) = Some j"
      proof (cases "j = i")
        case True with s i show ?thesis by (simp add: sm')
      next
        case False
        with j s have js: "slots m' ! j = slots m ! j" "j < n_slots m" "0 \<le> s_layer (slots m ! j)" by simp_all
        with mo have sj: "slot_map m (slot_key (s_layer (slots m ! j)) (s_expert (slots m ! j))) = Some j"
          by (simp add: map_ok_def)
        have "\<not> (0 \<le> s_layer (slots m ! i) \<and> slot_key (s_layer (slots m ! j)) (s_expert (slots m ! j)) = ?old)"
          using old sj False by (metis mo_i option.inject)
        with sj k show ?thesis unfolding js(1) sm' by (metis option.distinct(1))
      qed
    next
      fix key j assume kj: "slot_map m' key = Some j"
      have "j < n_slots m' \<and> 0 \<le> s_layer (slots m' ! j) \<and>
          key = slot_key (s_layer (slots m' ! j)) (s_expert (slots m' ! j))"
      proof (cases "key = slot_key l e")
        case True with kj i r s show ?thesis by (auto simp: sm')
      next
        case False
        with kj have kj': "slot_map m key = Some j"
          and ko: "\<not> (0 \<le> s_layer (slots m ! i) \<and> key = ?old)"
          by (simp_all add: sm' split: if_splits)
        with old [of key] have "j \<noteq> i" by auto
        with kj' mo s show ?thesis by (simp add: map_ok_def)
      qed
      then show "j < n_slots m'" "0 \<le> s_layer (slots m' ! j)"
          "key = slot_key (s_layer (slots m' ! j)) (s_expert (slots m' ! j))" by blast+
    qed
    show "pins_ok m'"
      using po i s p'(4) length_filter_update [of i "slots m" s_pinned s]
      by (auto simp: pins_ok_def p'(2) pc nth_list_update)
    show "step_ok m'"
      using so i s r p'(3,6,7) by (auto simp: step_ok_def nth_list_update)
    show "data_ok A m'"
      using d s i by (auto simp: data_ok_def p'(5) nth_list_update)
  qed
qed

section \<open>Every operation keeps the invariant\<close>

text \<open>A lookup or a hit touches one slot: its expert and its reservation stay.\<close>

definition touched :: "'b SlotMgr \<Rightarrow> nat \<Rightarrow> 'b SlotMgr \<Rightarrow> bool" where
  "touched m i m' \<longleftrightarrow> (\<exists>s. slots m' = (slots m)[i := s] \<and> s_layer s = s_layer (slots m ! i) \<and>
     s_expert s = s_expert (slots m ! i) \<and> s_busy s = s_busy (slots m ! i) \<and>
     s_last_used s = clock m + 1 \<and>
     pinned_count m' = pinned_count m - (if s_pinned (slots m ! i) then 1 else 0)
       + (if s_pinned s then 1 else 0)) \<and>
   (pinned_count m \<le> int (max_pinned m) \<longrightarrow> pinned_count m' \<le> int (max_pinned m)) \<and>
   slot_map m' = slot_map m \<and> clock m' = clock m + 1 \<and> n_layer m' = n_layer m \<and>
   max_pinned m' = max_pinned m \<and> freq m' = freq m \<and> dma m' = dma m \<and> pool m' = pool m \<and>
   pending m' = pending m"

lemma nth_upd_field: "f y = f (xs ! i) \<Longrightarrow> f (xs[i := y] ! j) = f (xs ! j)"
  by (metis list_update_beyond linorder_not_le nth_list_update_eq nth_list_update_neq)

lemma touched_nth:
  assumes "touched m i m'"
  shows "n_slots m' = n_slots m"
    and "s_layer (slots m' ! j) = s_layer (slots m ! j)"
    and "s_expert (slots m' ! j) = s_expert (slots m ! j)"
    and "s_busy (slots m' ! j) = s_busy (slots m ! j)"
    and "contents m' = contents m"
proof -
  from assms obtain s where s: "slots m' = (slots m)[i := s]" "s_layer s = s_layer (slots m ! i)"
     "s_expert s = s_expert (slots m ! i)" "s_busy s = s_busy (slots m ! i)"
    and c: "dma m' = dma m" "pool m' = pool m"
    unfolding touched_def by blast
  from s show "n_slots m' = n_slots m" "s_layer (slots m' ! j) = s_layer (slots m ! j)"
    "s_expert (slots m' ! j) = s_expert (slots m ! j)" "s_busy (slots m' ! j) = s_busy (slots m ! j)"
    by (simp_all add: nth_upd_field)
  from c show "contents m' = contents m" by (rule contents_cong)
qed

lemma touched_inv:
  assumes inv: "slot_inv A m" and t: "touched m i m'" and i: "i < n_slots m" "0 \<le> s_layer (slots m ! i)"
    and u: "used m' = used m \<or> used m' = used m @ [i]"
  shows "slot_inv A m'"
proof (rule slot_invI)
  note n = touched_nth [OF t]
  from t obtain s where s: "slots m' = (slots m)[i := s]" 
      "s_layer s = s_layer (slots m ! i)"
      "pinned_count m' = pinned_count m - (if s_pinned (slots m ! i) then 1 else 0) + (if s_pinned s then 1 else 0)"
    and b: "pinned_count m \<le> int (max_pinned m) \<longrightarrow> pinned_count m' \<le> int (max_pinned m)"
    and r: "slot_map m' = slot_map m" "max_pinned m' = max_pinned m" "dma m' = dma m" "pending m' = pending m"
    unfolding touched_def by blast
  show "map_ok m'" using inv by (simp add: slot_inv_def map_ok_def n r)
  show "step_ok m'" using inv u i by (auto simp: slot_inv_def step_ok_def n r)
  show "data_ok A m'" using inv by (simp add: slot_inv_def data_ok_def n)
  have "\<not> s_pinned (slots m' ! j)" if "j < n_slots m" "s_layer (slots m' ! j) < 0" for j
  proof -
    from that i n(2) [of j] have "j \<noteq> i" by auto
    with that inv n(2) [of j] s(1) show ?thesis by (simp add: slot_inv_def pins_ok_def)
  qed
  then show "pins_ok m'"
    using inv b s i length_filter_update [OF i(1), of s_pinned s]
    by (simp add: slot_inv_def pins_ok_def n r(2))
qed

lemma find_slot_None: "find_slot m l e = (m', None) \<Longrightarrow>
  slot_map m (slot_key l e) = None \<and>
  m' = upd_stats (\<lambda>t. t\<lparr>st_lookups := st_lookups t + 1\<rparr>) m"
  by (auto simp: find_slot_def Let_def split: option.splits)

lemma find_slot_Some:
  assumes "find_slot m l e = (m', Some i)"
  shows "slot_map m (slot_key l e) = Some i" and "i < n_slots m \<Longrightarrow> touched m i m'" and "used m' = used m"
proof -
  from assms show k: "slot_map m (slot_key l e) = Some i"
    by (auto simp: find_slot_def Let_def split: option.splits)
  from assms k show "i < n_slots m \<Longrightarrow> touched m i m'"
    unfolding touched_def
    by (intro conjI exI [of _ "slots m' ! i"])
      (auto simp: find_slot_def Let_def split: option.splits if_splits)
  from assms k show "used m' = used m"
    by (auto simp: find_slot_def Let_def split: option.splits if_splits)
qed

lemma upd_stats_inv [simp]: "slot_inv A (upd_stats g m) = slot_inv A m"
  by (simp add: slot_inv_def map_ok_def pins_ok_def step_ok_def data_ok_def contents_def)

lemma map_slot:
  assumes "slot_inv A m" and "slot_map m k = Some i"
  shows "i < n_slots m" and "0 \<le> s_layer (slots m ! i)"
    and "k = slot_key (s_layer (slots m ! i)) (s_expert (slots m ! i))"
  using assms by (auto simp: slot_inv_def map_ok_def)

lemma find_slot_inv:
  assumes inv: "slot_inv A m"
  shows "slot_inv A (fst (find_slot m l e))"
proof (cases "find_slot m l e")
  case (Pair m' r)
  show ?thesis
  proof (cases r)
    case None
    with Pair inv find_slot_None [of m l e m'] show ?thesis by simp
  next
    case (Some i)
    with Pair have f: "find_slot m l e = (m', Some i)" by simp
    note k = find_slot_Some [OF f]
    from touched_inv [OF inv k(2) map_slot(1,2) [OF inv k(1)]] map_slot(1) [OF inv k(1)] k(3)
    show ?thesis by (simp add: f)
  qed
qed

lemma acquire_hit:
  assumes "slot_map m (slot_key l e) = Some i" and "acquire A m l e = Some (m', r)"
  shows "r = Some i" and "i < n_slots m \<Longrightarrow> touched m i m'" and "used m' = used m @ [i]"
proof -
  from assms show "r = Some i" "used m' = used m @ [i]"
    by (auto simp: acquire_def Let_def)
  from assms show "i < n_slots m \<Longrightarrow> touched m i m'"
    unfolding touched_def
    by (intro conjI exI [of _ "slots m' ! i"]) (auto simp: acquire_def Let_def)
qed

lemma acquire_None:
  assumes "step_ok m" and "slot_map m (slot_key l e) = None" and "acquire A m l e = Some (m', None)"
  shows "m' = sync_copies m"
proof -
  obtain m1 r where c: "choose_slot m = (m1, r)" by fastforce
  with assms have "r = None" "m' = m1" by (auto simp: acquire_def split: option.splits)
  with choose_slot_None(1) [OF assms(1)] c show ?thesis by simp
qed

lemma acquire_inv:
  assumes inv: "slot_inv A m" and r: "0 \<le> l" "l < 2 ^ 31" "0 \<le> e" "e < 2 ^ 31"
    and a: "acquire A m l e = Some (m', res)"
  shows "slot_inv A m'"
proof (cases "slot_map m (slot_key l e)")
  case (Some i)
  note h = acquire_hit [OF Some a] and k = map_slot [OF inv Some]
  from touched_inv [OF inv h(2) [OF k(1)] k(1,2)] h(3) show ?thesis by simp
next
  case None
  show ?thesis
  proof (cases res)
    case (Some i)
    with a have "acquire A m l e = Some (m', Some i)" by simp
    from placed_inv [OF inv None r acquire_miss [OF inv None this]] show ?thesis .
  next
    case res: None
    from inv have "step_ok m" by (simp add: slot_inv_def)
    from acquire_None [OF this None] a res have "m' = sync_copies m" by simp
    with sync_inv(1) [OF inv] show ?thesis by simp
  qed
qed

lemma note_request_inv [simp]: "slot_inv A (note_request m l e) = slot_inv A m"
  by (simp add: note_request_def Let_def slot_inv_def map_ok_def pins_ok_def step_ok_def
      data_ok_def contents_def)

lemma recompute_hot_inv [simp]: "slot_inv A (recompute_hot m) = slot_inv A m"
  by (simp add: recompute_hot_def Let_def slot_inv_def map_ok_def pins_ok_def step_ok_def
      data_ok_def contents_def)

lemma begin_step_inv:
  assumes "slot_inv A m" and "\<forall>i < n_slots m. \<not> s_busy (slots m ! i)"
  shows "slot_inv A (begin_step m)"
  using assms
  by (simp add: begin_step_def slot_inv_def map_ok_def pins_ok_def step_ok_def data_ok_def contents_def)

lemma reserve_sel:
  "n_slots (reserve m i) = n_slots m" "slot_map (reserve m i) = slot_map m"
  "contents (reserve m i) = contents m" "clock (reserve m i) = clock m"
  "s_layer (slots (reserve m i) ! j) = s_layer (slots m ! j)"
  "s_expert (slots (reserve m i) ! j) = s_expert (slots m ! j)"
  "s_last_used (slots (reserve m i) ! j) = s_last_used (slots m ! j)"
  "j < n_slots m \<Longrightarrow> s_busy (slots (reserve m i) ! j) = (s_busy (slots m ! j) \<or> j = i)"
  by (auto simp: reserve_def contents_def nth_list_update)

lemma reserve_inv:
  assumes inv: "slot_inv A m" and l: "i < n_slots m \<Longrightarrow> 0 \<le> s_layer (slots m ! i)"
  shows "slot_inv A (reserve m i)"
proof (rule slot_invI)
  show "map_ok (reserve m i)" using inv by (simp add: slot_inv_def map_ok_def reserve_sel)
  show "data_ok A (reserve m i)" using inv by (simp add: slot_inv_def data_ok_def reserve_sel)
  show "step_ok (reserve m i)"
    using inv l by (auto simp: slot_inv_def step_ok_def reserve_def nth_list_update)
  show "pins_ok (reserve m i)"
  proof (cases "i < n_slots m \<and> \<not> s_busy (slots m ! i)")
    case True
    have "length (filter s_pinned ((slots m)[i := (slots m ! i)\<lparr>s_busy := True\<rparr>])) =
        length (filter s_pinned (slots m))"
      using length_filter_update [of i "slots m" s_pinned "(slots m ! i)\<lparr>s_busy := True\<rparr>"] True by simp
    with inv True show ?thesis
      by (auto simp: reserve_def slot_inv_def pins_ok_def nth_list_update)
  next
    case False
    with inv show ?thesis by (auto simp: reserve_def slot_inv_def)
  qed
qed

definition unbusy :: "'b SlotMgr \<Rightarrow> nat list \<Rightarrow> 'b SlotMgr" where
  "unbusy m is = fold (\<lambda>i m'. if 0 \<le> s_layer (slots m' ! i)
     then upd_slot i (\<lambda>s. s\<lparr>s_busy := False\<rparr>) m' else m') is m"

lemma upd_slot_busy_id: "\<not> s_busy (slots m ! i) \<Longrightarrow> upd_slot i (\<lambda>s. s\<lparr>s_busy := False\<rparr>) m = m"
proof -
  assume "\<not> s_busy (slots m ! i)"
  then have "(slots m ! i)\<lparr>s_busy := False\<rparr> = slots m ! i" by simp
  then show ?thesis by (simp add: upd_slot_def)
qed

lemma unbusy_sel:
  "n_slots (unbusy m is) = n_slots m"
  "s_layer (slots (unbusy m is) ! j) = s_layer (slots m ! j)"
  "s_expert (slots (unbusy m is) ! j) = s_expert (slots m ! j)"
  "s_pinned (slots (unbusy m is) ! j) = s_pinned (slots m ! j)"
  "slot_map (unbusy m is) = slot_map m" "pinned_count (unbusy m is) = pinned_count m"
  "max_pinned (unbusy m is) = max_pinned m" "pending (unbusy m is) = pending m"
  "dma (unbusy m is) = dma m" "pool (unbusy m is) = pool m"
  "clock (unbusy m is) = clock m" "used (unbusy m is) = used m"
  unfolding unbusy_def
  by (induction "is" arbitrary: m) (simp_all add: nth_upd_field)

lemma unbusy_busy:
  "j < n_slots m \<Longrightarrow> s_busy (slots (unbusy m is) ! j) =
     (s_busy (slots m ! j) \<and> (j \<in> set is \<longrightarrow> s_layer (slots m ! j) < 0))"
proof (induction "is" arbitrary: m)
  case (Cons i "is")
  let ?m = "if 0 \<le> s_layer (slots m ! i) then upd_slot i (\<lambda>s. s\<lparr>s_busy := False\<rparr>) m else m"
  have u: "unbusy m (i # is) = unbusy ?m is" by (simp add: unbusy_def)
  have "j < n_slots ?m" using Cons.prems by simp
  from Cons.IH [OF this] show ?case
    unfolding u using Cons.prems
    by (cases "0 \<le> s_layer (slots m ! i)"; cases "j = i") (auto simp: nth_list_update)
qed (simp add: unbusy_def)

lemma filter_pinned_cong:
  assumes "length xs = length ys" and "\<And>j. j < length xs \<Longrightarrow> s_pinned (xs ! j) = s_pinned (ys ! j)"
  shows "length (filter s_pinned xs) = length (filter s_pinned ys)"
proof -
  have "map s_pinned xs = map s_pinned ys" using assms by (simp add: list_eq_iff_nth_eq)
  moreover have "length (filter s_pinned zs) = length (filter id (map s_pinned zs))" for zs
    by (simp add: filter_map comp_def)
  ultimately show ?thesis by metis
qed

lemma end_step_alt: "end_step d m =
  (let m2 = (unbusy m (used m))\<lparr>used := [], since_rank := since_rank (unbusy m (used m)) + 1\<rparr>
   in if d then recompute_hot m2 else m2)"
  by (simp add: end_step_def unbusy_def Let_def)

lemma recompute_hot_sel [simp]: "slots (recompute_hot m) = slots m"
  "slot_map (recompute_hot m) = slot_map m" "clock (recompute_hot m) = clock m"
  "contents (recompute_hot m) = contents m" "freq (recompute_hot m) = freq m"
  "n_layer (recompute_hot m) = n_layer m" "pinned_count (recompute_hot m) = pinned_count m"
  "max_pinned (recompute_hot m) = max_pinned m" "used (recompute_hot m) = used m"
  by (simp_all add: recompute_hot_def Let_def contents_def)

lemma end_step_inv:
  assumes inv: "slot_inv A m"
  shows "slot_inv A (end_step d m)"
    and "i < n_slots m \<Longrightarrow> \<not> s_busy (slots (end_step d m) ! i)"
    and "n_slots (end_step d m) = n_slots m" and "clock (end_step d m) = clock m"
proof -
  let ?m = "(unbusy m (used m))\<lparr>used := [], since_rank := since_rank (unbusy m (used m)) + 1\<rparr>"
  have e: "end_step d m = (if d then recompute_hot ?m else ?m)" by (simp add: end_step_alt Let_def)
  have nb: "\<not> s_busy (slots ?m ! i)" if "i < n_slots m" for i
    using that inv by (fastforce simp: unbusy_busy slot_inv_def step_ok_def)
  have "length (filter s_pinned (slots (unbusy m (used m)))) = length (filter s_pinned (slots m))"
    by (rule filter_pinned_cong) (simp_all add: unbusy_sel)
  then have "slot_inv A ?m"
    using inv nb
    by (simp add: slot_inv_def map_ok_def pins_ok_def step_ok_def data_ok_def contents_def unbusy_sel)
  with e show "slot_inv A (end_step d m)" by simp
  from nb e show "i < n_slots m \<Longrightarrow> \<not> s_busy (slots (end_step d m) ! i)" by simp
  from e show "n_slots (end_step d m) = n_slots m" "clock (end_step d m) = clock m"
    by (simp_all add: unbusy_sel)
qed

lemma force_loop_inv:
  assumes "slot_inv A m" and r: "0 \<le> l" "l < 2 ^ 31" "0 \<le> e" "e < 2 ^ 31"
    and "force_loop A k m l e = Some (m', res)"
  shows "slot_inv A m'"
  using assms(1,6)
proof (induction k arbitrary: m)
  case (Suc k)
  show ?case
  proof (cases "lru_scan m (\<lambda>i. i \<in> set (used m))")
    case (Some i)
    let ?m1 = "if s_pinned (slots m ! i)
       then (upd_slot i (\<lambda>s. s\<lparr>s_pinned := False\<rparr>) m)
         \<lparr>pinned_count := (if pinned_count m > 0 then pinned_count m - 1 else pinned_count m)\<rparr>
       else m"
    let ?m2 = "upd_slot i (\<lambda>s. s\<lparr>s_busy := False\<rparr>) ?m1"
    from Some have i: "i < n_slots m" "i \<notin> set (used m)"
      unfolding lru_scan_def by (auto dest: min_scan_Some(1) min_scan_Some(2))
    with Suc.prems(1) have nb: "\<not> s_busy (slots m ! i)"
      by (auto simp: slot_inv_def step_ok_def)
    have m2: "?m2 = ?m1"
      by (rule upd_slot_busy_id) (use nb i in simp)
    have inv2: "slot_inv A ?m2"
    proof (cases "s_pinned (slots m ! i)")
      case True
      let ?y = "(slots m ! i)\<lparr>s_pinned := False\<rparr>"
      from length_filter_update [OF i(1), of s_pinned ?y] True
      have lf: "int (length (filter s_pinned ((slots m)[i := ?y]))) =
          int (length (filter s_pinned (slots m))) - 1" by simp
      moreover have "0 \<le> int (length (filter s_pinned ((slots m)[i := ?y])))" by simp
      moreover have "pinned_count m = int (length (filter s_pinned (slots m)))"
        using Suc.prems(1) by (simp add: slot_inv_def pins_ok_def)
      ultimately have "0 < pinned_count m" by linarith
      moreover have "slots ?m1 ! j = (if j = i then ?y else slots m ! j)" for j
        using True i by (simp add: nth_list_update)
      ultimately show ?thesis
        unfolding m2 using Suc.prems(1) True i lf
        by (auto simp: slot_inv_def map_ok_def pins_ok_def step_ok_def data_ok_def contents_def nth_list_update)
    next
      case False
      with m2 Suc.prems(1) show ?thesis by simp
    qed
    from Suc.prems(2) Some have fl: "(case acquire A ?m2 l e of
        None \<Rightarrow> None
      | Some (m3, Some j) \<Rightarrow> Some (m3, Some j)
      | Some (m3, None) \<Rightarrow> force_loop A k m3 l e) = Some (m', res)"
      by (simp only: force_loop.simps option.case Let_def)
    then obtain m3 r3 where a: "acquire A ?m2 l e = Some (m3, r3)"
      by (auto split: option.splits)
    from acquire_inv [OF inv2 r a] have i3: "slot_inv A m3" .
    show ?thesis
    proof (cases r3)
      case None
      with fl a have "force_loop A k m3 l e = Some (m', res)" by (simp only: option.case prod.case)
      with Suc.IH i3 show ?thesis by blast
    next
      case (Some j)
      with fl a have "m3 = m'" by (simp only: option.case prod.case) simp
      with i3 show ?thesis by simp
    qed
  qed (use Suc.prems in simp)
qed simp

lemma force_resident_inv:
  assumes "slot_inv A m" and r: "0 \<le> l" "l < 2 ^ 31" "0 \<le> e" "e < 2 ^ 31"
    and "force_resident A m l e = Some (m', res)"
  shows "slot_inv A m'"
proof (cases "find_slot m l e")
  case (Pair m1 r1)
  with find_slot_inv [OF assms(1), of l e] have i: "slot_inv A m1" by simp
  show ?thesis
    using assms(6) i force_loop_inv [OF i r] Pair
    by (cases r1) (auto simp: force_resident_def)
qed

lemma init_inv:
  assumes "init_from_pool nl ns path file mem = Some m"
  shows "slot_inv A m" and "i < n_slots m \<Longrightarrow> \<not> s_busy (slots m ! i)"
  using assms
  by (auto simp: init_from_pool_def Let_def slot_inv_def map_ok_def pins_ok_def step_ok_def
      data_ok_def Slot_new_def recompute_hot_def split: if_splits)

text \<open>The operations as a transition relation, with the protocol of the caller: a step begins
  when no slot is reserved, slots are reserved only while they hold an expert, and layers and
  experts are non-negative 32-bit integers.\<close>

inductive slot_step :: "'b Arena \<Rightarrow> 'b SlotMgr \<Rightarrow> 'b SlotMgr \<Rightarrow> bool" for A where
  request: "slot_step A m (note_request m l e)"
| lookup: "slot_step A m (fst (find_slot m l e))"
| acquire: "0 \<le> l \<Longrightarrow> l < 2 ^ 31 \<Longrightarrow> 0 \<le> e \<Longrightarrow> e < 2 ^ 31 \<Longrightarrow>
    acquire A m l e = Some (m', r) \<Longrightarrow> slot_step A m m'"
| force: "0 \<le> l \<Longrightarrow> l < 2 ^ 31 \<Longrightarrow> 0 \<le> e \<Longrightarrow> e < 2 ^ 31 \<Longrightarrow>
    force_resident A m l e = Some (m', r) \<Longrightarrow> slot_step A m m'"
| reserve: "(i < n_slots m \<Longrightarrow> 0 \<le> s_layer (slots m ! i)) \<Longrightarrow> slot_step A m (reserve m i)"
| sync: "slot_step A m (sync_copies m)"
| begin_step: "(\<forall>i < n_slots m. \<not> s_busy (slots m ! i)) \<Longrightarrow> slot_step A m (begin_step m)"
| end_step: "slot_step A m (end_step d m)"

inductive slot_reachable :: "'b Arena \<Rightarrow> 'b SlotMgr \<Rightarrow> bool" for A where
  init: "init_from_pool nl ns path file mem = Some m \<Longrightarrow> slot_reachable A m"
| step: "slot_reachable A m \<Longrightarrow> slot_step A m m' \<Longrightarrow> slot_reachable A m'"

lemma slot_step_inv:
  assumes "slot_step A m m'" and inv: "slot_inv A m"
  shows "slot_inv A m'"
  using assms(1)
proof cases
  case (request l e)
  with inv show ?thesis by simp
next
  case (lookup l e)
  with find_slot_inv [OF inv] show ?thesis by simp
next
  case (acquire l e r)
  with acquire_inv [OF inv] show ?thesis by blast
next
  case (force l e r)
  with force_resident_inv [OF inv] show ?thesis by blast
next
  case (reserve i)
  with reserve_inv [OF inv] show ?thesis by blast
next
  case sync
  with sync_inv(1) [OF inv] show ?thesis by simp
next
  case begin_step
  with begin_step_inv [OF inv] show ?thesis by simp
next
  case (end_step d)
  with end_step_inv(1) [OF inv] show ?thesis by simp
qed

lemma slot_reachable_inv: "slot_reachable A m \<Longrightarrow> slot_inv A m"
  by (induction rule: slot_reachable.induct) (auto intro: init_inv(1) slot_step_inv)

section \<open>The interface of the layer's loop\<close>

text \<open>What the loop relies on: while the pool is ready for \<open>k + 1\<close> more requests, a request
  succeeds, keeps everything that is already held and adds the expert asked for.\<close>

fun request_all :: "('m \<Rightarrow> nat \<Rightarrow> 'm option) \<Rightarrow> nat list \<Rightarrow> 'm \<Rightarrow> 'm option" where
  "request_all req [] m = Some m"
| "request_all req (e # es) m = (case req m e of None \<Rightarrow> None | Some m1 \<Rightarrow> request_all req es m1)"

locale expert_pool =
  fixes req :: "'m \<Rightarrow> nat \<Rightarrow> 'm option"
    and ready :: "nat \<Rightarrow> 'm \<Rightarrow> bool"
    and held :: "'m \<Rightarrow> nat set"
    and valid :: "nat \<Rightarrow> bool"
  assumes request_grants: "ready (Suc k) m \<Longrightarrow> valid e \<Longrightarrow>
    \<exists>m'. req m e = Some m' \<and> ready k m' \<and> held m' = insert e (held m)"
begin

lemma request_all_grants:
  "ready (length es + k) m \<Longrightarrow> \<forall>e \<in> set es. valid e \<Longrightarrow>
   \<exists>m'. request_all req es m = Some m' \<and> ready k m' \<and> held m' = set es \<union> held m"
proof (induction es arbitrary: m)
  case (Cons e es)
  from request_grants [of "length es + k" m e] Cons.prems obtain m1
    where m1: "req m e = Some m1" "ready (length es + k) m1" "held m1 = insert e (held m)" by auto
  from Cons.IH [OF m1(2)] Cons.prems(2) m1(1,3) show ?case by auto
qed simp

end

definition arena_fits :: "'b Arena \<Rightarrow> int \<Rightarrow> bool" where
  "arena_fits A l \<longleftrightarrow> 0 \<le> l \<and> l < 2 ^ 31 \<and>
     (case layout_stride A l of None \<Rightarrow> False | Some b \<Rightarrow> b \<le> slot_stride A)"

definition clock_ok :: "nat \<Rightarrow> 'b SlotMgr \<Rightarrow> bool" where
  "clock_ok k m \<longleftrightarrow> (\<forall>i < n_slots m. s_last_used (slots m ! i) \<le> clock m) \<and>
     unat (clock m) + k < 2 ^ 64 - 1"

definition busy_set :: "'b SlotMgr \<Rightarrow> nat set" where
  "busy_set m = {i. i < n_slots m \<and> s_busy (slots m ! i)}"

definition moe_ready :: "'b Arena \<Rightarrow> int \<Rightarrow> nat \<Rightarrow> nat \<Rightarrow> 'b SlotMgr \<Rightarrow> bool" where
  "moe_ready A l c k m \<longleftrightarrow> arena_fits A l \<and> slot_inv A m \<and> clock_ok (c + k) m \<and>
     (\<forall>i \<in> busy_set m. s_layer (slots m ! i) = l) \<and> card (busy_set m) + k \<le> n_slots m"

definition held_experts :: "int \<Rightarrow> 'b SlotMgr \<Rightarrow> nat set" where
  "held_experts l m =
     {e. \<exists>i \<in> busy_set m. s_layer (slots m ! i) = l \<and> s_expert (slots m ! i) = int e}"

text \<open>The effect of one request, whether it hits or misses.\<close>

definition grabbed :: "int \<Rightarrow> nat \<Rightarrow> 'b SlotMgr \<Rightarrow> 'b SlotMgr \<Rightarrow> bool" where
  "grabbed l e m m' \<longleftrightarrow> n_slots m' = n_slots m \<and> clock m' = clock m + 1 \<and>
     (\<forall>j < n_slots m. s_last_used (slots m' ! j) = s_last_used (slots m ! j) \<or>
        s_last_used (slots m' ! j) = clock m + 1) \<and>
     (\<exists>i < n_slots m. s_layer (slots m' ! i) = l \<and> s_expert (slots m' ! i) = int e \<and>
        s_busy (slots m' ! i) \<and>
        (s_busy (slots m ! i) \<longrightarrow> s_layer (slots m ! i) = l \<and> s_expert (slots m ! i) = int e) \<and>
        (\<forall>j < n_slots m. j \<noteq> i \<longrightarrow> s_layer (slots m' ! j) = s_layer (slots m ! j) \<and>
           s_expert (slots m' ! j) = s_expert (slots m ! j) \<and>
           s_busy (slots m' ! j) = s_busy (slots m ! j)))"

lemma clock_step:
  assumes "unat (c :: 64 word) + Suc k < 2 ^ 64 - 1"
  shows "unat (c + 1) = unat c + 1" and "x \<le> c \<Longrightarrow> x \<le> c + 1"
proof -
  show u: "unat (c + 1) = unat c + 1"
    using assms by (simp add: unat_word_ariths)
  show "x \<le> c \<Longrightarrow> x \<le> c + 1" by (simp add: word_le_nat_alt u)
qed

lemma clock_ok_step:
  assumes "clock_ok (Suc k) m" and "n_slots m' = n_slots m" "clock m' = clock m + 1"
    and "\<And>j. j < n_slots m \<Longrightarrow> s_last_used (slots m' ! j) = s_last_used (slots m ! j) \<or>
        s_last_used (slots m' ! j) = clock m + 1"
  shows "clock_ok k m'"
proof -
  from assms(1) have u: "unat (clock m) + Suc k < 2 ^ 64 - 1" by (simp add: clock_ok_def)
  note c = clock_step [OF u]
  show ?thesis
    unfolding clock_ok_def assms(2,3)
    using assms(1,4) c(2) u by (auto simp: clock_ok_def c(1)) (metis c(2) order_refl)
qed

lemma grabbed_ready:
  assumes r: "moe_ready A l c (Suc k) m" and g: "grabbed l e m m'" and inv: "slot_inv A m'"
  shows "moe_ready A l c k m'" and "held_experts l m' = insert e (held_experts l m)"
proof -
  from g obtain i where i: "i < n_slots m" "s_layer (slots m' ! i) = l"
      "s_expert (slots m' ! i) = int e" "s_busy (slots m' ! i)"
      "s_busy (slots m ! i) \<longrightarrow> s_layer (slots m ! i) = l \<and> s_expert (slots m ! i) = int e"
    and o: "\<And>j. j < n_slots m \<Longrightarrow> j \<noteq> i \<Longrightarrow> s_layer (slots m' ! j) = s_layer (slots m ! j) \<and>
           s_expert (slots m' ! j) = s_expert (slots m ! j) \<and>
           s_busy (slots m' ! j) = s_busy (slots m ! j)"
    and n: "n_slots m' = n_slots m" "clock m' = clock m + 1"
    unfolding grabbed_def by blast
  have b: "busy_set m' = insert i (busy_set m)"
    using i o n by (auto simp: busy_set_def)
  have fin: "finite (busy_set m)" by (simp add: busy_set_def)
  have "card (busy_set m') \<le> Suc (card (busy_set m))"
    unfolding b using fin by (simp add: card_insert_if)
  moreover have "clock_ok (c + k) m'"
    by (rule clock_ok_step) (use r g in \<open>auto simp: moe_ready_def grabbed_def\<close>)
  moreover have "\<forall>j \<in> busy_set m'. s_layer (slots m' ! j) = l"
  proof
    fix j assume j: "j \<in> busy_set m'"
    show "s_layer (slots m' ! j) = l"
      using j i o [of j] r b by (cases "j = i") (auto simp: moe_ready_def busy_set_def)
  qed
  ultimately show "moe_ready A l c k m'"
    using r inv n by (simp add: moe_ready_def)
  show "held_experts l m' = insert e (held_experts l m)"
  proof (intro set_eqI)
    fix x
    show "x \<in> held_experts l m' \<longleftrightarrow> x \<in> insert e (held_experts l m)"
    proof
      assume "x \<in> held_experts l m'"
      then obtain j where j: "j \<in> busy_set m'" "s_layer (slots m' ! j) = l" "s_expert (slots m' ! j) = int x"
        by (auto simp: held_experts_def)
      show "x \<in> insert e (held_experts l m)"
      proof (cases "j = i")
        case True with j i show ?thesis by simp
      next
        case False
        with j b have "j \<in> busy_set m" by simp
        with False j o [of j] show ?thesis by (auto simp: held_experts_def busy_set_def)
      qed
    next
      assume x: "x \<in> insert e (held_experts l m)"
      show "x \<in> held_experts l m'"
      proof (cases "x = e")
        case True with i n show ?thesis by (auto simp: held_experts_def busy_set_def)
      next
        case False
        with x obtain j where j: "j \<in> busy_set m" "s_layer (slots m ! j) = l" "s_expert (slots m ! j) = int x"
          by (auto simp: held_experts_def)
        with False i have "j \<noteq> i" by (auto simp: busy_set_def)
        with j o [of j] b show ?thesis by (auto simp: held_experts_def busy_set_def)
      qed
    qed
  qed
qed

lemma note_request_sel [simp]:
  "slots (note_request m l e) = slots m" "slot_map (note_request m l e) = slot_map m"
  "clock (note_request m l e) = clock m" "used (note_request m l e) = used m"
  by (simp_all add: note_request_def Let_def)

lemma slot_key_at:
  assumes "slot_inv A m" and "slot_map m (slot_key l (int e)) = Some i"
    and "0 \<le> l" "l < 2 ^ 31" "e < 2 ^ 31"
  shows "s_layer (slots m ! i) = l" and "s_expert (slots m ! i) = int e"
proof -
  note k = map_slot [OF assms(1,2)]
  from assms(1) k have r: "s_layer (slots m ! i) < 2 ^ 31" "0 \<le> s_expert (slots m ! i)"
      "s_expert (slots m ! i) < 2 ^ 31"
    by (simp_all add: slot_inv_def map_ok_def)
  have "int e < 2 ^ 31" using assms(5) by simp
  from slot_key_inj [OF k(3) assms(3,4) k(2) r(1) _ this r(2,3)]
  show "s_layer (slots m ! i) = l" "s_expert (slots m ! i) = int e" by simp_all
qed

lemma touched_grabbed:
  assumes inv: "slot_inv A m" and t: "touched m i m'" and i: "i < n_slots m"
    and l: "s_layer (slots m ! i) = l" "s_expert (slots m ! i) = int e"
  shows "grabbed l e m (reserve m' i)"
proof -
  note n = touched_nth [OF t]
  from t obtain s where s: "slots m' = (slots m)[i := s]" "s_last_used s = clock m + 1"
    and c: "clock m' = clock m + 1"
    unfolding touched_def by blast
  have lu: "s_last_used (slots m' ! j) = s_last_used (slots m ! j) \<or> s_last_used (slots m' ! j) = clock m + 1" for j
    using s i by (cases "j = i") simp_all
  show ?thesis
    unfolding grabbed_def reserve_sel
    using i l by (intro conjI exI [of _ i]) (simp_all add: n c lu reserve_sel)
qed

lemma placed_grabbed:
  assumes "placed A m l (int e) i m'"
  shows "grabbed l e m m'"
proof -
  from assms obtain m1 s where f: "freed m i m1" and s: "s_layer s = l" "s_expert s = int e" "s_busy s"
      "s_last_used s = clock m + 1" "slots m' = (slots m)[i := s]" and c: "clock m' = clock m + 1"
    unfolding placed_def by blast
  from f have i: "i < n_slots m" and b: "\<not> s_busy (slots m ! i)" by (simp_all add: freed_def)
  have lu: "s_last_used (slots m' ! j) = s_last_used (slots m ! j) \<or> s_last_used (slots m' ! j) = clock m + 1" for j
    using s i by (cases "j = i") simp_all
  show ?thesis
    unfolding grabbed_def
    using i b lu by (intro conjI exI [of _ i]) (simp_all add: s c)
qed

text \<open>A pool that is not fully reserved always has a slot to give.\<close>

lemma choose_slot_succeeds:
  assumes inv: "slot_inv A m" and c: "clock_ok k m" and b: "card (busy_set m) < n_slots m"
  shows "\<exists>m1 i. choose_slot m = (m1, Some i)"
proof (rule ccontr)
  assume "\<not> (\<exists>m1 i. choose_slot m = (m1, Some i))"
  then obtain m1 where n: "choose_slot m = (m1, None)"
    by (cases "choose_slot m"; cases "snd (choose_slot m)") auto
  from inv have "step_ok m" by (simp add: slot_inv_def)
  from choose_slot_None(2) [OF this n] have sc: "lru_scan m (\<lambda>i. s_busy (slots m ! i)) = None" .
  have "busy_set m \<noteq> {..<n_slots m}" using b by (metis card_lessThan less_irrefl)
  then obtain j where j: "j < n_slots m" "\<not> s_busy (slots m ! j)" by (auto simp: busy_set_def)
  from min_scan_None [OF sc [unfolded lru_scan_def] j] have "- 1 \<le> s_last_used (slots m ! j)" .
  also have "\<dots> \<le> clock m" using c j by (simp add: clock_ok_def)
  finally have "unat (- 1 :: 64 word) \<le> unat (clock m)" by (simp add: word_le_nat_alt)
  moreover have "unat (- 1 :: 64 word) = 2 ^ 64 - 1"
    by (simp add: unsigned_minus_1_eq_mask mask_eq_exp_minus_1)
  ultimately show False using c by (simp add: clock_ok_def)
qed

lemma acquire_succeeds:
  assumes "choose_slot m = (m1, Some i)" and "slot_map m (slot_key l e) = None" and "arena_fits A l"
  shows "\<exists>m'. acquire A m l e = Some (m', Some i)"
  using assms
  by (auto simp: acquire_def arena_fits_def start_copy_def Let_def split: option.splits)

lemma moe_request_grabs:
  assumes r: "moe_ready A l c (Suc k) m" and e: "e < 2 ^ 31"
  shows "\<exists>m'. moe_request A l m (int e) = Some m' \<and> grabbed l e m m' \<and> slot_inv A m'"
proof -
  let ?m = "note_request m l (int e)"
  from r have l: "0 \<le> l" "l < 2 ^ 31" and inv: "slot_inv A ?m" and fit: "arena_fits A l"
    and co: "clock_ok (c + Suc k) ?m" and bs: "card (busy_set ?m) < n_slots ?m"
    by (simp_all add: moe_ready_def arena_fits_def clock_ok_def busy_set_def)
  have g: "grabbed l e ?m x = grabbed l e m x" for x by (simp add: grabbed_def)
  obtain m1 res where f: "find_slot ?m l (int e) = (m1, res)" by fastforce
  show ?thesis
  proof (cases res)
    case (Some i)
    with f have f': "find_slot ?m l (int e) = (m1, Some i)" by simp
    note k = find_slot_Some [OF f'] and at = slot_key_at [OF inv find_slot_Some(1) [OF f'] l e]
    note ms = map_slot [OF inv k(1)] 
    from k(2) ms(1) have t: "touched ?m i m1" by simp
    from touched_inv [OF inv t ms(1,2)] k(3) have i1: "slot_inv A m1" by simp
    have "slot_inv A (reserve m1 i)"
      by (rule reserve_inv [OF i1]) (use touched_nth(2) [OF t, of i] ms(2) in simp)
    with touched_grabbed [OF inv t ms(1) at] f' show ?thesis
      by (simp add: moe_request_def g)
  next
    case None
    with f find_slot_None [of ?m l "int e" m1]
    have n: "slot_map ?m (slot_key l (int e)) = None"
      and m1: "m1 = upd_stats (\<lambda>t. t\<lparr>st_lookups := st_lookups t + 1\<rparr>) ?m" by simp_all
    have inv1: "slot_inv A m1" and n1: "slot_map m1 (slot_key l (int e)) = None"
      using inv n by (simp_all add: m1)
    from co bs have "clock_ok (c + Suc k) m1" "card (busy_set m1) < n_slots m1"
      by (simp_all add: m1 clock_ok_def busy_set_def)
    from choose_slot_succeeds [OF inv1 this] obtain m2 i where "choose_slot m1 = (m2, Some i)" by blast
    from acquire_succeeds [OF this n1 fit] obtain m' where a: "acquire A m1 l (int e) = Some (m', Some i)"
      by blast
    from acquire_miss [OF inv1 n1 a] have p: "placed A m1 l (int e) i m'" .
    from placed_inv [OF inv1 n1 l _ _ p] e have "slot_inv A m'" by simp
    moreover from placed_grabbed [OF p] have "grabbed l e m m'" by (simp add: m1 grabbed_def)
    ultimately show ?thesis using f None a by (simp add: moe_request_def)
  qed
qed

interpretation moe: expert_pool "\<lambda>m e. moe_request A l m (int e)" "moe_ready A l c"
  "held_experts l" "\<lambda>e. e < 2 ^ 31" for A l c
  by unfold_locales (use moe_request_grabs grabbed_ready in meson)

lemma moe_acquire_loop_alt:
  "moe_acquire_loop A l cnt es m =
     request_all (\<lambda>m e. moe_request A l m (int e)) (filter (\<lambda>e. 0 < cnt e) es) m"
  by (induction es arbitrary: m) (auto split: option.splits)

section \<open>A whole layer step\<close>

text \<open>A lookup moves nothing: map, experts, reservations and contents stay.\<close>

definition unmoved :: "'b SlotMgr \<Rightarrow> 'b SlotMgr \<Rightarrow> bool" where
  "unmoved m m' \<longleftrightarrow> slot_map m' = slot_map m \<and> dma m' = dma m \<and> pool m' = pool m \<and>
     pending m' = pending m \<and> n_slots m' = n_slots m \<and>
     (\<forall>j. s_layer (slots m' ! j) = s_layer (slots m ! j) \<and>
        s_expert (slots m' ! j) = s_expert (slots m ! j))"

lemma unmoved_trans: "unmoved a b \<Longrightarrow> unmoved b c \<Longrightarrow> unmoved a c"
  by (simp add: unmoved_def)

lemma find_slot_facts:
  assumes inv: "slot_inv A m" and c: "clock_ok (Suc k) m" and f: "find_slot m l e = (m', r)"
  shows "slot_inv A m'" and "clock_ok k m'" and "unmoved m m'" and "r = slot_map m (slot_key l e)"
proof -
  from find_slot_inv [OF inv, of l e] f show "slot_inv A m'" by simp
  show "r = slot_map m (slot_key l e)"
    using f find_slot_None [of m l e m'] find_slot_Some(1) [of m l e m'] by (cases r) auto
  show "unmoved m m'"
  proof (cases r)
    case None
    with f find_slot_None [of m l e m'] show ?thesis by (simp add: unmoved_def)
  next
    case (Some i)
    with f have f': "find_slot m l e = (m', Some i)" by simp
    from find_slot_Some(2) [OF f'] map_slot(1) [OF inv find_slot_Some(1) [OF f']]
    have t: "touched m i m'" by simp
    from touched_nth [OF t] t show ?thesis by (simp add: unmoved_def touched_def)
  qed
  show "clock_ok k m'"
  proof (cases r)
    case None
    with f find_slot_None [of m l e m'] c show ?thesis by (simp add: clock_ok_def)
  next
    case (Some i)
    with f have f': "find_slot m l e = (m', Some i)" by simp
    from find_slot_Some(2) [OF f'] map_slot(1) [OF inv find_slot_Some(1) [OF f']]
    have t: "touched m i m'" and i: "i < n_slots m" by simp_all
    then obtain s where s: "slots m' = (slots m)[i := s]" "s_last_used s = clock m + 1" "clock m' = clock m + 1"
      unfolding touched_def by blast
    show ?thesis
      by (rule clock_ok_step [OF c]) (use s i in \<open>auto simp: nth_list_update\<close>)
  qed
qed

lemma count_missing_facts:
  assumes "slot_inv A m" and "clock_ok (k + length es) m" and "count_missing l cnt es m = (m', n)"
  shows "slot_inv A m' \<and> clock_ok k m' \<and> unmoved m m' \<and>
    ((\<forall>e \<in> set es. 0 < cnt e \<longrightarrow> slot_map m (slot_key l (int e)) \<noteq> None) \<longrightarrow> n = 0)"
  using assms
proof (induction es arbitrary: m n m')
  case (Cons e es)
  show ?case
  proof (cases "cnt e \<le> 0")
    case True
    have "clock_ok (k + length es) m" using Cons.prems(2) by (simp add: clock_ok_def)
    with Cons True show ?thesis by auto
  next
    case False
    obtain m1 r where f: "find_slot m l (int e) = (m1, r)" by fastforce
    from Cons.prems(2) have c: "clock_ok (Suc (k + length es)) m" by simp
    note ff = find_slot_facts [OF Cons.prems(1) c f]
    obtain m2 n2 where g: "count_missing l cnt es m1 = (m2, n2)" by fastforce
    from Cons.IH [OF ff(1,2) g] Cons.prems(3) f g False ff(3,4) show ?thesis
      by (auto simp: unmoved_def)
  qed
qed (simp add: unmoved_def)

lemma moe_tables_facts:
  assumes "slot_inv A m" and "clock_ok (k + length es) m" and "moe_tables l cnt es m = (m', bs)"
  shows "slot_inv A m' \<and> clock_ok k m' \<and> unmoved m m' \<and>
    bs = map (\<lambda>e. case slot_map m (slot_key l (int e)) of Some i \<Rightarrow> InSlot i
                 | None \<Rightarrow> if cnt e > 0 then ZeroSlab else NullPtr) es"
  using assms
proof (induction es arbitrary: m bs m')
  case (Cons e es)
  obtain m1 r where f: "find_slot m l (int e) = (m1, r)" by fastforce
  from Cons.prems(2) have c: "clock_ok (Suc (k + length es)) m" by simp
  note ff = find_slot_facts [OF Cons.prems(1) c f]
  obtain m2 b2 where g: "moe_tables l cnt es m1 = (m2, b2)" by fastforce
  from Cons.IH [OF ff(1,2) g] Cons.prems(3) f g ff(3,4) show ?case
    by (auto simp: unmoved_def)
qed (simp add: unmoved_def)

text \<open>The state between two layers: nothing reserved, no copy outstanding that matters.\<close>

definition idle :: "'b Arena \<Rightarrow> nat \<Rightarrow> 'b SlotMgr \<Rightarrow> bool" where
  "idle A k m \<longleftrightarrow> slot_inv A m \<and> busy_set m = {} \<and> clock_ok k m"

lemma held_resident:
  assumes inv: "slot_inv A m" and e: "e \<in> held_experts l m" and l: "0 \<le> l"
  shows "\<exists>i < n_slots m. slot_map m (slot_key l (int e)) = Some i \<and> s_layer (slots m ! i) = l \<and>
     s_expert (slots m ! i) = int e"
proof -
  from e obtain i where i: "i < n_slots m" "s_layer (slots m ! i) = l" "s_expert (slots m ! i) = int e"
    by (auto simp: held_experts_def busy_set_def)
  from inv have "map_ok m" by (simp add: slot_inv_def)
  with i l have "slot_map m (slot_key l (int e)) = Some i" unfolding map_ok_def by metis
  with i show ?thesis by blast
qed

lemma moe_slots_core:
  assumes idle: "idle A (3 * E) m" and fit: "arena_fits A l" and E: "E \<le> 2 ^ 31"
    and cap: "card {e. e < E \<and> 0 < cnt e} \<le> n_slots m"
  shows "\<exists>m' bs. moe_slots A l E cnt m = Some (m', bs) \<and> slot_inv A m' \<and> clock_ok 0 m' \<and>
    n_slots m' = n_slots m \<and> length bs = E \<and>
    (\<forall>e < E. 0 < cnt e \<longrightarrow> (\<exists>i < n_slots m. bs ! e = InSlot i \<and> pool m' i = Some (arena_slab A l (int e))))"
proof -
  let ?es = "filter (\<lambda>e. 0 < cnt e) [0..<E]"
  have len: "length ?es = card {e. e < E \<and> 0 < cnt e}"
  proof -
    have "set ?es = {e. e < E \<and> 0 < cnt e}" by auto
    moreover have "distinct ?es" by simp
    ultimately show ?thesis by (metis distinct_card)
  qed
  have lenE: "length ?es \<le> E" using length_filter_le [of "\<lambda>e. 0 < cnt e" "[0..<E]"] by simp
  let ?b = "begin_step m"
  from idle have nb: "\<forall>i < n_slots m. \<not> s_busy (slots m ! i)" by (auto simp: idle_def busy_set_def)
  from begin_step_inv [OF _ nb] idle have inv0: "slot_inv A ?b" by (simp add: idle_def)
  have bs0: "busy_set ?b = {}" using idle by (simp add: idle_def busy_set_def begin_step_def)
  have "clock_ok (2 * E + length ?es) ?b" using idle lenE by (auto simp: idle_def clock_ok_def begin_step_def)
  with inv0 bs0 fit cap len have r0: "moe_ready A l (2 * E) (length ?es + 0) ?b"
    by (simp add: moe_ready_def begin_step_def)
  have "\<forall>e \<in> set ?es. e < 2 ^ 31" using E by auto
  from moe.request_all_grants [OF r0 this] obtain m1 where
    m1: "moe_acquire_loop A l cnt [0..<E] ?b = Some m1" and r1: "moe_ready A l (2 * E) 0 m1"
    and h1: "held_experts l m1 = set ?es"
    by (auto simp: moe_acquire_loop_alt held_experts_def bs0)
  from r1 have inv1: "slot_inv A m1" and c1: "clock_ok (2 * E) m1" and l: "0 \<le> l"
    by (simp_all add: moe_ready_def arena_fits_def)
  let ?s = "sync_copies m1"
  note invs = sync_inv [OF inv1]
  from inv1 have so: "step_ok m1" by (simp add: slot_inv_def)
  note ss = sync_same [OF so]
  have cs: "clock_ok (E + length [0..<E]) ?s" using c1 by (simp add: ss clock_ok_def mult_2)
  have res: "\<exists>i < n_slots m1. slot_map m1 (slot_key l (int e)) = Some i \<and> s_layer (slots m1 ! i) = l \<and>
      s_expert (slots m1 ! i) = int e" if "e < E" "0 < cnt e" for e
    by (rule held_resident [OF inv1 _ l]) (use that h1 in auto)
  obtain m2 n where cm: "count_missing l cnt [0..<E] ?s = (m2, n)" by fastforce
  have "\<forall>e \<in> set [0..<E]. 0 < cnt e \<longrightarrow> slot_map ?s (slot_key l (int e)) \<noteq> None"
    using res by (fastforce simp: ss)
  with count_missing_facts [OF invs(1) cs cm] have n: "n = 0" and inv2: "slot_inv A m2"
    and c2: "clock_ok E m2" and u2: "unmoved ?s m2" by simp_all
  obtain m3 bs where mt: "moe_tables l cnt [0..<E] m2 = (m3, bs)" by fastforce
  from c2 have c2': "clock_ok (0 + length [0..<E]) m2" by simp
  from moe_tables_facts [OF inv2 c2' mt] have inv3: "slot_inv A m3" and c3: "clock_ok 0 m3"
    and u3: "unmoved m2 m3"
    and bs: "bs = map (\<lambda>e. case slot_map m2 (slot_key l (int e)) of Some i \<Rightarrow> InSlot i
                 | None \<Rightarrow> if cnt e > 0 then ZeroSlab else NullPtr) [0..<E]" by simp_all
  from unmoved_trans [OF u2 u3] have u: "unmoved ?s m3" .
  have n1: "n_slots m1 = n_slots m"
  proof -
    have "n_slots m' = n_slots m0" if "request_all (\<lambda>m e. moe_request A l m (int e)) es m0 = Some m'"
      "moe_ready A l c (length es) m0" "\<forall>e \<in> set es. e < 2 ^ 31" for es m0 m' c
      using that
    proof (induction es arbitrary: m0)
      case (Cons e es)
      from Cons.prems(2) have r: "moe_ready A l c (Suc (length es)) m0" by simp
      from moe_request_grabs [OF r] Cons.prems(3) obtain mx where
        mx: "moe_request A l m0 (int e) = Some mx" "grabbed l e m0 mx" "slot_inv A mx" by auto
      from Cons.IH [of mx] grabbed_ready(1) [OF r mx(2,3)] Cons.prems mx show ?case
        by (simp add: grabbed_def)
    qed simp
    from this [of ?es ?b m1 "2 * E"] m1 r0 E show ?thesis
      by (simp add: moe_acquire_loop_alt begin_step_def)
  qed
  have ent: "\<exists>i < n_slots m. bs ! e = InSlot i \<and> pool m3 i = Some (arena_slab A l (int e))"
    if e: "e < E" "0 < cnt e" for e
  proof -
    from res [OF e] obtain i where i: "i < n_slots m1" "slot_map m1 (slot_key l (int e)) = Some i"
      "s_layer (slots m1 ! i) = l" "s_expert (slots m1 ! i) = int e" by blast
    from u2 i(2) have "slot_map m2 (slot_key l (int e)) = Some i" by (simp add: unmoved_def ss)
    then have "bs ! e = InSlot i" using e by (simp add: bs)
    moreover have "pool m3 i = contents m1 i" using u by (simp add: unmoved_def ss)
    moreover have "contents m1 i = Some (arena_slab A l (int e))"
      using inv1 i l by (simp add: slot_inv_def data_ok_def)
    ultimately show ?thesis using i(1) n1 by auto
  qed
  have "moe_slots A l E cnt m = Some (m3, bs)"
    by (simp add: moe_slots_def m1 cm n mt)
  moreover have "n_slots m3 = n_slots m" using u n1 by (simp add: unmoved_def ss)
  ultimately show ?thesis using inv3 c3 ent by (auto simp: bs)
qed

section \<open>The census\<close>

lemma de_le32_le32 [simp]: "de_le32 (le32 w @ xs) = w"
proof -
  let ?n = "unat w"
  have lt: "?n div 16777216 < 256"
    using unsigned_less [of w, where ?'a = nat] by (simp add: less_mult_imp_div_less)
  have "?n = ?n mod 256 + 256 * (?n div 256)" by simp
  moreover have "?n div 256 = ?n div 256 mod 256 + 256 * (?n div 65536)"
    using mod_div_mult_eq [of "?n div 256" 256] by (simp add: div_mult2_eq [symmetric])
  moreover have "?n div 65536 = ?n div 65536 mod 256 + 256 * (?n div 16777216)"
    using mod_div_mult_eq [of "?n div 65536" 256] by (simp add: div_mult2_eq [symmetric])
  ultimately have "?n mod 256 + 256 * (?n div 256 mod 256) + 65536 * (?n div 65536 mod 256)
      + 16777216 * (?n div 16777216) = ?n" by linarith
  then show ?thesis
    using lt by (simp add: le32_def ex_byte)
qed

lemma length_le32 [simp]: "length (le32 w) = 4"
  by (simp add: le32_def)

lemma drop_le32 [simp]: "drop 4 (le32 w @ xs) = xs"
  by simp

lemma read_items_concat:
  "length fr = length ws \<Longrightarrow> read_items fr (concat (map le32 ws) @ xs) = ws"
  by (induction fr ws rule: list_induct2) simp_all

lemma load_save:
  assumes s: "save_census m = Some f" and l: "length fr = length (freq m)"
    and n: "n_layer m < 2 ^ 32"
  shows "load_census (n_layer m) fr (f @ extra) = freq m"
proof -
  let ?body = "le32 (of_nat (n_layer m)) @ le32 288 @ concat (map le32 (freq m)) @ extra"
  from s have f: "f @ extra = ''HELIOSC1'' @ ?body"
    by (simp add: save_census_def split: if_splits)
  have d: "drop 8 (f @ extra) = ?body" "take 8 (f @ extra) = ''HELIOSC1''"
    unfolding f by simp_all
  have d12: "drop 12 (f @ extra) = le32 288 @ concat (map le32 (freq m)) @ extra"
  proof -
    have "drop 12 (f @ extra) = drop 4 (drop 8 (f @ extra))" by (simp del: drop_append)
    then show ?thesis unfolding d(1) by simp
  qed
  have d16: "drop 16 (f @ extra) = concat (map le32 (freq m)) @ extra"
  proof -
    have "drop 16 (f @ extra) = drop 4 (drop 12 (f @ extra))" by (simp del: drop_append)
    then show ?thesis unfolding d12 by simp
  qed
  have len: "16 \<le> length (f @ extra)" unfolding f by simp
  show ?thesis
    unfolding load_census_def d d12 d16 Let_def
    using len l by (simp add: read_items_concat)
qed

lemma fold_set_True:
  "length (fold (\<lambda>i h. h[i := True]) is h) = length h \<and>
   (\<forall>j < length h. fold (\<lambda>i h. h[i := True]) is h ! j = (h ! j \<or> j \<in> set is))"
proof (induction "is" arbitrary: h)
  case (Cons a "is")
  from Cons [of "h[a := True]"] show ?case
    by (cases "a < length h") (auto simp: nth_list_update list_update_beyond)
qed simp

lemma top_census_props:
  shows "distinct (top_census fr k)"
    and "set (top_census fr k) \<subseteq> {i. i < length fr \<and> fr ! i \<noteq> 0}"
    and "length (top_census fr k) = min k (card {i. i < length fr \<and> fr ! i \<noteq> 0})"
    and "i \<in> set (top_census fr k) \<Longrightarrow> j < length fr \<Longrightarrow> j \<notin> set (top_census fr k) \<Longrightarrow> fr ! j \<le> fr ! i"
proof -
  let ?idx = "filter (\<lambda>i. fr ! i \<noteq> 0) [0..<length fr]"
  let ?key = "\<lambda>i. - int (unat (fr ! i))"
  let ?s = "sort_key ?key ?idx"
  have d: "distinct ?idx" by simp
  have st: "set ?idx = {i. i < length fr \<and> fr ! i \<noteq> 0}" by (auto simp del: word_neq_0_conv)
  have c: "card {i. i < length fr \<and> fr ! i \<noteq> 0} = length ?idx"
    unfolding st [symmetric] by (rule distinct_card [OF d])
  have t: "top_census fr k = (if k < length ?idx then take k ?s else ?idx)"
    by (simp add: top_census_def Let_def)
  show "distinct (top_census fr k)" using d by (simp add: t)
  show "set (top_census fr k) \<subseteq> {i. i < length fr \<and> fr ! i \<noteq> 0}"
  proof -
    have "set (take k ?s) \<subseteq> set ?idx" by (metis set_sort set_take_subset)
    then show ?thesis unfolding st [symmetric] t by (cases "k < length ?idx") (simp_all only: if_True if_False order_refl)
  qed
  show "length (top_census fr k) = min k (card {i. i < length fr \<and> fr ! i \<noteq> 0})"
    unfolding t c by simp
  assume i: "i \<in> set (top_census fr k)" and j: "j < length fr" "j \<notin> set (top_census fr k)"
  show "fr ! j \<le> fr ! i"
  proof (cases "fr ! j = 0")
    case True then show ?thesis by simp
  next
    case False
    with j st have jx: "j \<in> set ?idx" by blast
    with j(2) have k: "k < length ?idx" by (auto simp: t split: if_splits)
    with i j jx have "i \<in> set (take k ?s)" "j \<in> set ?s" "j \<notin> set (take k ?s)" by (simp_all add: t)
    then have "i \<in> set (take k ?s)" "j \<in> set (drop k ?s)"
      by (simp, metis Un_iff append_take_drop_id set_append)
    moreover have "sorted (map ?key (take k ?s) @ map ?key (drop k ?s))"
      by (metis append_take_drop_id map_append sorted_sort_key)
    ultimately have "?key i \<le> ?key j" by (auto simp: sorted_append)
    then show ?thesis by (simp add: word_le_def)
  qed
qed

section \<open>Properties\<close>

text \<open>From an idle pool, if no more experts are routed than there are slots, one layer step
  finishes and every routed expert's table entry points at a slot that holds exactly that
  expert's slab; no entry is the all-zero slab; and ending the step leaves the pool idle, with
  its invariant, for the next layer.\<close>

theorem moe_slots_serves_all:
  assumes "idle A (3 * E) m" and "arena_fits A l" and "E \<le> 2 ^ 31"
    and "card {e. e < E \<and> 0 < cnt e} \<le> n_slots m"
  shows "\<exists>m' bs. moe_slots A l E cnt m = Some (m', bs) \<and> length bs = E \<and>
    (\<forall>e < E. 0 < cnt e \<longrightarrow>
       (\<exists>i < n_slots m. bs ! e = InSlot i \<and> pool m' i = Some (arena_slab A l (int e)))) \<and>
    idle A 0 (end_step d m') \<and> n_slots (end_step d m') = n_slots m"
proof -
  from moe_slots_core [OF assms] obtain m' bs where r: "moe_slots A l E cnt m = Some (m', bs)"
    "slot_inv A m'" "clock_ok 0 m'" "n_slots m' = n_slots m" "length bs = E"
    "\<forall>e < E. 0 < cnt e \<longrightarrow> (\<exists>i < n_slots m. bs ! e = InSlot i \<and> pool m' i = Some (arena_slab A l (int e)))"
    by blast
  note e = end_step_inv [OF r(2), where d = d]
  have "s_last_used (slots (end_step d m') ! j) = s_last_used (slots m' ! j)" for j
  proof -
    have "s_last_used (slots (unbusy x is) ! j) = s_last_used (slots x ! j)" for x :: "'a SlotMgr" and "is"
      unfolding unbusy_def by (induction "is" arbitrary: x) (simp_all add: nth_upd_field)
    then show ?thesis by (simp add: end_step_alt Let_def)
  qed
  with e r(3) have "idle A 0 (end_step d m')"
    by (simp add: idle_def busy_set_def clock_ok_def)
  with r e(3) show ?thesis by auto
qed

definition demo_arena :: "nat Arena" where
  "demo_arena = \<lparr>arena_slab = (\<lambda>l e. nat (100 * l + e)), layout_stride = (\<lambda>_. Some 4), slot_stride = 4\<rparr>"

definition demo_pool :: "nat SlotMgr" where
  "demo_pool = the (init_from_pool 1 16 [] None (\<lambda>_. None))"

lemma demo_pool_init: "init_from_pool 1 16 [] None (\<lambda>_. None) = Some demo_pool"
  by (simp add: demo_pool_def init_from_pool_def)

lemma demo_pool_idle: "idle demo_arena 12 demo_pool" and demo_pool_slots: "n_slots demo_pool = 16"
proof -
  have s: "slots demo_pool = replicate 16 Slot_new" "clock demo_pool = 0"
    by (simp_all add: demo_pool_def init_from_pool_def)
  then show "n_slots demo_pool = 16" by simp
  from s init_inv [OF demo_pool_init] show "idle demo_arena 12 demo_pool"
    by (simp add: idle_def busy_set_def clock_ok_def Slot_new_def)
qed

lemma demo_fits: "arena_fits demo_arena 0"
  by (simp add: arena_fits_def demo_arena_def)

theorem moe_slots_serves_all_witness:
  "\<exists>m' bs. moe_slots demo_arena 0 4 (\<lambda>e. if e = 1 then 0 else 2) demo_pool = Some (m', bs) \<and>
    length bs = 4 \<and> (\<exists>i < 16. bs ! 3 = InSlot i \<and> pool m' i = Some 3)"
proof -
  have "card {e. e < (4::nat) \<and> (0::int) < (if e = 1 then 0 else 2)} \<le> card {..<4::nat}"
    by (rule card_mono) auto
  then have "card {e. e < (4::nat) \<and> (0::int) < (if e = 1 then 0 else 2)} \<le> n_slots demo_pool"
    by (simp add: demo_pool_slots)
  from moe_slots_serves_all [of demo_arena 4, OF _ demo_fits _ this, of True] demo_pool_idle
  show ?thesis by (auto simp: demo_pool_slots demo_arena_def)
qed

text \<open>C30: In every state the slot manager can reach through its operations, the map finds only
  slots that hold the expert asked for, with that expert's slab once the copies have landed;
  no two slots hold the same expert; the pinned slots are counted exactly and within their
  share; and every reserved slot is in the list that protects it.\<close>

theorem slot_manager_invariant:
  assumes "slot_reachable A m"
  shows "(\<forall>l e i. 0 \<le> l \<and> l < 2 ^ 31 \<and> e < 2 ^ 31 \<and> slot_map m (slot_key l (int e)) = Some i \<longrightarrow>
      i < n_slots m \<and> s_layer (slots m ! i) = l \<and> s_expert (slots m ! i) = int e \<and>
      contents m i = Some (arena_slab A l (int e))) \<and>
    (\<forall>i < n_slots m. \<forall>j < n_slots m. 0 \<le> s_layer (slots m ! i) \<longrightarrow>
      s_layer (slots m ! i) = s_layer (slots m ! j) \<longrightarrow>
      s_expert (slots m ! i) = s_expert (slots m ! j) \<longrightarrow> i = j) \<and>
    pinned_count m = int (length (filter s_pinned (slots m))) \<and>
    pinned_count m \<le> int (max_pinned m) \<and>
    (\<forall>i < n_slots m. s_busy (slots m ! i) \<longrightarrow> i \<in> set (used m))"
proof (intro conjI allI impI)
  from slot_reachable_inv [OF assms] have inv: "slot_inv A m" .
  then have mo: "map_ok m" and d: "data_ok A m" by (simp_all add: slot_inv_def)
  show "pinned_count m = int (length (filter s_pinned (slots m)))" "pinned_count m \<le> int (max_pinned m)"
    using inv by (simp_all add: slot_inv_def pins_ok_def)
  show "i \<in> set (used m)" if "i < n_slots m" "s_busy (slots m ! i)" for i
    using inv that by (simp add: slot_inv_def step_ok_def)
  show "i = j" if "i < n_slots m" "j < n_slots m" "0 \<le> s_layer (slots m ! i)"
      "s_layer (slots m ! i) = s_layer (slots m ! j)" "s_expert (slots m ! i) = s_expert (slots m ! j)" for i j
    using that mo unfolding map_ok_def by (metis option.inject)
  fix l e i
  assume "0 \<le> l \<and> l < 2 ^ 31 \<and> e < 2 ^ 31 \<and> slot_map m (slot_key l (int e)) = Some i"
  then have l: "0 \<le> l" "l < 2 ^ 31" "e < 2 ^ 31" and k: "slot_map m (slot_key l (int e)) = Some i" by simp_all
  note at = slot_key_at [OF inv k l] and ms = map_slot [OF inv k]
  show "i < n_slots m" "s_layer (slots m ! i) = l" "s_expert (slots m ! i) = int e"
    by (rule ms(1), rule at(1), rule at(2))
  show "contents m i = Some (arena_slab A l (int e))"
    using d ms(1) l at by (simp add: data_ok_def)
qed

theorem slot_manager_invariant_witness:
  "pinned_count (begin_step demo_pool) \<le> int (max_pinned (begin_step demo_pool))"
proof -
  have "slot_reachable demo_arena (begin_step demo_pool)"
    by (rule slot_reachable.step [OF slot_reachable.init [OF demo_pool_init]], rule slot_step.begin_step)
      (use init_inv(2) [OF demo_pool_init] in blast)
  from slot_manager_invariant [OF this] show ?thesis by blast
qed

text \<open>When no slot is free and some slot is neither reserved nor pinned, eviction takes the
  one with the least (census count, heat), the first of them in slot order, empties it,
  reserves it and leaves every other slot alone.\<close>

theorem evict_one_takes_least:
  assumes "first_idx (\<lambda>s. s_layer s < 0 \<and> \<not> s_busy s) (slots m) = None"
    and "k < n_slots m" and "\<not> s_busy (slots m ! k)" and "\<not> s_pinned (slots m ! k)"
  shows "\<exists>i m'. evict_one m = (m', Some i) \<and> i < n_slots m \<and>
    \<not> s_busy (slots m ! i) \<and> \<not> s_pinned (slots m ! i) \<and>
    (\<forall>j < n_slots m. \<not> s_busy (slots m ! j) \<longrightarrow> \<not> s_pinned (slots m ! j) \<longrightarrow>
       slot_rank m (slots m ! i) \<le> slot_rank m (slots m ! j) \<and>
       (j < i \<longrightarrow> slot_rank m (slots m ! i) < slot_rank m (slots m ! j))) \<and>
    s_layer (slots m' ! i) = -1 \<and> s_busy (slots m' ! i) \<and>
    (\<forall>j. j \<noteq> i \<longrightarrow> slots m' ! j = slots m ! j)"
proof -
  let ?scan = "min_scan (\<lambda>i. s_busy (slots m ! i) \<or> s_pinned (slots m ! i))
     (\<lambda>i. slot_rank m (slots m ! i)) (n_slots m) (EvictRank (2 ^ 64 - 1) (2 ^ 64 - 1))"
  have "?scan \<noteq> None"
  proof
    assume "?scan = None"
    from min_scan_None [OF this assms(2)] assms(3,4)
    have "EvictRank (2 ^ 64 - 1) (2 ^ 64 - 1) \<le> slot_rank m (slots m ! k)" by simp
    with slot_rank_less [of m "slots m ! k"] show False by simp
  qed
  then obtain i where i: "?scan = Some i" by blast
  note ms = min_scan_Some [OF i]
  from assms(1) i have e: "evict_one m = (vacate i m, Some i)" by (simp add: evict_one_def)
  have oth: "slots (vacate i m) ! j = slots m ! j" if "j \<noteq> i" for j using that by simp
  show ?thesis
    using e ms oth by (intro exI [of _ i] exI [of _ "vacate i m"]) auto
qed

theorem evict_one_takes_least_witness:
  "\<exists>i m'. evict_one (upd_slot 0 (\<lambda>s. s\<lparr>s_layer := 0, s_expert := 5\<rparr>)
     (demo_pool\<lparr>slots := [Slot_new]\<rparr>)) = (m', Some i) \<and> i < 1"
  using evict_one_takes_least [of "upd_slot 0 (\<lambda>s. s\<lparr>s_layer := 0, s_expert := 5\<rparr>)
     (demo_pool\<lparr>slots := [Slot_new]\<rparr>)" 0]
  by (auto simp: Slot_new_def)



text \<open>Refreshing the ranking marks exactly the most requested experts: as many as the pinned
  share allows (or as many as were ever requested), each requested at least once, and none
  less often than an expert left unmarked.\<close>

theorem recompute_hot_marks_top:
  assumes "length (hot m) = length (freq m)" and "freq m \<noteq> []"
  shows "length (hot (recompute_hot m)) = length (freq m) \<and>
    hot_count (recompute_hot m) = min (max_pinned m) (card {i. i < length (freq m) \<and> freq m ! i \<noteq> 0}) \<and>
    card {i. i < length (freq m) \<and> hot (recompute_hot m) ! i} = hot_count (recompute_hot m) \<and>
    (\<forall>i < length (freq m). \<forall>j < length (freq m).
       hot (recompute_hot m) ! i \<longrightarrow> freq m ! i \<noteq> 0 \<and>
         (\<not> hot (recompute_hot m) ! j \<longrightarrow> freq m ! j \<le> freq m ! i))"
proof -
  let ?idx = "top_census (freq m) (max_pinned m)"
  note tc = top_census_props(1,2,3) [of "freq m" "max_pinned m"]
  have h: "hot (recompute_hot m) = fold (\<lambda>i h. h[i := True]) ?idx (replicate (length (hot m)) False)"
    and c: "hot_count (recompute_hot m) = length ?idx"
    using assms(2) by (simp_all add: recompute_hot_def Let_def)
  note ft = fold_set_True [of ?idx "replicate (length (hot m)) False"]
  have l: "length (hot (recompute_hot m)) = length (freq m)" using ft assms(1) by (simp add: h)
  have hi: "hot (recompute_hot m) ! i \<longleftrightarrow> i \<in> set ?idx" if "i < length (freq m)" for i
    using ft that assms(1) by (simp add: h)
  have "{i. i < length (freq m) \<and> hot (recompute_hot m) ! i} = set ?idx"
    using hi tc(2) by auto
  then have "card {i. i < length (freq m) \<and> hot (recompute_hot m) ! i} = hot_count (recompute_hot m)"
    using distinct_card [OF tc(1)] c by simp
  with l c tc(2,3) hi top_census_props(4) [of _ "freq m" "max_pinned m"] show ?thesis by auto
qed

theorem recompute_hot_marks_top_witness:
  "hot_count (recompute_hot (demo_pool\<lparr>freq := [3, 0, 5], hot := [False, False, False]\<rparr>)) \<le> 9"
proof -
  let ?m = "demo_pool\<lparr>freq := [3, 0, 5], hot := [False, False, False]\<rparr>"
  have "max_pinned ?m = 9"
    by (simp add: demo_pool_def init_from_pool_def recompute_hot_def Let_def)
  with recompute_hot_marks_top [of ?m] show ?thesis by simp
qed

end
