(* ===== verification/Interleaving.thy ===== *)
theory Interleaving
  imports Helios_Prelude
begin

text \<open>
  The threads of a kernel that share memory through atomic operations.  A schedule is the list
  of the threads in the order in which they take their next atomic step; a kernel's result is
  right when it is right for every schedule that lets each thread finish.  The locale states
  what a thread's step has to promise: it keeps the invariant, it brings the thread that moves
  closer to its end, and it moves no other thread away from its own.
\<close>

fun run_schedule :: "(nat \<Rightarrow> 's \<Rightarrow> 's) \<Rightarrow> nat list \<Rightarrow> 's \<Rightarrow> 's" where
  "run_schedule step [] s = s"
| "run_schedule step (i # is) s = run_schedule step is (step i s)"

lemma run_schedule_append: "run_schedule step (as @ bs) s = run_schedule step bs (run_schedule step as s)"
  by (induction as arbitrary: s) simp_all

definition fair_for :: "nat \<Rightarrow> nat \<Rightarrow> nat list \<Rightarrow> bool" where
  "fair_for n k sched \<longleftrightarrow> (\<forall>i < n. k \<le> count_list sched i)"

text \<open>Round robin is fair.\<close>

definition round_robin :: "nat \<Rightarrow> nat \<Rightarrow> nat list" where
  "round_robin n k = concat (replicate k [0..<n])"

lemma fair_round_robin: "fair_for n k (round_robin n k)"
proof -
  have "count_list [0..<n] i = 1" if "i < n" for i
    using that by (induction n) (auto simp: less_Suc_eq count_list_append)
  then have "count_list (concat (replicate k [0..<n])) i = k" if "i < n" for i
    using that by (induction k) (simp_all add: count_list_append)
  then show ?thesis by (simp add: fair_for_def round_robin_def)
qed

lemma fair_for_mono: "fair_for n k sched \<Longrightarrow> n' \<le> n \<Longrightarrow> k' \<le> k \<Longrightarrow> fair_for n' k' sched"
  by (auto simp: fair_for_def intro: order_trans)

locale interleaved =
  fixes step :: "nat \<Rightarrow> 's \<Rightarrow> 's"
    and inv :: "'s \<Rightarrow> bool"
    and todo :: "'s \<Rightarrow> nat \<Rightarrow> nat"
  assumes step_inv: "inv s \<Longrightarrow> inv (step i s)"
    and step_todo: "inv s \<Longrightarrow> todo (step i s) i \<le> todo s i - 1"
    and step_others: "inv s \<Longrightarrow> j \<noteq> i \<Longrightarrow> todo (step i s) j \<le> todo s j"
begin

lemma run_inv: "inv s \<Longrightarrow> inv (run_schedule step sched s)"
  by (induction sched arbitrary: s) (simp_all add: step_inv)

lemma run_todo: "inv s \<Longrightarrow> todo (run_schedule step sched s) i \<le> todo s i - count_list sched i"
proof (induction sched arbitrary: s)
  case Nil
  then show ?case by simp
next
  case (Cons j sched)
  from Cons.IH [OF step_inv [OF Cons.prems, of j]]
  have "todo (run_schedule step (j # sched) s) i \<le> todo (step j s) i - count_list sched i" by simp
  also have "\<dots> \<le> todo s i - count_list (j # sched) i"
    using step_todo [OF Cons.prems, of j] step_others [OF Cons.prems, of i j] by auto
  finally show ?case .
qed

lemma fair_run:
  assumes "inv s" and "fair_for n k sched" and "\<forall>i < n. todo s i \<le> k" and "i < n"
  shows "todo (run_schedule step sched s) i = 0"
proof -
  have "todo s i \<le> count_list sched i" using assms(2-4) by (auto simp: fair_for_def intro: order_trans)
  with run_todo [OF assms(1), of sched i] show ?thesis by simp
qed

end

text \<open>Rows of equal length.\<close>

lemma nth_concat_equal:
  "\<forall>r \<in> set xss. length r = k \<Longrightarrow> t < length xss \<Longrightarrow> j < k \<Longrightarrow> concat xss ! (t * k + j) = xss ! t ! j"
proof (induction xss arbitrary: t)
  case (Cons r xss)
  then show ?case by (cases t) (simp_all add: nth_append add.assoc)
qed simp

end
