(* ===== verification/Moe_Permute.thy ===== *)
theory Moe_Permute
  imports Interleaving
begin

text \<open>
  The permutation of the routed tokens (\<^verbatim>\<open>glue::moe_permute\<close> in \<^verbatim>\<open>src/engine/glue2.cu\<close>):
  counting the routes of every expert, the exclusive prefix sums, and the scatter kernel whose
  threads claim a row of their expert's segment with an atomic increment, in an order nobody
  controls.  A route is an index into the flattened [tokens, topk] list of expert ids.
\<close>

section \<open>Counts and offsets\<close>

definition moe_count_thread :: "nat list \<Rightarrow> nat \<Rightarrow> nat" where
  "moe_count_thread ids e = foldl (\<lambda>c i. if ids ! i = e then Suc c else c) 0 [0..<length ids]"

definition moe_count :: "nat list \<Rightarrow> nat \<Rightarrow> nat list" where
  "moe_count ids E = map (moe_count_thread ids) [0..<E]"

fun moe_offset_loop :: "nat list \<Rightarrow> nat \<Rightarrow> nat list" where
  "moe_offset_loop [] acc = [acc]"
| "moe_offset_loop (c # cs) acc = acc # moe_offset_loop cs (acc + c)"

text \<open>The offsets, and the counts with the extra zero the grouped kernel ignores.\<close>

definition moe_offset :: "nat list \<Rightarrow> nat list \<times> nat list" where
  "moe_offset count = (moe_offset_loop count 0, count @ [0])"

lemma length_offset_loop [simp]: "length (moe_offset_loop cs acc) = Suc (length cs)"
  by (induction cs acc rule: moe_offset_loop.induct) simp_all

lemma nth_offset_loop: "k \<le> length cs \<Longrightarrow> moe_offset_loop cs acc ! k = acc + sum_list (take k cs)"
  by (induction cs acc arbitrary: k rule: moe_offset_loop.induct) (auto simp: nth_Cons' take_Cons')

abbreviation offs :: "nat list \<Rightarrow> nat \<Rightarrow> nat" where
  "offs cs k \<equiv> moe_offset_loop cs 0 ! k"

lemma offs_Suc: "e < length cs \<Longrightarrow> offs cs (Suc e) = offs cs e + cs ! e"
  by (simp add: nth_offset_loop take_Suc_conv_app_nth)

lemma offs_0 [simp]: "offs cs 0 = 0"
  by (simp add: nth_offset_loop)

lemma offs_mono: "k \<le> l \<Longrightarrow> l \<le> length cs \<Longrightarrow> offs cs k \<le> offs cs l"
proof (induction l rule: dec_induct)
  case base
  then show ?case by simp
next
  case (step l)
  then show ?case using offs_Suc [of l cs] by simp
qed

text \<open>A row lies in the segment of one expert only.\<close>

lemma segment_unique:
  assumes "e < length cs" "e' < length cs"
    and "offs cs e \<le> p" "p < offs cs (Suc e)" "offs cs e' \<le> p" "p < offs cs (Suc e')"
  shows "e = e'"
proof (rule linorder_cases [of e e'])
  assume "e < e'"
  then have "offs cs (Suc e) \<le> offs cs e'" using assms by (intro offs_mono) auto
  with assms show ?thesis by simp
next
  assume "e' < e"
  then have "offs cs (Suc e') \<le> offs cs e" using assms by (intro offs_mono) auto
  with assms show ?thesis by simp
qed simp

lemma count_thread_card: "moe_count_thread ids e = card {i. i < length ids \<and> ids ! i = e}"
proof -
  have step: "foldl (\<lambda>c i. if P i then Suc c else c) a [0..<n] = a + card {i. i < n \<and> P i}"
    for P :: "nat \<Rightarrow> bool" and a n
  proof (induction n)
    case (Suc n)
    have "{i. i < Suc n \<and> P i} = (if P n then insert n {i. i < n \<and> P i} else {i. i < n \<and> P i})"
      by (auto simp: less_Suc_eq)
    with Suc show ?case by auto
  qed simp
  show ?thesis unfolding moe_count_thread_def using step [where a = 0] by simp
qed

lemma length_count [simp]: "length (moe_count ids E) = E"
  by (simp add: moe_count_def)

lemma nth_count: "e < E \<Longrightarrow> moe_count ids E ! e = card {i. i < length ids \<and> ids ! i = e}"
  by (simp add: moe_count_def count_thread_card)

lemma offs_total:
  assumes "\<forall>i < length ids. ids ! i < E"
  shows "offs (moe_count ids E) E = length ids"
proof -
  let ?S = "\<lambda>e. {i. i < length ids \<and> ids ! i = e}"
  have "offs (moe_count ids E) E = (\<Sum>e<E. card (?S e))"
    by (simp add: nth_offset_loop moe_count_def count_thread_card
        sum_list_distinct_conv_sum_set lessThan_atLeast0 fun_eq_iff)
  also have "\<dots> = card (\<Union>e\<in>{..<E}. ?S e)" by (rule card_UN_disjoint [symmetric]) auto
  also have "(\<Union>e\<in>{..<E}. ?S e) = {..<length ids}" using assms by auto
  finally show ?thesis by simp
qed

section \<open>The scatter kernel\<close>

text \<open>A thread claims its row with one atomic increment and then makes its three stores; \<^verbatim>\<open>pos\<close>
  is the register the claim left.\<close>

datatype scatter_pc = Ready | Claimed nat | Token_Stored nat | Weight_Stored nat | Stored nat

record 'w Permuted =
  cursor :: "nat list"
  token_sorted :: "nat list"
  weight_sorted :: "'w list"
  route_to_sorted :: "nat list"
  thread_pc :: "scatter_pc list"

definition set_pc :: "nat \<Rightarrow> scatter_pc \<Rightarrow> 'w Permuted \<Rightarrow> 'w Permuted" where
  "set_pc i c st = st\<lparr>thread_pc := (thread_pc st)[i := c]\<rparr>"

definition moe_scatter_step ::
  "nat list \<Rightarrow> 'w list \<Rightarrow> nat \<Rightarrow> nat \<Rightarrow> 'w Permuted \<Rightarrow> 'w Permuted" where
  "moe_scatter_step ids weights topk i st =
     (if i \<ge> length ids then st
      else (let e = ids ! i in
        case thread_pc st ! i of
          Ready \<Rightarrow> set_pc i (Claimed (cursor st ! e))
                     (st\<lparr>cursor := (cursor st)[e := cursor st ! e + 1]\<rparr>)
        | Claimed pos \<Rightarrow> set_pc i (Token_Stored pos)
                     (st\<lparr>token_sorted := (token_sorted st)[pos := i div topk]\<rparr>)
        | Token_Stored pos \<Rightarrow> set_pc i (Weight_Stored pos)
                     (st\<lparr>weight_sorted := (weight_sorted st)[pos := weights ! i]\<rparr>)
        | Weight_Stored pos \<Rightarrow> set_pc i (Stored pos)
                     (st\<lparr>route_to_sorted := (route_to_sorted st)[i := pos]\<rparr>)
        | Stored pos \<Rightarrow> st))"

text \<open>The whole permutation, from buffers with any contents.\<close>

definition moe_permute ::
  "nat list \<Rightarrow> 'w list \<Rightarrow> nat \<Rightarrow> nat \<Rightarrow> nat list \<Rightarrow> 'w Permuted \<Rightarrow> nat list \<times> 'w Permuted" where
  "moe_permute ids weights topk E sched bufs =
     (let (off, expert_count) = moe_offset (moe_count ids E)
      in (expert_count,
          run_schedule (moe_scatter_step ids weights topk) sched
            (bufs\<lparr>cursor := off, thread_pc := replicate (length ids) Ready\<rparr>)))"

definition big_enough :: "nat \<Rightarrow> 'w Permuted \<Rightarrow> bool" where
  "big_enough n b \<longleftrightarrow> n \<le> length (token_sorted b) \<and> n \<le> length (weight_sorted b) \<and>
     n \<le> length (route_to_sorted b)"

fun claim :: "scatter_pc \<Rightarrow> nat option" where
  "claim Ready = None"
| "claim (Claimed p) = Some p"
| "claim (Token_Stored p) = Some p"
| "claim (Weight_Stored p) = Some p"
| "claim (Stored p) = Some p"

fun pc_todo :: "scatter_pc \<Rightarrow> nat" where
  "pc_todo Ready = 4"
| "pc_todo (Claimed p) = 3"
| "pc_todo (Token_Stored p) = 2"
| "pc_todo (Weight_Stored p) = 1"
| "pc_todo (Stored p) = 0"

definition scatter_todo :: "'w Permuted \<Rightarrow> nat \<Rightarrow> nat" where
  "scatter_todo st i = (if i < length (thread_pc st) then pc_todo (thread_pc st ! i) else 0)"

definition claimed_by :: "nat list \<Rightarrow> 'w Permuted \<Rightarrow> nat \<Rightarrow> nat set" where
  "claimed_by ids st e = {i. i < length ids \<and> ids ! i = e \<and> claim (thread_pc st ! i) \<noteq> None}"

text \<open>What has been claimed: the cursors count the claims of their expert, and every claim is a
  row of the expert's own segment that no other thread has.\<close>

definition claims_ok :: "nat list \<Rightarrow> nat \<Rightarrow> 'w Permuted \<Rightarrow> bool" where
  "claims_ok ids E st \<longleftrightarrow>
     length (thread_pc st) = length ids \<and> length (cursor st) = Suc E \<and>
     (\<forall>e < E. cursor st ! e = offs (moe_count ids E) e + card (claimed_by ids st e)) \<and>
     (\<forall>i < length ids. \<forall>p. claim (thread_pc st ! i) = Some p \<longrightarrow>
        offs (moe_count ids E) (ids ! i) \<le> p \<and> p < cursor st ! (ids ! i)) \<and>
     (\<forall>i < length ids. \<forall>j < length ids. \<forall>p. claim (thread_pc st ! i) = Some p \<longrightarrow>
        claim (thread_pc st ! j) = Some p \<longrightarrow> i = j)"

text \<open>What has been stored.\<close>

definition stores_ok :: "nat list \<Rightarrow> 'w list \<Rightarrow> nat \<Rightarrow> 'w Permuted \<Rightarrow> bool" where
  "stores_ok ids weights topk st \<longleftrightarrow> big_enough (length ids) st \<and>
     (\<forall>i < length ids. \<forall>p. claim (thread_pc st ! i) = Some p \<longrightarrow>
        (pc_todo (thread_pc st ! i) \<le> 2 \<longrightarrow> token_sorted st ! p = i div topk) \<and>
        (pc_todo (thread_pc st ! i) \<le> 1 \<longrightarrow> weight_sorted st ! p = weights ! i) \<and>
        (pc_todo (thread_pc st ! i) = 0 \<longrightarrow> route_to_sorted st ! i = p))"

definition scatter_inv :: "nat list \<Rightarrow> 'w list \<Rightarrow> nat \<Rightarrow> nat \<Rightarrow> 'w Permuted \<Rightarrow> bool" where
  "scatter_inv ids weights topk E st \<longleftrightarrow>
     (\<forall>i < length ids. ids ! i < E) \<and> claims_ok ids E st \<and> stores_ok ids weights topk st"

lemma claimed_by_le: "card (claimed_by ids st e) \<le> card {i. i < length ids \<and> ids ! i = e}"
  by (rule card_mono) (auto simp: claimed_by_def)

lemma cursor_le_next:
  assumes "claims_ok ids E st" and "e < E"
  shows "cursor st ! e \<le> offs (moe_count ids E) (Suc e)"
  using assms claimed_by_le [of ids st e]
  by (simp add: claims_ok_def offs_Suc nth_count)

lemma claim_in_segment:
  assumes "claims_ok ids E st" "\<forall>i < length ids. ids ! i < E" "i < length ids"
    and "claim (thread_pc st ! i) = Some p"
  shows "offs (moe_count ids E) (ids ! i) \<le> p" "p < offs (moe_count ids E) (Suc (ids ! i))"
proof -
  have "ids ! i < E" using assms by blast
  from cursor_le_next [OF assms(1) this] assms(1,3,4)
  show "offs (moe_count ids E) (ids ! i) \<le> p" "p < offs (moe_count ids E) (Suc (ids ! i))"
    unfolding claims_ok_def by fastforce+
qed

lemma claim_less_total:
  assumes "claims_ok ids E st" "\<forall>i < length ids. ids ! i < E" "i < length ids"
    and "claim (thread_pc st ! i) = Some p"
  shows "p < length ids"
proof -
  have "ids ! i < E" using assms by blast
  then have "offs (moe_count ids E) (Suc (ids ! i)) \<le> offs (moe_count ids E) E"
    by (intro offs_mono) auto
  with claim_in_segment [OF assms] offs_total [OF assms(2)] show ?thesis by simp
qed

text \<open>The claiming step.\<close>

lemma claim_step_ok:
  assumes ok: "claims_ok ids E st" and ids: "\<forall>i < length ids. ids ! i < E"
    and i: "i < length ids" and r: "thread_pc st ! i = Ready"
  defines "e \<equiv> ids ! i"
  defines "st' \<equiv> set_pc i (Claimed (cursor st ! e)) (st\<lparr>cursor := (cursor st)[e := cursor st ! e + 1]\<rparr>)"
  shows "claims_ok ids E st'"
proof -
  let ?off = "offs (moe_count ids E)"
  have e: "e < E" using ids i by (simp add: e_def)
  have len: "length (thread_pc st) = length ids" "length (cursor st) = Suc E"
    using ok by (simp_all add: claims_ok_def)
  have pc: "thread_pc st' ! j = (if j = i then Claimed (cursor st ! e) else thread_pc st ! j)" for j
    using i len by (auto simp: st'_def set_pc_def nth_list_update)
  have cu: "cursor st' ! k = (if k = e then cursor st ! e + 1 else cursor st ! k)" for k
    using e len by (auto simp: st'_def set_pc_def nth_list_update)
  have cb: "claimed_by ids st' k = (if k = e then insert i (claimed_by ids st e) else claimed_by ids st k)" for k
    using i by (auto simp: claimed_by_def pc e_def)
  have cur: "cursor st ! k = ?off k + card (claimed_by ids st k)" if "k < E" for k
    using ok that by (simp add: claims_ok_def)
  have seg: "?off (ids ! j) \<le> p \<and> p < cursor st ! (ids ! j)"
    if "j < length ids" "claim (thread_pc st ! j) = Some p" for j p
    using ok that unfolding claims_ok_def by blast
  have inj: "j = k" if "j < length ids" "k < length ids" "claim (thread_pc st ! j) = Some p"
    "claim (thread_pc st ! k) = Some p" for j k p
    using ok that unfolding claims_ok_def by blast
  have "card (insert i (claimed_by ids st e)) = Suc (card (claimed_by ids st e))"
    by (rule card_insert_disjoint) (simp_all add: claimed_by_def r)
  then have c1: "\<forall>k < E. cursor st' ! k = ?off k + card (claimed_by ids st' k)"
    using cur by (simp add: cu cb)
  have c2: "?off (ids ! j) \<le> p \<and> p < cursor st' ! (ids ! j)"
    if j: "j < length ids" "claim (thread_pc st' ! j) = Some p" for j p
  proof (cases "j = i")
    case True
    with j have "p = cursor st ! e" by (simp add: pc)
    with True cur [OF e] show ?thesis by (simp add: cu e_def)
  next
    case False
    with j seg [of j p] show ?thesis by (auto simp: pc cu)
  qed
  have fresh: "claim (thread_pc st ! j) \<noteq> Some (cursor st ! e)" if j: "j < length ids" for j
  proof
    assume a: "claim (thread_pc st ! j) = Some (cursor st ! e)"
    have ej: "ids ! j < E" using ids j by blast
    from seg [OF j a] have lt: "cursor st ! e < cursor st ! (ids ! j)" by simp
    have ge: "?off e \<le> cursor st ! e" using cur [OF e] by simp
    have "cursor st ! e < ?off (Suc e)"
    proof -
      have "claimed_by ids st e \<subseteq> {i. i < length ids \<and> ids ! i = e}"
        by (auto simp: claimed_by_def)
      moreover have "i \<notin> claimed_by ids st e" "i \<in> {i. i < length ids \<and> ids ! i = e}"
        using i r by (simp_all add: claimed_by_def e_def)
      ultimately have "card (claimed_by ids st e) < card {i. i < length ids \<and> ids ! i = e}"
        by (intro psubset_card_mono) (simp, blast)
      then show ?thesis using cur [OF e] e by (simp add: offs_Suc nth_count)
    qed
    with ge claim_in_segment [OF ok ids j a] have "e = ids ! j"
      by (intro segment_unique [of e "moe_count ids E" "ids ! j" "cursor st ! e"]) (simp_all add: e ej)
    with lt show False by simp
  qed
  have c3: "j = k" if "j < length ids" "k < length ids" "claim (thread_pc st' ! j) = Some p"
    "claim (thread_pc st' ! k) = Some p" for j k p
    using that fresh [of j] fresh [of k] inj [of j k p] by (auto simp: pc split: if_splits)
  have "length (thread_pc st') = length ids" "length (cursor st') = Suc E"
    using len by (simp_all add: st'_def set_pc_def)
  with c1 c2 c3 show ?thesis unfolding claims_ok_def by blast
qed

text \<open>The storing steps keep every claim.\<close>

lemma claims_ok_cong:
  assumes "claims_ok ids E st" and "cursor st' = cursor st"
    and "map claim (thread_pc st') = map claim (thread_pc st)"
  shows "claims_ok ids E st'"
proof -
  have l: "length (thread_pc st') = length (thread_pc st)" using assms(3) map_eq_imp_length_eq by blast
  then have c: "claim (thread_pc st' ! i) = claim (thread_pc st ! i)" if "i < length ids" for i
    using assms(1,3) that nth_map [of i "thread_pc st" claim] nth_map [of i "thread_pc st'" claim]
    by (simp add: claims_ok_def)
  then have "claimed_by ids st' e = claimed_by ids st e" for e
    by (auto simp: claimed_by_def)
  with assms(1,2) l c show ?thesis by (simp add: claims_ok_def)
qed

lemma map_claim_update:
  "claim c = claim (xs ! i) \<Longrightarrow> map claim (xs[i := c]) = map claim xs"
  by (metis list_update_id map_update)

lemma scatter_step_simps:
  "i \<ge> length ids \<Longrightarrow> moe_scatter_step ids weights topk i st = st"
  "i < length ids \<Longrightarrow> thread_pc st ! i = Ready \<Longrightarrow> moe_scatter_step ids weights topk i st =
     set_pc i (Claimed (cursor st ! (ids ! i))) (st\<lparr>cursor := (cursor st)[ids ! i := cursor st ! (ids ! i) + 1]\<rparr>)"
  "i < length ids \<Longrightarrow> thread_pc st ! i = Claimed p \<Longrightarrow> moe_scatter_step ids weights topk i st =
     set_pc i (Token_Stored p) (st\<lparr>token_sorted := (token_sorted st)[p := i div topk]\<rparr>)"
  "i < length ids \<Longrightarrow> thread_pc st ! i = Token_Stored p \<Longrightarrow> moe_scatter_step ids weights topk i st =
     set_pc i (Weight_Stored p) (st\<lparr>weight_sorted := (weight_sorted st)[p := weights ! i]\<rparr>)"
  "i < length ids \<Longrightarrow> thread_pc st ! i = Weight_Stored p \<Longrightarrow> moe_scatter_step ids weights topk i st =
     set_pc i (Stored p) (st\<lparr>route_to_sorted := (route_to_sorted st)[i := p]\<rparr>)"
  "i < length ids \<Longrightarrow> thread_pc st ! i = Stored p \<Longrightarrow> moe_scatter_step ids weights topk i st = st"
  by (simp_all add: moe_scatter_step_def Let_def)

text \<open>A store touches only the cells of the thread that makes it.\<close>

lemma store_move:
  assumes inv: "scatter_inv ids weights topk E st" and i: "i < length ids"
    and p: "claim (thread_pc st ! i) = Some p" "claim c = Some p"
    and st': "thread_pc st' = (thread_pc st)[i := c]" "cursor st' = cursor st" "big_enough (length ids) st'"
    and oth: "\<And>q. q \<noteq> p \<Longrightarrow> token_sorted st' ! q = token_sorted st ! q \<and>
        weight_sorted st' ! q = weight_sorted st ! q"
      "\<And>j. j \<noteq> i \<Longrightarrow> route_to_sorted st' ! j = route_to_sorted st ! j"
    and own: "pc_todo c \<le> 2 \<Longrightarrow> token_sorted st' ! p = i div topk"
      "pc_todo c \<le> 1 \<Longrightarrow> weight_sorted st' ! p = weights ! i"
      "pc_todo c = 0 \<Longrightarrow> route_to_sorted st' ! i = p"
  shows "scatter_inv ids weights topk E st'"
proof -
  from inv have ids: "\<forall>i < length ids. ids ! i < E" and cl: "claims_ok ids E st"
    and so: "stores_ok ids weights topk st" by (simp_all add: scatter_inv_def)
  have len: "length (thread_pc st) = length ids" using cl by (simp add: claims_ok_def)
  have "claims_ok ids E st'"
    by (rule claims_ok_cong [OF cl]) (simp_all add: st' p map_claim_update)
  moreover have "stores_ok ids weights topk st'" unfolding stores_ok_def
  proof (rule conjI [OF st'(3)], intro allI impI)
    fix j q
    assume j: "j < length ids" and c: "claim (thread_pc st' ! j) = Some q"
    show "(pc_todo (thread_pc st' ! j) \<le> 2 \<longrightarrow> token_sorted st' ! q = j div topk) \<and>
        (pc_todo (thread_pc st' ! j) \<le> 1 \<longrightarrow> weight_sorted st' ! q = weights ! j) \<and>
        (pc_todo (thread_pc st' ! j) = 0 \<longrightarrow> route_to_sorted st' ! j = q)"
    proof (cases "j = i")
      case True
      with c p i len own show ?thesis by (simp add: st')
    next
      case False
      with c have cj: "claim (thread_pc st ! j) = Some q" by (simp add: st')
      then have "q \<noteq> p" using cl p(1) i j False unfolding claims_ok_def by blast
      with oth(1) oth(2) [OF False] so j cj False show ?thesis by (simp add: stores_ok_def st')
    qed
  qed
  ultimately show ?thesis using ids by (simp add: scatter_inv_def)
qed

lemma scatter_step_inv:
  assumes inv: "scatter_inv ids weights topk E st"
  shows "scatter_inv ids weights topk E (moe_scatter_step ids weights topk i st)"
proof (cases "i < length ids")
  case False
  with inv show ?thesis by (simp add: moe_scatter_step_def)
next
  case i: True
  from inv have ids: "\<forall>i < length ids. ids ! i < E" and cl: "claims_ok ids E st"
    and so: "stores_ok ids weights topk st" by (simp_all add: scatter_inv_def)
  have len: "length (thread_pc st) = length ids" using cl by (simp add: claims_ok_def)
  have big: "length ids \<le> length (token_sorted st)" "length ids \<le> length (weight_sorted st)"
    "length ids \<le> length (route_to_sorted st)" using so by (simp_all add: stores_ok_def big_enough_def)
  have own: "(pc_todo (thread_pc st ! i) \<le> 2 \<longrightarrow> token_sorted st ! p = i div topk) \<and>
      (pc_todo (thread_pc st ! i) \<le> 1 \<longrightarrow> weight_sorted st ! p = weights ! i)"
    if "claim (thread_pc st ! i) = Some p" for p
    using so i that unfolding stores_ok_def by blast
  have lt: "p < length (token_sorted st)" "p < length (weight_sorted st)"
    if "claim (thread_pc st ! i) = Some p" for p
    using claim_less_total [OF cl ids i that] big by simp_all
  have ir: "i < length (route_to_sorted st)" using i big by simp
  note simps = set_pc_def big_enough_def big len i ir
  show ?thesis
  proof (cases "thread_pc st ! i")
    case Ready
    let ?st' = "set_pc i (Claimed (cursor st ! (ids ! i)))
        (st\<lparr>cursor := (cursor st)[ids ! i := cursor st ! (ids ! i) + 1]\<rparr>)"
    have "stores_ok ids weights topk ?st'" unfolding stores_ok_def
    proof (intro conjI allI impI)
      fix j p assume j: "j < length ids" and c: "claim (thread_pc ?st' ! j) = Some p"
      have s: "token_sorted ?st' = token_sorted st" "weight_sorted ?st' = weight_sorted st"
        "route_to_sorted ?st' = route_to_sorted st" by (simp_all add: set_pc_def)
      show "pc_todo (thread_pc ?st' ! j) \<le> 2 \<Longrightarrow> token_sorted ?st' ! p = j div topk"
        "pc_todo (thread_pc ?st' ! j) \<le> 1 \<Longrightarrow> weight_sorted ?st' ! p = weights ! j"
        "pc_todo (thread_pc ?st' ! j) = 0 \<Longrightarrow> route_to_sorted ?st' ! j = p"
        unfolding s using so j c len
        by (cases "j = i"; simp add: stores_ok_def set_pc_def)+
    qed (simp add: simps)
    with claim_step_ok [OF cl ids i Ready] ids i Ready show ?thesis
      by (simp add: scatter_step_simps scatter_inv_def)
  next
    case (Claimed p)
    with lt [of p] show ?thesis
      by (intro store_move [OF inv i, where p = p and c = "Token_Stored p"])
        (simp_all add: scatter_step_simps simps)
  next
    case (Token_Stored p)
    with lt [of p] own [of p] show ?thesis
      by (intro store_move [OF inv i, where p = p and c = "Weight_Stored p"])
        (simp_all add: scatter_step_simps simps)
  next
    case (Weight_Stored p)
    with lt [of p] own [of p] show ?thesis
      by (intro store_move [OF inv i, where p = p and c = "Stored p"])
        (simp_all add: scatter_step_simps simps)
  next
    case (Stored p)
    with inv i show ?thesis by (simp add: scatter_step_simps)
  qed
qed

lemma scatter_step_todo:
  assumes "scatter_inv ids weights topk E st"
  shows "scatter_todo (moe_scatter_step ids weights topk i st) i \<le> scatter_todo st i - 1"
proof (cases "i < length ids")
  case True
  have "length (thread_pc st) = length ids" using assms by (simp add: scatter_inv_def claims_ok_def)
  with True show ?thesis
    by (cases "thread_pc st ! i") (simp_all add: scatter_todo_def scatter_step_simps set_pc_def)
next
  case False
  with assms show ?thesis
    by (simp add: scatter_todo_def scatter_step_simps scatter_inv_def claims_ok_def)
qed

lemma scatter_step_others:
  "j \<noteq> i \<Longrightarrow> scatter_todo (moe_scatter_step ids weights topk i st) j = scatter_todo st j"
  by (auto simp: scatter_todo_def moe_scatter_step_def set_pc_def Let_def split: scatter_pc.split)

interpretation scatter: interleaved "moe_scatter_step ids weights topk"
  "scatter_inv ids weights topk E" scatter_todo for ids :: "nat list" and weights :: "'w list" and topk E
proof unfold_locales
  show "scatter_inv ids weights topk E s \<Longrightarrow> scatter_inv ids weights topk E (moe_scatter_step ids weights topk i s)"
    for s i by (rule scatter_step_inv)
  show "scatter_inv ids weights topk E s \<Longrightarrow>
      scatter_todo (moe_scatter_step ids weights topk i s) i \<le> scatter_todo s i - 1"
    for s i by (rule scatter_step_todo)
  show "j \<noteq> i \<Longrightarrow> scatter_todo (moe_scatter_step ids weights topk i s) j \<le> scatter_todo s j"
    for s i j by (simp add: scatter_step_others)
qed

lemma scatter_init:
  assumes "\<forall>i < length ids. ids ! i < E" and "big_enough (length ids) bufs"
  shows "scatter_inv ids weights topk E
    (bufs\<lparr>cursor := moe_offset_loop (moe_count ids E) 0, thread_pc := replicate (length ids) Ready\<rparr>)"
proof -
  have "claimed_by ids (bufs\<lparr>cursor := c, thread_pc := replicate (length ids) Ready\<rparr>) e = {}" for c e
    by (auto simp: claimed_by_def)
  with assms show ?thesis
    by (simp add: scatter_inv_def claims_ok_def stores_ok_def big_enough_def)
qed

text \<open>After any fair schedule the rows are a permutation of the routes that groups them by
  expert, and each row holds its route's token and weight.\<close>

definition permuted_ok :: "nat list \<Rightarrow> 'w list \<Rightarrow> nat \<Rightarrow> nat \<Rightarrow> 'w Permuted \<Rightarrow> bool" where
  "permuted_ok ids weights topk E P \<longleftrightarrow>
     bij_betw (\<lambda>i. route_to_sorted P ! i) {..<length ids} {..<length ids} \<and>
     (\<forall>i < length ids. let p = route_to_sorted P ! i in
        offs (moe_count ids E) (ids ! i) \<le> p \<and> p < offs (moe_count ids E) (Suc (ids ! i)) \<and>
        token_sorted P ! p = i div topk \<and> weight_sorted P ! p = weights ! i)"

lemma permute_any_order:
  assumes ids: "\<forall>i < length ids. ids ! i < E" and buf: "big_enough (length ids) bufs"
    and fair: "fair_for (length ids) 4 sched"
    and run: "moe_permute ids weights topk E sched bufs = (ec, P)"
  shows "permuted_ok ids weights topk E P" and "ec = moe_count ids E @ [0]"
proof -
  let ?s0 = "bufs\<lparr>cursor := moe_offset_loop (moe_count ids E) 0, thread_pc := replicate (length ids) Ready\<rparr>"
  from run show "ec = moe_count ids E @ [0]" by (simp add: moe_permute_def moe_offset_def)
  have P: "P = run_schedule (moe_scatter_step ids weights topk) sched ?s0"
    using run by (simp add: moe_permute_def moe_offset_def)
  note init = scatter_init [OF ids buf, of weights topk]
  have inv: "scatter_inv ids weights topk E P" unfolding P by (rule scatter.run_inv [OF init])
  then have cl: "claims_ok ids E P" and so: "stores_ok ids weights topk P" by (simp_all add: scatter_inv_def)
  have fin: "\<exists>p. thread_pc P ! i = Stored p" if i: "i < length ids" for i
  proof -
    have "\<forall>i < length ids. scatter_todo ?s0 i \<le> 4" by (simp add: scatter_todo_def)
    then have "scatter_todo P i = 0" unfolding P by (rule scatter.fair_run [OF init fair _ i])
    with i cl show ?thesis
      by (cases "thread_pc P ! i") (simp_all add: scatter_todo_def claims_ok_def)
  qed
  have cp: "claim (thread_pc P ! i) = Some (route_to_sorted P ! i)" if i: "i < length ids" for i
    using fin [OF i] so i by (auto simp: stores_ok_def)
  have inj: "inj_on (\<lambda>i. route_to_sorted P ! i) {..<length ids}"
  proof (rule inj_onI)
    fix i j assume "i \<in> {..<length ids}" "j \<in> {..<length ids}"
      "route_to_sorted P ! i = route_to_sorted P ! j"
    with cp [of i] cp [of j] cl show "i = j" unfolding claims_ok_def by (metis lessThan_iff)
  qed
  have sub: "(\<lambda>i. route_to_sorted P ! i) ` {..<length ids} \<subseteq> {..<length ids}"
  proof
    fix p assume "p \<in> (\<lambda>i. route_to_sorted P ! i) ` {..<length ids}"
    then obtain i where i: "i < length ids" and "p = route_to_sorted P ! i" by blast
    with claim_less_total [OF cl ids i cp [OF i]] show "p \<in> {..<length ids}" by simp
  qed
  have "bij_betw (\<lambda>i. route_to_sorted P ! i) {..<length ids} {..<length ids}"
    using inj sub by (simp add: bij_betw_def card_subset_eq card_image)
  moreover have "let p = route_to_sorted P ! i in
        offs (moe_count ids E) (ids ! i) \<le> p \<and> p < offs (moe_count ids E) (Suc (ids ! i)) \<and>
        token_sorted P ! p = i div topk \<and> weight_sorted P ! p = weights ! i"
    if i: "i < length ids" for i
  proof -
    have "token_sorted P ! (route_to_sorted P ! i) = i div topk \<and>
        weight_sorted P ! (route_to_sorted P ! i) = weights ! i"
      using so i cp [OF i] fin [OF i] unfolding stores_ok_def by fastforce
    with claim_in_segment [OF cl ids i cp [OF i]] show ?thesis by (simp add: Let_def)
  qed
  ultimately show "permuted_ok ids weights topk E P" unfolding permuted_ok_def by blast
qed

end
