(* ===== verification/Moe_Grouped.thy ===== *)
theory Moe_Grouped
  imports Moe_Permute
begin

text \<open>
  The expert scheduler of the grouped MoE kernel (\<^verbatim>\<open>src/cuda/quant/exl3_moe_kernel.cuh\<close>,
  launched by \<^verbatim>\<open>src/cuda/quant/exl3_moe.cu\<close>).  The blocks of the grid form groups; every group
  scans the experts in the same order and numbers the active ones, processes the one whose
  number is its ticket, and draws its next ticket from an atomic counter; the last group to
  retire resets the counters.  The arithmetic of one row (gather, Hadamard, three quantised
  products, activation) is the parameter \<^term>\<open>row\<close>: \<^term>\<open>row e p\<close> is the weighted contribution of
  row \<^term>\<open>p\<close> under expert \<^term>\<open>e\<close>.  The blocks of one group meet at barriers, so a group moves as
  one thread; a step writes one row.
\<close>

datatype group_pc = Scanning | Writing nat | Drawing | Retired

record Group =
  expert_idx :: nat
  expert_idx_assign :: nat
  end_row :: nat
  ticket :: nat
  gpc :: group_pc

record 'y Grouped =
  next_ticket :: nat
  retired_groups :: nat
  groups :: "Group list"
  contributions :: "'y list"

definition put_group :: "nat \<Rightarrow> Group \<Rightarrow> 'y Grouped \<Rightarrow> 'y Grouped" where
  "put_group g w st = st\<lparr>groups := (groups st)[g := w]\<rparr>"

definition group_new :: "nat \<Rightarrow> Group" where
  "group_new g = \<lparr>expert_idx = 0, expert_idx_assign = 0, end_row = 0, ticket = g, gpc = Scanning\<rparr>"

text \<open>One turn of the loop over the experts: the token span, the two guards, the claim.\<close>

definition group_scan :: "nat list \<Rightarrow> nat \<Rightarrow> Group \<Rightarrow> Group" where
  "group_scan expert_count max_tokens_per_expert w =
     (let start = end_row w;
          fin = start + expert_count ! expert_idx w;
          token_count = fin - start;
          a = expert_idx_assign w
      in if token_count = 0 \<or> token_count > max_tokens_per_expert
         then w\<lparr>end_row := fin, expert_idx := expert_idx w + 1\<rparr>
         else if a \<noteq> ticket w
         then w\<lparr>end_row := fin, expert_idx_assign := a + 1, expert_idx := expert_idx w + 1\<rparr>
         else w\<lparr>end_row := fin, expert_idx_assign := a + 1, gpc := Writing start\<rparr>)"

text \<open>The row loop of the output stage.\<close>

definition group_write :: "(nat \<Rightarrow> nat \<Rightarrow> 'y) \<Rightarrow> nat \<Rightarrow> nat \<Rightarrow> 'y Grouped \<Rightarrow> 'y Grouped" where
  "group_write row g p st =
     (let w = groups st ! g in
      if p < end_row w
      then put_group g (w\<lparr>gpc := Writing (p + 1)\<rparr>)
             (st\<lparr>contributions := (contributions st)[p := row (expert_idx w) p]\<rparr>)
      else put_group g (w\<lparr>gpc := Drawing\<rparr>) st)"

definition group_draw :: "nat \<Rightarrow> 'y Grouped \<Rightarrow> 'y Grouped" where
  "group_draw g st =
     (let w = groups st ! g in
      put_group g (w\<lparr>ticket := length (groups st) + next_ticket st,
                     expert_idx := expert_idx w + 1, gpc := Scanning\<rparr>)
        (st\<lparr>next_ticket := next_ticket st + 1\<rparr>))"

definition group_retire :: "nat \<Rightarrow> 'y Grouped \<Rightarrow> 'y Grouped" where
  "group_retire g st =
     (let w = groups st ! g; retired = retired_groups st;
          st' = put_group g (w\<lparr>gpc := Retired\<rparr>) (st\<lparr>retired_groups := retired + 1\<rparr>)
      in if retired = length (groups st) - 1
         then st'\<lparr>next_ticket := 0, retired_groups := 0\<rparr> else st')"

definition moe_group_step ::
  "nat list \<Rightarrow> nat \<Rightarrow> nat \<Rightarrow> (nat \<Rightarrow> nat \<Rightarrow> 'y) \<Rightarrow> nat \<Rightarrow> 'y Grouped \<Rightarrow> 'y Grouped" where
  "moe_group_step expert_count num_experts cap row g st =
     (if g \<ge> length (groups st) then st
      else case gpc (groups st ! g) of
        Scanning \<Rightarrow> if expert_idx (groups st ! g) < num_experts
                    then put_group g (group_scan expert_count cap (groups st ! g)) st
                    else group_retire g st
      | Writing p \<Rightarrow> group_write row g p st
      | Drawing \<Rightarrow> group_draw g st
      | Retired \<Rightarrow> st)"

text \<open>The launch: as many groups as there are active experts, within the buffers and the lock
  table.\<close>

definition moe_num_groups :: "nat \<Rightarrow> nat \<Rightarrow> nat" where
  "moe_num_groups concurrency num_active =
     (let num_groups = min concurrency 64
      in if num_active > 0 then min num_groups num_active else num_groups)"

definition moe_launch :: "nat \<Rightarrow> 'y list \<Rightarrow> 'y Grouped" where
  "moe_launch num_groups buf =
     \<lparr>next_ticket = 0, retired_groups = 0, groups = map group_new [0..<num_groups], contributions = buf\<rparr>"

definition moe_grouped ::
  "nat list \<Rightarrow> nat \<Rightarrow> nat \<Rightarrow> nat \<Rightarrow> (nat \<Rightarrow> nat \<Rightarrow> 'y) \<Rightarrow> nat list \<Rightarrow> nat \<Rightarrow> 'y list \<Rightarrow> 'y Grouped" where
  "moe_grouped expert_count num_experts cap concurrency row sched num_active buf =
     run_schedule (moe_group_step expert_count num_experts cap row) sched
       (moe_launch (moe_num_groups concurrency num_active) buf)"

section \<open>Active experts and their numbers\<close>

definition active :: "nat list \<Rightarrow> nat \<Rightarrow> nat \<Rightarrow> bool" where
  "active cs cap e \<longleftrightarrow> 0 < cs ! e \<and> cs ! e \<le> cap"

definition nact :: "nat list \<Rightarrow> nat \<Rightarrow> nat \<Rightarrow> nat" where
  "nact cs cap k = card {e. e < k \<and> active cs cap e}"

lemma nact_0 [simp]: "nact cs cap 0 = 0"
  by (simp add: nact_def)

lemma nact_Suc: "nact cs cap (Suc k) = (if active cs cap k then Suc (nact cs cap k) else nact cs cap k)"
proof -
  have "{e. e < Suc k \<and> active cs cap e} =
      (if active cs cap k then insert k {e. e < k \<and> active cs cap e} else {e. e < k \<and> active cs cap e})"
    by (auto simp: less_Suc_eq)
  then show ?thesis by (simp add: nact_def)
qed

lemma nact_mono: "k \<le> l \<Longrightarrow> nact cs cap k \<le> nact cs cap l"
  unfolding nact_def by (rule card_mono) auto

lemma nact_strict: "active cs cap e \<Longrightarrow> e < k \<Longrightarrow> nact cs cap e < nact cs cap k"
  using nact_mono [of "Suc e" k cs cap] by (simp add: nact_Suc)

lemma nact_inj: "active cs cap e \<Longrightarrow> active cs cap e' \<Longrightarrow> nact cs cap e = nact cs cap e' \<Longrightarrow> e = e'"
  by (metis nact_strict less_irrefl linorder_neqE_nat)

section \<open>The invariant\<close>

fun group_ok :: "nat list \<Rightarrow> nat \<Rightarrow> nat \<Rightarrow> Group \<Rightarrow> bool" where
  "group_ok cs cap E w =
     (case gpc w of
        Scanning \<Rightarrow> expert_idx w \<le> E \<and> end_row w = offs cs (expert_idx w) \<and>
          expert_idx_assign w = nact cs cap (expert_idx w) \<and> nact cs cap (expert_idx w) \<le> ticket w
      | Writing p \<Rightarrow> expert_idx w < E \<and> active cs cap (expert_idx w) \<and>
          nact cs cap (expert_idx w) = ticket w \<and> expert_idx_assign w = Suc (ticket w) \<and>
          end_row w = offs cs (Suc (expert_idx w)) \<and>
          offs cs (expert_idx w) \<le> p \<and> p \<le> offs cs (Suc (expert_idx w))
      | Drawing \<Rightarrow> expert_idx w < E \<and> active cs cap (expert_idx w) \<and>
          nact cs cap (expert_idx w) = ticket w \<and> expert_idx_assign w = Suc (ticket w) \<and>
          end_row w = offs cs (Suc (expert_idx w))
      | Retired \<Rightarrow> nact cs cap E \<le> ticket w)"

declare group_ok.simps [simp del]

definition rows_done :: "nat list \<Rightarrow> (nat \<Rightarrow> nat \<Rightarrow> 'y) \<Rightarrow> nat \<Rightarrow> nat \<Rightarrow> 'y list \<Rightarrow> bool" where
  "rows_done cs row e q c \<longleftrightarrow> (\<forall>p. offs cs e \<le> p \<and> p < q \<longrightarrow> c ! p = row e p)"

definition owns :: "nat list \<Rightarrow> nat \<Rightarrow> (nat \<Rightarrow> nat \<Rightarrow> 'y) \<Rightarrow> nat \<Rightarrow> 'y list \<Rightarrow> Group \<Rightarrow> bool" where
  "owns cs cap row e c w \<longleftrightarrow> ticket w = nact cs cap e \<and>
     (case gpc w of Scanning \<Rightarrow> True | Writing q \<Rightarrow> rows_done cs row e q c | _ \<Rightarrow> False)"

text \<open>\<^term>\<open>T\<close> tickets have been issued.  Each is held by one group; the expert with an issued number
  is finished or its group is still before it or at it; the counter tells how many tickets were
  drawn as long as some group runs, and is back to zero when none does.\<close>

definition tickets_ok :: "nat \<Rightarrow> 'y Grouped \<Rightarrow> bool" where
  "tickets_ok T st \<longleftrightarrow>
     (\<forall>g < length (groups st). ticket (groups st ! g) < T) \<and>
     (\<forall>g < length (groups st). \<forall>h < length (groups st).
        ticket (groups st ! g) = ticket (groups st ! h) \<longrightarrow> g = h)"

definition retired_set :: "'y Grouped \<Rightarrow> nat set" where
  "retired_set st = {g. g < length (groups st) \<and> gpc (groups st ! g) = Retired}"

definition counters_ok :: "nat \<Rightarrow> 'y Grouped \<Rightarrow> bool" where
  "counters_ok T st \<longleftrightarrow>
     (if card (retired_set st) = length (groups st) then next_ticket st = 0 \<and> retired_groups st = 0
      else length (groups st) + next_ticket st = T \<and> retired_groups st = card (retired_set st))"

definition experts_ok ::
  "nat list \<Rightarrow> nat \<Rightarrow> nat \<Rightarrow> (nat \<Rightarrow> nat \<Rightarrow> 'y) \<Rightarrow> nat \<Rightarrow> 'y Grouped \<Rightarrow> bool" where
  "experts_ok cs E cap row T st \<longleftrightarrow>
     (\<forall>g < length (groups st). group_ok cs cap E (groups st ! g)) \<and>
     (\<forall>e < E. active cs cap e \<and> nact cs cap e < T \<longrightarrow>
        rows_done cs row e (offs cs (Suc e)) (contributions st) \<or>
        (\<exists>g < length (groups st). owns cs cap row e (contributions st) (groups st ! g)))"

definition group_inv ::
  "nat list \<Rightarrow> nat \<Rightarrow> nat \<Rightarrow> (nat \<Rightarrow> nat \<Rightarrow> 'y) \<Rightarrow> nat \<Rightarrow> nat \<Rightarrow> 'y Grouped \<Rightarrow> bool" where
  "group_inv cs E cap row G T st \<longleftrightarrow> E \<le> length cs \<and> length (groups st) = G \<and>
     offs cs E \<le> length (contributions st) \<and>
     tickets_ok T st \<and> counters_ok T st \<and> experts_ok cs E cap row T st"

lemma nth_put_group [simp]:
  "g < length (groups st) \<Longrightarrow> groups (put_group g w st) ! h = (if h = g then w else groups st ! h)"
  by (simp add: put_group_def nth_list_update)

lemma put_group_simps [simp]:
  "length (groups (put_group g w st)) = length (groups st)"
  "contributions (put_group g w st) = contributions st"
  "next_ticket (put_group g w st) = next_ticket st"
  "retired_groups (put_group g w st) = retired_groups st"
  by (simp_all add: put_group_def)

lemma contributions_only [simp]:
  "tickets_ok T (st\<lparr>contributions := c\<rparr>) = tickets_ok T st"
  "counters_ok T (st\<lparr>contributions := c\<rparr>) = counters_ok T st"
proof -
  have "retired_set (st\<lparr>contributions := c\<rparr>) = retired_set st" by (simp add: retired_set_def)
  then show "counters_ok T (st\<lparr>contributions := c\<rparr>) = counters_ok T st" by (simp add: counters_ok_def)
qed (simp add: tickets_ok_def)

text \<open>A step in which one group moves on without a new ticket.\<close>

lemma group_move:
  assumes inv: "group_inv cs E cap row G T st" and g: "g < G"
    and ok: "group_ok cs cap E w" and t: "ticket w = ticket (groups st ! g)"
    and r: "gpc w \<noteq> Retired" "gpc (groups st ! g) \<noteq> Retired"
    and own: "\<And>e. e < E \<Longrightarrow> active cs cap e \<Longrightarrow> owns cs cap row e (contributions st) (groups st ! g) \<Longrightarrow>
        owns cs cap row e (contributions st) w \<or> rows_done cs row e (offs cs (Suc e)) (contributions st)"
  shows "group_inv cs E cap row G T (put_group g w st)"
proof -
  from inv have len: "length (groups st) = G" and tk: "tickets_ok T st" and ct: "counters_ok T st"
    and ex: "experts_ok cs E cap row T st" by (simp_all add: group_inv_def)
  let ?st = "put_group g w st"
  have n: "groups ?st ! h = (if h = g then w else groups st ! h)" for h using g len by simp
  have "ticket (groups ?st ! h) = ticket (groups st ! h)" for h by (simp add: n t)
  then have "tickets_ok T ?st" using tk by (simp add: tickets_ok_def)
  moreover have "retired_set ?st = retired_set st" using r g len by (auto simp: retired_set_def)
  then have "counters_ok T ?st" using ct by (simp add: counters_ok_def)
  moreover have "experts_ok cs E cap row T ?st" unfolding experts_ok_def
  proof (intro conjI allI impI)
    show "group_ok cs cap E (groups ?st ! h)" if "h < length (groups ?st)" for h
      using that ex ok by (simp add: n experts_ok_def)
    fix e assume e: "e < E" and a: "active cs cap e \<and> nact cs cap e < T"
    with ex consider "rows_done cs row e (offs cs (Suc e)) (contributions st)"
      | h where "h < G" "owns cs cap row e (contributions st) (groups st ! h)"
      unfolding experts_ok_def len by blast
    then show "rows_done cs row e (offs cs (Suc e)) (contributions ?st) \<or>
        (\<exists>h < length (groups ?st). owns cs cap row e (contributions ?st) (groups ?st ! h))"
    proof cases
      case (2 h)
      then show ?thesis using own [OF e] a g by (cases "h = g") (auto simp: n len)
    qed simp
  qed
  ultimately show ?thesis using inv by (simp add: group_inv_def)
qed

lemma scan_step_inv:
  assumes inv: "group_inv cs E cap row G T st" and g: "g < G"
    and s: "gpc (groups st ! g) = Scanning" and i: "expert_idx (groups st ! g) < E"
  shows "group_inv cs E cap row G T (put_group g (group_scan cs cap (groups st ! g)) st)"
proof (rule group_move [OF inv g])
  let ?w = "groups st ! g"
  let ?i = "expert_idx ?w"
  from inv g have ok: "group_ok cs cap E ?w" and E: "E \<le> length cs"
    by (simp_all add: group_inv_def experts_ok_def)
  have o: "offs cs (Suc ?i) = offs cs ?i + cs ! ?i" using i E by (simp add: offs_Suc)
  from ok s have w: "end_row ?w = offs cs ?i" "expert_idx_assign ?w = nact cs cap ?i"
    "nact cs cap ?i \<le> ticket ?w" by (simp_all add: group_ok.simps)
  show "group_ok cs cap E (group_scan cs cap ?w)"
    using w o i s by (auto simp: group_scan_def Let_def group_ok.simps nact_Suc active_def)
  show "ticket (group_scan cs cap ?w) = ticket ?w" "gpc (group_scan cs cap ?w) \<noteq> Retired"
    using s by (simp_all add: group_scan_def Let_def)
  show "gpc ?w \<noteq> Retired" using s by simp
  fix e
  assume "e < E" and e: "active cs cap e" and own: "owns cs cap row e (contributions st) ?w"
  show "owns cs cap row e (contributions st) (group_scan cs cap ?w) \<or>
      rows_done cs row e (offs cs (Suc e)) (contributions st)"
  proof (cases "active cs cap ?i \<and> expert_idx_assign ?w = ticket ?w")
    case True
    have "nact cs cap e = nact cs cap ?i" using True own w by (simp add: owns_def)
    with e True have "e = ?i" using nact_inj by blast
    with True own s w show ?thesis
      by (auto simp: owns_def group_scan_def Let_def active_def rows_done_def)
  next
    case False
    with own s show ?thesis by (auto simp: owns_def group_scan_def Let_def active_def)
  qed
qed

lemma write_step_inv:
  assumes inv: "group_inv cs E cap row G T st" and g: "g < G"
    and s: "gpc (groups st ! g) = Writing p"
  shows "group_inv cs E cap row G T (group_write row g p st)"
proof -
  let ?w = "groups st ! g"
  let ?i = "expert_idx ?w"
  let ?c = "contributions st"
  from inv g have ok: "group_ok cs cap E ?w" and E: "E \<le> length cs"
    and lc: "offs cs E \<le> length ?c" by (simp_all add: group_inv_def experts_ok_def)
  from ok s have w: "?i < E" "active cs cap ?i" "nact cs cap ?i = ticket ?w"
    "expert_idx_assign ?w = Suc (ticket ?w)" "end_row ?w = offs cs (Suc ?i)"
    "offs cs ?i \<le> p" "p \<le> offs cs (Suc ?i)" by (simp_all add: group_ok.simps)
  have mine: "e = ?i" if "active cs cap e" "owns cs cap row e c ?w" for e c
  proof (rule nact_inj [OF that(1) w(2)])
    show "nact cs cap e = nact cs cap ?i" using that(2) w(3) by (simp add: owns_def)
  qed
  show ?thesis
  proof (cases "p < end_row ?w")
    case False
    then have r: "group_write row g p st = put_group g (?w\<lparr>gpc := Drawing\<rparr>) st"
      by (simp add: group_write_def)
    show ?thesis unfolding r
    proof (rule group_move [OF inv g])
      show "group_ok cs cap E (?w\<lparr>gpc := Drawing\<rparr>)" using w by (simp add: group_ok.simps)
      fix e assume e: "e < E" "active cs cap e" "owns cs cap row e ?c ?w"
      have "e = ?i" by (rule mine [OF e(2,3)])
      with False w s e(3) show "owns cs cap row e ?c (?w\<lparr>gpc := Drawing\<rparr>) \<or>
          rows_done cs row e (offs cs (Suc e)) ?c"
        by (simp add: owns_def rows_done_def)
    qed (simp_all add: s)
  next
    case True
    let ?c' = "?c[p := row ?i p]"
    let ?st = "st\<lparr>contributions := ?c'\<rparr>"
    have r: "group_write row g p st = put_group g (?w\<lparr>gpc := Writing (p + 1)\<rparr>) ?st"
      using True by (simp add: group_write_def Let_def)
    have pl: "p < length ?c"
      using True w lc offs_mono [of "Suc ?i" E cs] E by simp
    have keep: "rows_done cs row e q ?c'" if "rows_done cs row e q ?c" "q \<le> offs cs (Suc e)" "e < E" for e q
    proof -
      have "e = ?i" if "offs cs e \<le> p" "p < q"
        using that \<open>q \<le> offs cs (Suc e)\<close> \<open>e < E\<close> E w True
        by (intro segment_unique [of e cs ?i p]) simp_all
      with that pl show ?thesis by (auto simp: rows_done_def nth_list_update)
    qed
    have keepo: "owns cs cap row e ?c' (groups st ! h)"
      if "owns cs cap row e ?c (groups st ! h)" "e < E" "active cs cap e" "h < G" for e h
    proof (cases "gpc (groups st ! h)")
      case (Writing q)
      with inv that have "group_ok cs cap E (groups st ! h)" by (simp add: group_inv_def experts_ok_def)
      with Writing have h: "active cs cap (expert_idx (groups st ! h))"
        "nact cs cap (expert_idx (groups st ! h)) = ticket (groups st ! h)"
        "q \<le> offs cs (Suc (expert_idx (groups st ! h)))" by (simp_all add: group_ok.simps)
      moreover have "nact cs cap e = ticket (groups st ! h)" using that(1) by (simp add: owns_def)
      ultimately have "expert_idx (groups st ! h) = e"
        by (intro nact_inj [OF h(1) that(3)]) simp
      with keep [of e q] Writing that h(3) show ?thesis by (simp add: owns_def)
    qed (use that in \<open>simp_all add: owns_def\<close>)
    have inv': "group_inv cs E cap row G T ?st"
    proof -
      from inv have len: "length (groups st) = G" and ex: "experts_ok cs E cap row T st"
        by (simp_all add: group_inv_def)
      have "experts_ok cs E cap row T ?st" unfolding experts_ok_def
      proof (intro conjI allI impI)
        show "group_ok cs cap E (groups ?st ! h)" if "h < length (groups ?st)" for h
          using that ex by (simp add: experts_ok_def)
        fix e assume e: "e < E" and a: "active cs cap e \<and> nact cs cap e < T"
        with ex consider "rows_done cs row e (offs cs (Suc e)) ?c"
          | h where "h < G" "owns cs cap row e ?c (groups st ! h)"
          unfolding experts_ok_def len by blast
        then show "rows_done cs row e (offs cs (Suc e)) (contributions ?st) \<or>
            (\<exists>h < length (groups ?st). owns cs cap row e (contributions ?st) (groups ?st ! h))"
        proof cases
          case 1
          with keep [of e] e show ?thesis by simp
        next
          case (2 h)
          with keepo [OF 2(2) e _ 2(1)] a show ?thesis by (auto simp: len)
        qed
      qed
      with inv show ?thesis by (simp add: group_inv_def)
    qed
    show ?thesis unfolding r
    proof (rule group_move [OF inv' g])
      show "group_ok cs cap E (?w\<lparr>gpc := Writing (p + 1)\<rparr>)" using w True by (simp add: group_ok.simps)
      fix e assume e: "e < E" "active cs cap e" "owns cs cap row e (contributions ?st) (groups ?st ! g)"
      then have "e = ?i" using mine by simp
      with e s pl show "owns cs cap row e (contributions ?st) (?w\<lparr>gpc := Writing (p + 1)\<rparr>) \<or>
          rows_done cs row e (offs cs (Suc e)) (contributions ?st)"
        by (auto simp: owns_def rows_done_def less_Suc_eq)
    qed (simp_all add: s)
  qed
qed

lemma draw_step_inv:
  assumes inv: "group_inv cs E cap row G T st" and g: "g < G"
    and s: "gpc (groups st ! g) = Drawing"
  shows "group_inv cs E cap row G (Suc T) (group_draw g st)"
proof -
  let ?w = "groups st ! g"
  let ?i = "expert_idx ?w"
  from inv have len: "length (groups st) = G" and tk: "tickets_ok T st" and ct: "counters_ok T st"
    and ex: "experts_ok cs E cap row T st" and E: "E \<le> length cs" by (simp_all add: group_inv_def)
  from ex g len have ok: "group_ok cs cap E ?w" by (simp add: experts_ok_def)
  with s have w: "?i < E" "active cs cap ?i" "nact cs cap ?i = ticket ?w"
    "expert_idx_assign ?w = Suc (ticket ?w)" "end_row ?w = offs cs (Suc ?i)"
    by (simp_all add: group_ok.simps)
  have "retired_set st \<subseteq> {..<G} - {g}" using s len by (auto simp: retired_set_def)
  then have "card (retired_set st) \<le> G - 1" using card_mono [of "{..<G} - {g}"] g by fastforce
  then have nr: "card (retired_set st) \<noteq> G" using g by simp
  with ct have T: "G + next_ticket st = T" and rt: "retired_groups st = card (retired_set st)"
    by (simp_all add: counters_ok_def len)
  let ?w' = "?w\<lparr>ticket := T, expert_idx := ?i + 1, gpc := Scanning\<rparr>"
  let ?st = "group_draw g st"
  have n: "groups ?st ! h = (if h = g then ?w' else groups st ! h)" for h
    using g len T by (simp add: group_draw_def Let_def)
  have l: "length (groups ?st) = G" "contributions ?st = contributions st"
    "next_ticket ?st = next_ticket st + 1" "retired_groups ?st = retired_groups st"
    using len by (simp_all add: group_draw_def Let_def)
  have tl: "ticket (groups st ! h) < T" if "h < G" for h using tk that len by (simp add: tickets_ok_def)
  have td: "h = h'" if "h < G" "h' < G" "ticket (groups st ! h) = ticket (groups st ! h')" for h h'
    using tk that len unfolding tickets_ok_def by blast
  have "tickets_ok (Suc T) ?st" unfolding tickets_ok_def l
  proof (intro conjI allI impI)
    show "ticket (groups ?st ! h) < Suc T" if "h < G" for h using tl [OF that] by (simp add: n)
    fix h h' assume "h < G" "h' < G" "ticket (groups ?st ! h) = ticket (groups ?st ! h')"
    with tl [of h] tl [of h'] td [of h h'] show "h = h'"
      by (cases "h = g"; cases "h' = g") (simp_all add: n)
  qed
  moreover have "retired_set ?st = retired_set st"
    using s len by (auto simp: retired_set_def l n split: if_splits)
  then have "counters_ok (Suc T) ?st" using nr T rt by (simp add: counters_ok_def l)
  moreover have "experts_ok cs E cap row (Suc T) ?st" unfolding experts_ok_def l
  proof (intro conjI allI impI)
    have "group_ok cs cap E ?w'" using w tl [OF g] by (simp add: group_ok.simps nact_Suc)
    then show "group_ok cs cap E (groups ?st ! h)" if "h < G" for h
      using that ex len by (simp add: n experts_ok_def)
    fix e assume e: "e < E" and a: "active cs cap e \<and> nact cs cap e < Suc T"
    show "rows_done cs row e (offs cs (Suc e)) (contributions st) \<or>
        (\<exists>h < G. owns cs cap row e (contributions st) (groups ?st ! h))"
    proof (cases "nact cs cap e = T")
      case True
      then have "owns cs cap row e (contributions st) (groups ?st ! g)" by (simp add: owns_def n)
      with g show ?thesis by blast
    next
      case False
      with a e ex consider "rows_done cs row e (offs cs (Suc e)) (contributions st)"
        | h where "h < G" "owns cs cap row e (contributions st) (groups st ! h)"
        unfolding experts_ok_def len by (metis less_SucE)
      then show ?thesis
      proof cases
        case (2 h)
        then have "h \<noteq> g" using s by (auto simp: owns_def)
        with 2 have "owns cs cap row e (contributions st) (groups ?st ! h)" by (simp add: n)
        with 2 show ?thesis by blast
      qed simp
    qed
  qed
  ultimately show ?thesis using inv by (simp add: group_inv_def l)
qed

lemma retire_step_inv:
  assumes inv: "group_inv cs E cap row G T st" and g: "g < G"
    and s: "gpc (groups st ! g) = Scanning" and i: "\<not> expert_idx (groups st ! g) < E"
  shows "group_inv cs E cap row G T (group_retire g st)"
proof -
  let ?w = "groups st ! g"
  from inv have len: "length (groups st) = G" and tk: "tickets_ok T st" and ct: "counters_ok T st"
    and ex: "experts_ok cs E cap row T st" by (simp_all add: group_inv_def)
  from ex g len have "group_ok cs cap E ?w" by (simp add: experts_ok_def)
  with s i have w: "nact cs cap E \<le> ticket ?w" by (auto simp: group_ok.simps)
  let ?st = "group_retire g st"
  let ?w' = "?w\<lparr>gpc := Retired\<rparr>"
  have gr: "groups ?st = (groups st)[g := ?w']"
    by (simp add: group_retire_def Let_def put_group_def)
  then have n: "groups ?st ! h = (if h = g then ?w' else groups st ! h)" for h
    using g len by (simp add: nth_list_update)
  have l: "length (groups ?st) = G" "contributions ?st = contributions st"
    using len gr by (simp_all add: group_retire_def Let_def)
  have "g \<notin> retired_set st" by (simp add: retired_set_def s)
  moreover have fin: "finite (retired_set st)" by (simp add: retired_set_def)
  moreover have rs: "retired_set ?st = insert g (retired_set st)"
    using g len by (auto simp: retired_set_def l n)
  ultimately have c: "card (retired_set ?st) = Suc (card (retired_set st))" by simp
  have "retired_set st \<subseteq> {..<G} - {g}" using s len by (auto simp: retired_set_def)
  then have "card (retired_set st) \<le> G - 1" using card_mono [of "{..<G} - {g}"] g by fastforce
  then have nr: "card (retired_set st) \<noteq> G" using g by simp
  with ct have T: "G + next_ticket st = T" and rt: "retired_groups st = card (retired_set st)"
    by (simp_all add: counters_ok_def len)
  have "ticket (groups ?st ! h) = ticket (groups st ! h)" for h by (simp add: n)
  then have "tickets_ok T ?st" using tk len by (simp add: tickets_ok_def l)
  moreover have "counters_ok T ?st"
  proof (cases "retired_groups st = G - 1")
    case True
    then have "card (retired_set ?st) = G" using c rt g by simp
    with True len show ?thesis by (simp add: counters_ok_def l group_retire_def Let_def)
  next
    case False
    then have "card (retired_set ?st) \<noteq> G" using c rt by simp
    moreover have "next_ticket ?st = next_ticket st" "retired_groups ?st = Suc (retired_groups st)"
      using False len by (simp_all add: group_retire_def Let_def)
    ultimately show ?thesis using T rt c by (simp add: counters_ok_def l)
  qed
  moreover have "experts_ok cs E cap row T ?st" unfolding experts_ok_def l
  proof (intro conjI allI impI)
    show "group_ok cs cap E (groups ?st ! h)" if "h < G" for h
      using that ex len w by (simp add: n experts_ok_def group_ok.simps [of _ _ _ "?w'"])
    fix e assume e: "e < E" and a: "active cs cap e \<and> nact cs cap e < T"
    with ex consider "rows_done cs row e (offs cs (Suc e)) (contributions st)"
      | h where "h < G" "owns cs cap row e (contributions st) (groups st ! h)"
      unfolding experts_ok_def len by blast
    then show "rows_done cs row e (offs cs (Suc e)) (contributions st) \<or>
        (\<exists>h < G. owns cs cap row e (contributions st) (groups ?st ! h))"
    proof cases
      case (2 h)
      have "nact cs cap e < nact cs cap E" using a e by (intro nact_strict) simp_all
      with 2 w have "h \<noteq> g" by (auto simp: owns_def)
      with 2 have "owns cs cap row e (contributions st) (groups ?st ! h)" by (simp add: n)
      with 2 show ?thesis by blast
    qed simp
  qed
  ultimately show ?thesis using inv by (simp add: group_inv_def l)
qed

lemma group_step_inv:
  assumes inv: "group_inv cs E cap row G T st"
  shows "\<exists>T'. group_inv cs E cap row G T' (moe_group_step cs E cap row g st)"
proof (cases "g < G")
  case True
  with inv have l: "\<not> length (groups st) \<le> g" by (simp add: group_inv_def)
  show ?thesis
  proof (cases "gpc (groups st ! g)")
    case Scanning
    with scan_step_inv [OF inv True] retire_step_inv [OF inv True] l show ?thesis
      by (cases "expert_idx (groups st ! g) < E") (auto simp: moe_group_step_def)
  next
    case (Writing p)
    with write_step_inv [OF inv True] l show ?thesis by (auto simp: moe_group_step_def)
  next
    case Drawing
    with draw_step_inv [OF inv True] l show ?thesis by (auto simp: moe_group_step_def)
  next
    case Retired
    with inv show ?thesis by (auto simp: moe_group_step_def)
  qed
next
  case False
  with inv have "length (groups st) \<le> g" by (simp add: group_inv_def)
  with inv show ?thesis by (auto simp: moe_group_step_def)
qed

section \<open>Progress\<close>

definition scan_left :: "nat list \<Rightarrow> nat \<Rightarrow> nat \<Rightarrow> nat" where
  "scan_left cs E k = sum_list (map (\<lambda>c. c + 3) (drop k (take E cs))) + 1"

lemma scan_left_step:
  assumes "k < E" and "E \<le> length cs"
  shows "scan_left cs E k = cs ! k + 3 + scan_left cs E (Suc k)"
proof -
  have "drop k (take E cs) = take E cs ! k # drop (Suc k) (take E cs)"
    using assms by (intro Cons_nth_drop_Suc [symmetric]) simp
  with assms show ?thesis by (simp add: scan_left_def)
qed

lemma scan_left_0: "E \<le> length cs \<Longrightarrow> scan_left cs E 0 = offs cs E + 3 * E + 1"
  by (simp add: scan_left_def nth_offset_loop sum_list_addf sum_list_triv)

definition group_todo :: "nat list \<Rightarrow> nat \<Rightarrow> 'y Grouped \<Rightarrow> nat \<Rightarrow> nat" where
  "group_todo cs E st g =
     (if g \<ge> length (groups st) then 0
      else let w = groups st ! g in
        case gpc w of
          Scanning \<Rightarrow> scan_left cs E (expert_idx w)
        | Writing p \<Rightarrow> (end_row w - p) + 2 + scan_left cs E (Suc (expert_idx w))
        | Drawing \<Rightarrow> 1 + scan_left cs E (Suc (expert_idx w))
        | Retired \<Rightarrow> 0)"

lemma group_step_todo:
  assumes inv: "group_inv cs E cap row G T st"
  shows "group_todo cs E (moe_group_step cs E cap row g st) g \<le> group_todo cs E st g - 1"
proof (cases "g < G")
  case False
  with inv show ?thesis by (simp add: group_inv_def group_todo_def moe_group_step_def)
next
  case True
  let ?w = "groups st ! g"
  from inv True have g: "g < length (groups st)" and E: "E \<le> length cs" and ok: "group_ok cs cap E ?w"
    by (simp_all add: group_inv_def experts_ok_def)
  show ?thesis
  proof (cases "gpc ?w")
    case Scanning
    show ?thesis
    proof (cases "expert_idx ?w < E")
      case True
      from scan_left_step [OF True E] Scanning g True show ?thesis
        by (auto simp: group_todo_def moe_group_step_def group_scan_def Let_def)
    next
      case False
      with Scanning g show ?thesis
        by (simp add: group_todo_def moe_group_step_def group_retire_def Let_def scan_left_def put_group_def)
    qed
  next
    case (Writing p)
    with g show ?thesis by (auto simp: group_todo_def moe_group_step_def group_write_def Let_def)
  next
    case Drawing
    with g show ?thesis by (simp add: group_todo_def moe_group_step_def group_draw_def Let_def)
  next
    case Retired
    with g show ?thesis by (simp add: group_todo_def moe_group_step_def)
  qed
qed

lemma group_step_others:
  assumes "h \<noteq> g"
  shows "group_todo cs E (moe_group_step cs E cap row g st) h = group_todo cs E st h"
proof -
  have "groups (moe_group_step cs E cap row g st) ! h = groups st ! h"
    "length (groups (moe_group_step cs E cap row g st)) = length (groups st)"
    using assms by (auto simp: moe_group_step_def group_write_def group_draw_def group_retire_def
        Let_def put_group_def split: group_pc.split)
  then show ?thesis by (simp add: group_todo_def)
qed

interpretation grouped: interleaved "moe_group_step cs E cap row"
  "\<lambda>st. \<exists>T. group_inv cs E cap row G T st" "group_todo cs E"
  for cs E cap and row :: "nat \<Rightarrow> nat \<Rightarrow> 'y" and G
proof unfold_locales
  show "\<exists>T. group_inv cs E cap row G T s \<Longrightarrow>
      \<exists>T. group_inv cs E cap row G T (moe_group_step cs E cap row i s)" for s i
    using group_step_inv by blast
  show "\<exists>T. group_inv cs E cap row G T s \<Longrightarrow>
      group_todo cs E (moe_group_step cs E cap row i s) i \<le> group_todo cs E s i - 1" for s i
    using group_step_todo by blast
  show "j \<noteq> i \<Longrightarrow> group_todo cs E (moe_group_step cs E cap row i s) j \<le> group_todo cs E s j"
    for s :: "'y Grouped" and i j by (simp add: group_step_others)
qed

lemma launch_inv:
  assumes "0 < G" and "E \<le> length cs" and "offs cs E \<le> length buf"
  shows "group_inv cs E cap row G G (moe_launch G buf)"
proof -
  let ?st = "moe_launch G buf"
  have r: "retired_set ?st = {}" by (auto simp: retired_set_def moe_launch_def group_new_def)
  have "counters_ok G ?st" using assms(1) r by (simp add: counters_ok_def) (simp add: moe_launch_def)
  moreover have "tickets_ok G ?st" by (simp add: tickets_ok_def moe_launch_def group_new_def)
  moreover have "experts_ok cs E cap row G ?st"
    by (auto simp: experts_ok_def moe_launch_def group_new_def group_ok.simps owns_def)
  ultimately show ?thesis using assms by (simp add: group_inv_def) (simp add: moe_launch_def)
qed

text \<open>Under every fair schedule the groups share the experts out completely: each row gets the
  contribution of its own expert, and the scheduler is ready for the next launch.\<close>

lemma grouped_any_schedule:
  assumes G: "0 < G" and E: "E \<le> length cs" and buf: "offs cs E \<le> length buf"
    and cap: "\<forall>e < E. cs ! e \<le> cap" and fair: "fair_for G (offs cs E + 3 * E + 1) sched"
    and st_def: "st = run_schedule (moe_group_step cs E cap row) sched (moe_launch G buf)"
  shows "\<forall>e < E. \<forall>p. offs cs e \<le> p \<and> p < offs cs (Suc e) \<longrightarrow> contributions st ! p = row e p"
    and "next_ticket st = 0 \<and> retired_groups st = 0" and "\<forall>g < G. gpc (groups st ! g) = Retired"
proof -
  have init: "\<exists>T. group_inv cs E cap row G T (moe_launch G buf)"
    using launch_inv [OF G E buf] by blast
  obtain T where inv: "group_inv cs E cap row G T st"
    using grouped.run_inv [OF init] unfolding st_def by blast
  then have len: "length (groups st) = G" and tk: "tickets_ok T st" and ct: "counters_ok T st"
    and ex: "experts_ok cs E cap row T st" by (simp_all add: group_inv_def)
  have ret: "gpc (groups st ! g) = Retired" if g: "g < G" for g
  proof -
    have "\<forall>g < G. group_todo cs E (moe_launch G buf) g \<le> offs cs E + 3 * E + 1"
      using E by (simp add: group_todo_def moe_launch_def group_new_def scan_left_0 [OF E])
    from grouped.fair_run [OF init fair this g] have "group_todo cs E st g = 0" by (simp add: st_def)
    with g len show ?thesis
      by (cases "gpc (groups st ! g)") (simp_all add: group_todo_def scan_left_def Let_def)
  qed
  then show "\<forall>g < G. gpc (groups st ! g) = Retired" by blast
  have "retired_set st = {..<G}" using ret len by (auto simp: retired_set_def)
  with ct len show "next_ticket st = 0 \<and> retired_groups st = 0" by (simp add: counters_ok_def)
  have "group_ok cs cap E (groups st ! 0)" "ticket (groups st ! 0) < T"
    using ex tk G len by (simp_all add: experts_ok_def tickets_ok_def)
  with ret [OF G] have T: "nact cs cap E < T" by (simp add: group_ok.simps)
  show "\<forall>e < E. \<forall>p. offs cs e \<le> p \<and> p < offs cs (Suc e) \<longrightarrow> contributions st ! p = row e p"
  proof (intro allI impI)
    fix e p assume e: "e < E" and p: "offs cs e \<le> p \<and> p < offs cs (Suc e)"
    have "active cs cap e" using e p E cap by (simp add: active_def offs_Suc)
    moreover have "nact cs cap e < T" using nact_mono [of e E cs cap] e T by simp
    ultimately have "rows_done cs row e (offs cs (Suc e)) (contributions st)"
      using ex e ret unfolding experts_ok_def len by (fastforce simp: owns_def)
    with p show "contributions st ! p = row e p" by (simp add: rows_done_def)
  qed
qed

text \<open>At no moment do two groups work on the same expert.\<close>

lemma one_writer_per_expert:
  assumes G: "0 < G" and E: "E \<le> length cs" and buf: "offs cs E \<le> length buf"
    and st: "st = run_schedule (moe_group_step cs E cap row) sched (moe_launch G buf)"
    and "g < G" "h < G" "gpc (groups st ! g) = Writing p" "gpc (groups st ! h) = Writing q"
    and "expert_idx (groups st ! g) = expert_idx (groups st ! h)"
  shows "g = h"
proof -
  obtain T where inv: "group_inv cs E cap row G T st"
    using grouped.run_inv [where cs = cs and E = E and cap = cap and row = row and G = G]
      launch_inv [OF G E buf] unfolding st by blast
  then have len: "length (groups st) = G" and tk: "tickets_ok T st"
    and ok: "group_ok cs cap E (groups st ! g)" "group_ok cs cap E (groups st ! h)"
    using assms(5,6) by (simp_all add: group_inv_def experts_ok_def)
  from ok assms(7-9) have "ticket (groups st ! g) = ticket (groups st ! h)"
    by (simp add: group_ok.simps)
  with tk len assms(5,6) show ?thesis unfolding tickets_ok_def by blast
qed

end
