(* ===== verification/Router.thy ===== *)
theory Router
  imports Complex_Main Interleaving
begin

text \<open>
  The routing kernel the engine uses (\<^verbatim>\<open>routing_ds3_nogroup_topk_kernel\<close> in
  \<^verbatim>\<open>src/cuda/aux/routing.cu\<close>): every warp selects its K best experts by repeated arg-max,
  stages of merging bring the candidates in shared memory down to one warp, and the last warp
  normalises the weights.  Scores are elements of an ordered field; \<^term>\<open>neg\<close> stands for the
  constant -1e30, \<^term>\<open>act\<close> for the activation, \<^term>\<open>tiny\<close> for 1e-20 and \<^term>\<open>rnd\<close> for the
  conversion to half.  The lanes of a warp run in lockstep; the warps of a block do not, and a
  merge stage has no barrier between the loads and the stores of its warps, so a stage runs
  under a schedule.
\<close>

record 'f Cand =
  c_key :: 'f
  c_payload :: 'f
  c_idx :: int

text \<open>\<^verbatim>\<open>warp_reduce_best_f32\<close>: the lane with the greatest key, the lowest one on a tie.\<close>

fun warp_reduce_best :: "'f::linorder Cand list \<Rightarrow> 'f Cand" where
  "warp_reduce_best [] = undefined"
| "warp_reduce_best [c] = c"
| "warp_reduce_best (c # cs) =
     (let b = warp_reduce_best cs in if c_key b > c_key c then b else c)"

definition retire_lane :: "'f::linorder \<Rightarrow> int \<Rightarrow> 'f Cand \<Rightarrow> 'f Cand" where
  "retire_lane neg best_idx c = (if c_idx c = best_idx then c\<lparr>c_key := neg\<rparr> else c)"

fun warp_topk :: "'f::linorder \<Rightarrow> nat \<Rightarrow> 'f Cand list \<Rightarrow> 'f Cand list" where
  "warp_topk neg 0 lanes = []"
| "warp_topk neg (Suc k) lanes =
     (let best = warp_reduce_best lanes
      in best # warp_topk neg k (map (retire_lane neg (c_idx best)) lanes))"

text \<open>The candidate a lane starts with.\<close>

definition start_cand ::
  "'f::linordered_field \<Rightarrow> ('f \<Rightarrow> 'f) \<Rightarrow> 'f list \<Rightarrow> 'f list option \<Rightarrow> nat \<Rightarrow> nat \<Rightarrow> 'f Cand" where
  "start_cand neg act scores bias num_experts t =
     (let mask = t < num_experts;
          logit = (if mask then scores ! t else neg);
          a = (if bias \<noteq> None \<and> mask then act logit else 0)
      in \<lparr>c_key = (if mask then (case bias of Some b \<Rightarrow> a + b ! t | None \<Rightarrow> logit) else neg),
          c_payload = (if bias \<noteq> None then a else logit),
          c_idx = (if mask then int t else -1)\<rparr>)"

abbreviation warp_span :: "nat \<Rightarrow> nat list" where
  "warp_span w \<equiv> [32 * w..<32 * w + 32]"

definition pad_cand :: "'f::zero \<Rightarrow> 'f Cand" where
  "pad_cand neg = \<lparr>c_key = neg, c_payload = 0, c_idx = -1\<rparr>"

definition load_cands :: "'f::zero \<Rightarrow> 'f Cand list \<Rightarrow> nat \<Rightarrow> nat \<Rightarrow> 'f Cand list" where
  "load_cands neg sh n w = map (\<lambda>pos. if pos < n then sh ! pos else pad_cand neg) (warp_span w)"

section \<open>A merge stage\<close>

datatype 'f warp_pc = Fresh | Loaded "'f Cand list" | Done

record 'f Stage =
  sh_cands :: "'f Cand list"
  warp_pcs :: "'f warp_pc list"

text \<open>A warp loads its 32 candidates into registers; later it stores its K best.\<close>

definition stage_step ::
  "'f::linordered_field \<Rightarrow> nat \<Rightarrow> nat \<Rightarrow> nat \<Rightarrow> 'f Stage \<Rightarrow> 'f Stage" where
  "stage_step neg K n w st =
     (if w \<ge> length (warp_pcs st) then st
      else case warp_pcs st ! w of
        Fresh \<Rightarrow> st\<lparr>warp_pcs := (warp_pcs st)[w := Loaded (load_cands neg (sh_cands st) n w)]\<rparr>
      | Loaded lanes \<Rightarrow>
          st\<lparr>sh_cands := foldl (\<lambda>s k. s[w * K + k := warp_topk neg K lanes ! k]) (sh_cands st) [0..<K],
             warp_pcs := (warp_pcs st)[w := Done]\<rparr>
      | Done \<Rightarrow> st)"

definition merge_stage ::
  "'f::linordered_field \<Rightarrow> nat \<Rightarrow> nat list \<Rightarrow> nat \<Rightarrow> 'f Cand list \<Rightarrow> 'f Cand list" where
  "merge_stage neg K sched n sh =
     sh_cands (run_schedule (stage_step neg K n) sched
       \<lparr>sh_cands = sh, warp_pcs = replicate ((n + 31) div 32) Fresh\<rparr>)"

text \<open>The loop over the stages.  The launcher admits at most 16 experts per token, and then each
  stage leaves fewer candidates.\<close>

function merge_loop ::
  "'f::linordered_field \<Rightarrow> nat \<Rightarrow> (nat \<Rightarrow> nat list) \<Rightarrow> nat \<Rightarrow> nat \<Rightarrow> 'f Cand list \<Rightarrow> nat \<times> 'f Cand list" where
  "merge_loop neg K scheds s n sh =
     (if n \<le> 32 \<or> 16 < K then (n, sh)
      else merge_loop neg K scheds (Suc s) ((n + 31) div 32 * K) (merge_stage neg K (scheds s) n sh))"
  by pat_completeness auto

termination
proof (relation "measure (\<lambda>(neg, K, scheds, s, n, sh). n)", goal_cases)
  case (2 neg K scheds s n sh)
  then have "(n + 31) div 32 * K \<le> (n + 31) div 32 * 16" by (intro mult_le_mono2) simp
  also have "\<dots> < n" using 2 by linarith
  finally show ?case by simp
qed simp

declare merge_loop.simps [simp del]

section \<open>The kernel\<close>

definition router_start ::
  "'f::linordered_field \<Rightarrow> ('f \<Rightarrow> 'f) \<Rightarrow> 'f list \<Rightarrow> 'f list option \<Rightarrow> nat \<Rightarrow> nat \<Rightarrow> 'f Cand list" where
  "router_start neg act scores bias num_experts K =
     concat (map (\<lambda>w. warp_topk neg K (map (start_cand neg act scores bias num_experts) (warp_span w)))
       [0..<(num_experts + 31) div 32])"

definition router_weights ::
  "'f::linordered_field \<Rightarrow> ('f \<Rightarrow> 'f) \<Rightarrow> ('f \<Rightarrow> 'f) \<Rightarrow> 'f \<Rightarrow> bool \<Rightarrow> 'f Cand list \<Rightarrow> (int \<times> 'f) list" where
  "router_weights tiny act rnd scaling has_bias best =
     (let o_k = map (\<lambda>c. if has_bias then c_payload c else act (c_payload c)) best;
          total = sum_list o_k + tiny
      in map2 (\<lambda>c x. (c_idx c, rnd (x * scaling / total))) best o_k)"

definition router_select ::
  "'f::linordered_field \<Rightarrow> ('f \<Rightarrow> 'f) \<Rightarrow> 'f list \<Rightarrow> 'f list option \<Rightarrow> nat \<Rightarrow> nat \<Rightarrow> (nat \<Rightarrow> nat list) \<Rightarrow> 'f Cand list" where
  "router_select neg act scores bias num_experts K scheds =
     (let (n, sh) = merge_loop neg K scheds 0 ((num_experts + 31) div 32 * K)
                      (router_start neg act scores bias num_experts K)
      in warp_topk neg K (load_cands neg sh n 0))"

definition routing_ds3_nogroup ::
  "'f::linordered_field \<Rightarrow> 'f \<Rightarrow> ('f \<Rightarrow> 'f) \<Rightarrow> ('f \<Rightarrow> 'f) \<Rightarrow> 'f \<Rightarrow> nat \<Rightarrow> nat \<Rightarrow> (nat \<Rightarrow> nat list) \<Rightarrow>
   'f list \<Rightarrow> 'f list option \<Rightarrow> (int \<times> 'f) list option" where
  "routing_ds3_nogroup neg tiny act rnd scaling num_experts K scheds scores bias =
     (if num_experts > 512 \<or> K > 16 \<or> K > num_experts then None
      else Some (router_weights tiny act rnd scaling (bias \<noteq> None)
                  (router_select neg act scores bias num_experts K scheds)))"

section \<open>Selection within one warp\<close>

text \<open>A candidate is real when its key is above \<^term>\<open>neg\<close>.  The order of the selection: greater key
  first, then lower index.\<close>

definition before :: "'f::linorder Cand \<Rightarrow> 'f Cand \<Rightarrow> bool" where
  "before c d \<longleftrightarrow> c_key d < c_key c \<or> c_key c = c_key d \<and> c_idx c < c_idx d"

definition reals :: "'f::linorder \<Rightarrow> 'f Cand list \<Rightarrow> 'f Cand list" where
  "reals neg L = filter (\<lambda>c. neg < c_key c) L"

definition lanes_ok :: "'f::linorder \<Rightarrow> 'f Cand list \<Rightarrow> bool" where
  "lanes_ok neg L \<longleftrightarrow> (\<forall>c \<in> set L. neg \<le> c_key c) \<and>
     sorted_wrt (\<lambda>c d. neg < c_key c \<and> c_key c = c_key d \<longrightarrow> c_idx c < c_idx d) L \<and>
     (\<forall>c \<in> set (reals neg L). \<forall>d \<in> set (reals neg L). c_idx c = c_idx d \<longrightarrow> c = d)"

lemma reals_append [simp]: "reals neg (L @ M) = reals neg L @ reals neg M"
  by (simp add: reals_def)

lemma reals_Cons: "reals neg (c # L) = (if neg < c_key c then c # reals neg L else reals neg L)"
  by (simp add: reals_def)

lemma set_reals: "set (reals neg L) = {c \<in> set L. neg < c_key c}"
  by (simp add: reals_def)

lemma before_trans: "before a b \<Longrightarrow> before b c \<Longrightarrow> before a c"
  by (auto simp: before_def)

lemma before_irrefl [simp]: "\<not> before a a"
  by (simp add: before_def)

lemma best_in: "L \<noteq> [] \<Longrightarrow> warp_reduce_best L \<in> set L"
  by (induction L rule: warp_reduce_best.induct) (auto simp: Let_def)

lemma best_max: "c \<in> set L \<Longrightarrow> c_key c \<le> c_key (warp_reduce_best L)"
  by (induction L rule: warp_reduce_best.induct) (auto simp: Let_def)

lemma best_first:
  assumes "sorted_wrt (\<lambda>c d. neg < c_key c \<and> c_key c = c_key d \<longrightarrow> c_idx c < c_idx d) L"
    and "neg < c_key (warp_reduce_best L)" and "c \<in> set L" and "c \<noteq> warp_reduce_best L"
  shows "before (warp_reduce_best L) c"
  using assms
proof (induction L rule: warp_reduce_best.induct)
  case (3 a b L)
  let ?B = "warp_reduce_best (b # L)"
  have B: "?B \<in> set (b # L)" by (rule best_in) simp
  show ?case
  proof (cases "c_key ?B > c_key a")
    case True
    then have r: "warp_reduce_best (a # b # L) = ?B" by (simp add: Let_def)
    show ?thesis
    proof (cases "c \<in> set (b # L)")
      case True
      have "sorted_wrt (\<lambda>c d. neg < c_key c \<and> c_key c = c_key d \<longrightarrow> c_idx c < c_idx d) (b # L)"
        using "3.prems"(1) by (subst (asm) sorted_wrt.simps) blast
      from "3.IH" [OF this _ True] "3.prems"(2,4) r show ?thesis by simp
    next
      case False
      with "3.prems"(3) True r show ?thesis by (simp add: before_def)
    qed
  next
    case False
    then have r: "warp_reduce_best (a # b # L) = a" by (simp add: Let_def)
    with "3.prems"(3,4) have c: "c \<in> set (b # L)" by auto
    then have "c_key c \<le> c_key a" using best_max [OF c] False by simp
    moreover have "c_key a = c_key c \<longrightarrow> c_idx a < c_idx c"
    proof -
      have "\<forall>d \<in> set (b # L). neg < c_key a \<and> c_key a = c_key d \<longrightarrow> c_idx a < c_idx d"
        using "3.prems"(1) by (subst (asm) sorted_wrt.simps) blast
      with "3.prems"(2) c show ?thesis unfolding r by blast
    qed
    ultimately show ?thesis unfolding r by (auto simp: before_def)
  qed
qed simp_all

lemma retire_key_le: "neg \<le> c_key c \<Longrightarrow> c_key (retire_lane neg i c) \<le> c_key c"
  by (simp add: retire_lane_def)

lemma retire_idx [simp]: "c_idx (retire_lane neg i c) = c_idx c"
  by (simp add: retire_lane_def)

lemma retire_real: "neg < c_key (retire_lane neg i c) \<longleftrightarrow> neg < c_key c \<and> c_idx c \<noteq> i"
  by (simp add: retire_lane_def)

lemma retire_real_eq: "neg < c_key (retire_lane neg i c) \<Longrightarrow> retire_lane neg i c = c"
  by (simp add: retire_lane_def split: if_splits)

lemma reals_retire: "reals neg (map (retire_lane neg i) L) = filter (\<lambda>c. c_idx c \<noteq> i) (reals neg L)"
  by (induction L) (auto simp: reals_def retire_lane_def)

lemma lanes_ok_retire:
  assumes ok: "lanes_ok neg L"
  shows "lanes_ok neg (map (retire_lane neg i) L)"
proof -
  have "sorted_wrt (\<lambda>c d. neg < c_key (retire_lane neg i c) \<and> c_key (retire_lane neg i c) = c_key (retire_lane neg i d) \<longrightarrow>
      c_idx c < c_idx d) L"
  proof (rule sorted_wrt_mono_rel)
    show "sorted_wrt (\<lambda>c d. neg < c_key c \<and> c_key c = c_key d \<longrightarrow> c_idx c < c_idx d) L"
      using ok by (simp add: lanes_ok_def)
    fix c d :: "'a Cand"
    assume st: "neg < c_key c \<and> c_key c = c_key d \<longrightarrow> c_idx c < c_idx d"
    show "neg < c_key (retire_lane neg i c) \<and> c_key (retire_lane neg i c) = c_key (retire_lane neg i d) \<longrightarrow>
        c_idx c < c_idx d"
    proof (rule impI, elim conjE)
      assume a: "neg < c_key (retire_lane neg i c)" "c_key (retire_lane neg i c) = c_key (retire_lane neg i d)"
      then have "neg < c_key (retire_lane neg i d)" by simp
      from retire_real_eq [OF a(1)] retire_real_eq [OF this] a st show "c_idx c < c_idx d" by simp
    qed
  qed
  moreover have "\<forall>c \<in> set L. neg \<le> c_key (retire_lane neg i c)"
    using ok by (simp add: lanes_ok_def retire_lane_def)
  ultimately show ?thesis using ok by (simp add: lanes_ok_def sorted_wrt_map reals_retire)
qed

text \<open>What K rounds return: the real candidates with fewer than K others before them, in order;
  then candidates that are not real.\<close>

definition rank_in :: "'f::linorder Cand set \<Rightarrow> 'f Cand \<Rightarrow> nat" where
  "rank_in S c = card {d \<in> S. before d c}"

lemma warp_topk_spec:
  assumes "lanes_ok neg L" and "L \<noteq> []"
  shows "length (warp_topk neg K L) = K"
    and "sorted_wrt (\<lambda>c d. neg < c_key d \<longrightarrow> before c d) (warp_topk neg K L)"
    and "set (reals neg (warp_topk neg K L)) = {c \<in> set (reals neg L). rank_in (set (reals neg L)) c < K}"
    and "\<forall>c \<in> set (warp_topk neg K L). neg \<le> c_key c"
proof -
  have "length (warp_topk neg K L) = K \<and>
    sorted_wrt (\<lambda>c d. neg < c_key d \<longrightarrow> before c d) (warp_topk neg K L) \<and>
    set (reals neg (warp_topk neg K L)) = {c \<in> set (reals neg L). rank_in (set (reals neg L)) c < K} \<and>
    (\<forall>c \<in> set (warp_topk neg K L). neg \<le> c_key c)"
    using assms
  proof (induction K arbitrary: L)
    case 0
    then show ?case by (simp add: reals_def)
  next
    case (Suc k)
    let ?b = "warp_reduce_best L"
    let ?M = "map (retire_lane neg (c_idx ?b)) L"
    have b: "?b \<in> set L" using Suc.prems(2) by (rule best_in)
    have st: "sorted_wrt (\<lambda>c d. neg < c_key c \<and> c_key c = c_key d \<longrightarrow> c_idx c < c_idx d) L"
      using Suc.prems(1) by (simp add: lanes_ok_def)
    have kb: "neg \<le> c_key ?b" using Suc.prems(1) b by (simp add: lanes_ok_def)
    have IH: "length (warp_topk neg k ?M) = k"
      "sorted_wrt (\<lambda>c d. neg < c_key d \<longrightarrow> before c d) (warp_topk neg k ?M)"
      "set (reals neg (warp_topk neg k ?M)) = {c \<in> set (reals neg ?M). rank_in (set (reals neg ?M)) c < k}"
      "\<forall>c \<in> set (warp_topk neg k ?M). neg \<le> c_key c"
      using Suc.IH [OF lanes_ok_retire [OF Suc.prems(1)], of "c_idx ?b"] Suc.prems(2) by simp_all
    have eq: "warp_topk neg (Suc k) L = ?b # warp_topk neg k ?M" by (simp add: Let_def)
    have sub: "c \<in> set (reals neg L) \<and> c_idx c \<noteq> c_idx ?b" if "c \<in> set (reals neg (warp_topk neg k ?M))" for c
      using that IH(3) by (simp add: reals_retire)
    have first: "before ?b c" if "c \<in> set (reals neg L)" "c \<noteq> ?b" for c
    proof -
      from that have "c \<in> set L" "neg < c_key c" by (simp_all add: set_reals)
      moreover from this have "neg < c_key ?b" using best_max [of c L] by simp
      ultimately show ?thesis using best_first [OF st] that(2) by blast
    qed
    have "sorted_wrt (\<lambda>c d. neg < c_key d \<longrightarrow> before c d) (warp_topk neg (Suc k) L)"
      unfolding eq using IH(2) sub first by (auto simp: set_reals)
    moreover have "set (reals neg (warp_topk neg (Suc k) L)) =
        {c \<in> set (reals neg L). rank_in (set (reals neg L)) c < Suc k}"
    proof (cases "neg < c_key ?b")
      case False
      have "\<not> neg < c_key c" if "c \<in> set L" for c using best_max [OF that] False by simp
      then have "set (reals neg L) = {}" by (auto simp: set_reals)
      then show ?thesis using IH(3) False unfolding eq by (simp add: reals_Cons reals_retire)
    next
      case True
      let ?R = "set (reals neg L)"
      have bR: "?b \<in> ?R" using True b by (simp add: set_reals)
      have M: "set (reals neg ?M) = ?R - {?b}"
        using Suc.prems(1) bR by (auto simp: reals_retire lanes_ok_def)
      have fin: "finite {d \<in> ?R - {?b}. before d c}" for c by simp
      have rank: "rank_in ?R c = Suc (rank_in (?R - {?b}) c)" if "c \<in> ?R" "c \<noteq> ?b" for c
      proof -
        have "{d \<in> ?R. before d c} = insert ?b {d \<in> ?R - {?b}. before d c}"
          using first [OF that] bR by auto
        then show ?thesis by (simp add: rank_in_def)
      qed
      have "{d \<in> ?R. before d ?b} = {}"
        using first before_trans before_irrefl by (metis (mono_tags, lifting) empty_Collect_eq)
      then have rb: "rank_in ?R ?b = 0" by (simp add: rank_in_def)
      have "set (reals neg (warp_topk neg (Suc k) L)) = insert ?b {c \<in> ?R - {?b}. rank_in (?R - {?b}) c < k}"
        using IH(3) True unfolding eq M by (simp add: reals_Cons)
      also have "\<dots> = {c \<in> ?R. rank_in ?R c < Suc k}"
        using rank rb bR by auto
      finally show ?thesis .
    qed
    ultimately show ?case using IH kb unfolding eq by simp
  qed
  then show "length (warp_topk neg K L) = K"
    "sorted_wrt (\<lambda>c d. neg < c_key d \<longrightarrow> before c d) (warp_topk neg K L)"
    "set (reals neg (warp_topk neg K L)) = {c \<in> set (reals neg L). rank_in (set (reals neg L)) c < K}"
    "\<forall>c \<in> set (warp_topk neg K L). neg \<le> c_key c" by blast+
qed

section \<open>From many warps to one\<close>

text \<open>A list of candidates still holds the K best of \<^term>\<open>all\<close>, in an order that breaks ties
  towards the lower index.\<close>

definition top_of :: "'f::linorder Cand set \<Rightarrow> nat \<Rightarrow> 'f Cand set" where
  "top_of A K = {c \<in> A. rank_in A c < K}"

definition tie_sorted :: "'f::linorder \<Rightarrow> 'f Cand list \<Rightarrow> bool" where
  "tie_sorted neg L = sorted_wrt (\<lambda>c d. neg < c_key c \<and> c_key c = c_key d \<longrightarrow> c_idx c < c_idx d) L"

definition holds_top :: "'f::linorder \<Rightarrow> 'f Cand set \<Rightarrow> nat \<Rightarrow> 'f Cand list \<Rightarrow> bool" where
  "holds_top neg A K L \<longleftrightarrow> (\<forall>c \<in> set L. neg \<le> c_key c) \<and> tie_sorted neg L \<and>
     set (reals neg L) \<subseteq> A \<and> top_of A K \<subseteq> set (reals neg L)"

definition all_real :: "'f::linorder \<Rightarrow> 'f Cand set \<Rightarrow> bool" where
  "all_real neg A \<longleftrightarrow> finite A \<and> (\<forall>c \<in> A. neg < c_key c) \<and>
     (\<forall>c \<in> A. \<forall>d \<in> A. c_idx c = c_idx d \<longrightarrow> c = d)"

lemma tie_sorted_append:
  "tie_sorted neg (L @ M) \<longleftrightarrow> tie_sorted neg L \<and> tie_sorted neg M \<and>
     (\<forall>c \<in> set L. \<forall>d \<in> set M. neg < c_key c \<and> c_key c = c_key d \<longrightarrow> c_idx c < c_idx d)"
  unfolding tie_sorted_def sorted_wrt_append by blast

text \<open>The facts about the selection of one warp, for a chunk of such a list.\<close>

lemma chunk_topk:
  assumes A: "all_real neg A" and k: "\<forall>c \<in> set M. neg \<le> c_key c" and t: "tie_sorted neg M"
    and s: "set (reals neg M) \<subseteq> A" and M: "M \<noteq> []"
  shows "length (warp_topk neg K M) = K" "\<forall>c \<in> set (warp_topk neg K M). neg \<le> c_key c"
    and "tie_sorted neg (warp_topk neg K M)" "set (reals neg (warp_topk neg K M)) \<subseteq> set (reals neg M)"
    and "top_of A K \<inter> set M \<subseteq> set (reals neg (warp_topk neg K M))"
proof -
  have ok: "lanes_ok neg M" using A k t s unfolding lanes_ok_def tie_sorted_def all_real_def by blast
  note spec = warp_topk_spec [OF ok M, where K = K]
  show "length (warp_topk neg K M) = K" "\<forall>c \<in> set (warp_topk neg K M). neg \<le> c_key c"
    by (rule spec(1), rule spec(4))
  show "set (reals neg (warp_topk neg K M)) \<subseteq> set (reals neg M)" unfolding spec(3) by blast
  show "tie_sorted neg (warp_topk neg K M)" unfolding tie_sorted_def
    by (rule sorted_wrt_mono_rel [OF _ spec(2)]) (auto simp: before_def)
  show "top_of A K \<inter> set M \<subseteq> set (reals neg (warp_topk neg K M))"
  proof
    fix c assume "c \<in> top_of A K \<inter> set M"
    then have c: "c \<in> A" "rank_in A c < K" "c \<in> set M" by (auto simp: top_of_def)
    then have "c \<in> set (reals neg M)" using A by (simp add: set_reals all_real_def)
    moreover have "rank_in (set (reals neg M)) c \<le> rank_in A c" unfolding rank_in_def
      using A s by (intro card_mono) (auto simp: all_real_def)
    ultimately show "c \<in> set (reals neg (warp_topk neg K M))" using c(2) unfolding spec(3) by simp
  qed
qed

lemma chunks_tie_sorted:
  assumes A: "all_real neg A"
  shows "tie_sorted neg (concat Ls) \<Longrightarrow> \<forall>c \<in> set (concat Ls). neg \<le> c_key c \<Longrightarrow>
    set (reals neg (concat Ls)) \<subseteq> A \<Longrightarrow> \<forall>M \<in> set Ls. M \<noteq> [] \<Longrightarrow>
    tie_sorted neg (concat (map (warp_topk neg K) Ls))"
proof (induction Ls)
  case Nil
  then show ?case by simp
next
  case (Cons M Ls)
  have m: "tie_sorted neg M" "tie_sorted neg (concat Ls)"
    "\<forall>c \<in> set M. \<forall>d \<in> set (concat Ls). neg < c_key c \<and> c_key c = c_key d \<longrightarrow> c_idx c < c_idx d"
    using Cons.prems(1) unfolding concat.simps tie_sorted_append by blast+
  have s: "set (reals neg M) \<subseteq> A" "set (reals neg (concat Ls)) \<subseteq> A" using Cons.prems(3) by simp_all
  have k: "\<forall>c \<in> set M. neg \<le> c_key c" "M \<noteq> []" using Cons.prems(2,4) by auto
  note out = chunk_topk [OF A k(1) m(1) s(1) k(2), where K = K]
  have rest: "tie_sorted neg (concat (map (warp_topk neg K) Ls))"
    using Cons.IH m(2) s(2) Cons.prems(2,4) by simp
  have "c_idx c < c_idx d" if c: "c \<in> set (warp_topk neg K M)" and d: "d \<in> set (concat (map (warp_topk neg K) Ls))"
    and e: "neg < c_key c \<and> c_key c = c_key d" for c d
  proof -
    have "c \<in> set M" using out(4) c e by (auto simp: set_reals)
    moreover obtain N where N: "N \<in> set Ls" "d \<in> set (warp_topk neg K N)" using d by auto
    have "tie_sorted neg N" using m(2) N(1) by (induction Ls) (auto simp: tie_sorted_append)
    moreover have "set (reals neg N) \<subseteq> A" "\<forall>c \<in> set N. neg \<le> c_key c" "N \<noteq> []"
      using N(1) s(2) Cons.prems(2,4) by (auto simp: set_reals)
    ultimately have "set (reals neg (warp_topk neg K N)) \<subseteq> set (reals neg N)" by (intro chunk_topk(4) [OF A])
    moreover have "neg < c_key d" using e by metis
    then have "d \<in> set (reals neg (warp_topk neg K N))" using N(2) by (simp add: set_reals)
    ultimately have "d \<in> set (concat Ls)" using N(1) by (auto simp: set_reals)
    with \<open>c \<in> set M\<close> m(3) e show ?thesis by blast
  qed
  then show ?case using out(3) rest unfolding concat.simps list.map tie_sorted_append by blast
qed

lemma chunks_hold_top:
  assumes A: "all_real neg A" and h: "holds_top neg A K (concat Ls)" and ne: "\<forall>M \<in> set Ls. M \<noteq> []"
  shows "holds_top neg A K (concat (map (warp_topk neg K) Ls))"
proof -
  from h have k: "\<forall>c \<in> set (concat Ls). neg \<le> c_key c" and t: "tie_sorted neg (concat Ls)"
    and s: "set (reals neg (concat Ls)) \<subseteq> A" and top: "top_of A K \<subseteq> set (reals neg (concat Ls))"
    by (simp_all add: holds_top_def)
  have tN: "tie_sorted neg N" if "N \<in> set Ls" for N
    using t that by (induction Ls) (auto simp: tie_sorted_append)
  have sN: "set (reals neg N) \<subseteq> A" "\<forall>c \<in> set N. neg \<le> c_key c" if "N \<in> set Ls" for N
    using that s k by (auto simp: set_reals)
  note out = chunk_topk [OF A sN(2) tN sN(1)]
  show ?thesis unfolding holds_top_def
  proof (intro conjI)
    show "\<forall>c \<in> set (concat (map (warp_topk neg K) Ls)). neg \<le> c_key c" using out(2) ne by auto
    show "tie_sorted neg (concat (map (warp_topk neg K) Ls))"
      by (rule chunks_tie_sorted [OF A t k s ne])
    show "set (reals neg (concat (map (warp_topk neg K) Ls))) \<subseteq> A"
    proof
      fix c assume "c \<in> set (reals neg (concat (map (warp_topk neg K) Ls)))"
      then obtain N where "N \<in> set Ls" "c \<in> set (reals neg (warp_topk neg K N))" by (auto simp: set_reals)
      with out(4) [of N K] sN(1) ne show "c \<in> A" by blast
    qed
    show "top_of A K \<subseteq> set (reals neg (concat (map (warp_topk neg K) Ls)))"
    proof
      fix c assume c: "c \<in> top_of A K"
      with top obtain N where N: "N \<in> set Ls" "c \<in> set N" by (auto simp: set_reals)
      with out(5) [of N K] ne c have "c \<in> set (reals neg (warp_topk neg K N))" by blast
      with N show "c \<in> set (reals neg (concat (map (warp_topk neg K) Ls)))" by (auto simp: set_reals)
    qed
  qed
qed

lemma holds_top_pad:
  assumes "holds_top neg A K L" and "\<forall>c \<in> set P. c_key c = neg"
  shows "holds_top neg A K (L @ P)"
proof -
  have r: "reals neg P = []" using assms(2) by (simp add: reals_def)
  have "tie_sorted neg P" using assms(2) unfolding tie_sorted_def
    by (induction P) auto
  with assms r show ?thesis by (auto simp: holds_top_def tie_sorted_append)
qed

section \<open>A stage whose loads come before its stores\<close>

definition fenced :: "nat \<Rightarrow> nat list \<Rightarrow> bool" where
  "fenced m sched \<longleftrightarrow> sort (take m sched) = [0..<m] \<and> sort (drop m sched) = [0..<m]"

lemma sort_upt_D: "sort xs = [0..<m] \<Longrightarrow> distinct xs \<and> set xs = {..<m}"
  by (metis atLeast_upt distinct_sort distinct_upt set_sort)

lemma store_row:
  "j \<le> K \<Longrightarrow> length (foldl (\<lambda>s k. s[w * K + k := f k]) sh [0..<j]) = length sh \<and>
   (\<forall>pos < length sh. foldl (\<lambda>s k. s[w * K + k := f k]) sh [0..<j] ! pos =
     (if w * K \<le> pos \<and> pos < w * K + j then f (pos - w * K) else sh ! pos))"
proof (induction j)
  case (Suc j)
  let ?s = "foldl (\<lambda>s k. s[w * K + k := f k]) sh [0..<j]"
  from Suc have IH: "length ?s = length sh" "\<forall>pos < length sh. ?s ! pos =
      (if w * K \<le> pos \<and> pos < w * K + j then f (pos - w * K) else sh ! pos)" by simp_all
  have "?s[w * K + j := f j] ! pos = (if w * K \<le> pos \<and> pos < w * K + Suc j then f (pos - w * K) else sh ! pos)"
    if "pos < length sh" for pos
    using IH that by (cases "pos = w * K + j") (auto simp: nth_list_update)
  with IH show ?case by simp
qed auto

lemma length_warp_topk [simp]: "length (warp_topk neg K L) = K"
  by (induction K arbitrary: L) (simp_all add: Let_def)

lemma run_loads:
  assumes "distinct l" and "set l \<subseteq> {..<length (warp_pcs st)}" and "\<forall>w \<in> set l. warp_pcs st ! w = Fresh"
  shows "sh_cands (run_schedule (stage_step neg K n) l st) = sh_cands st \<and>
    length (warp_pcs (run_schedule (stage_step neg K n) l st)) = length (warp_pcs st) \<and>
    (\<forall>w < length (warp_pcs st). warp_pcs (run_schedule (stage_step neg K n) l st) ! w =
      (if w \<in> set l then Loaded (load_cands neg (sh_cands st) n w) else warp_pcs st ! w))"
  using assms
proof (induction l arbitrary: st)
  case Nil
  then show ?case by simp
next
  case (Cons v l)
  let ?st = "st\<lparr>warp_pcs := (warp_pcs st)[v := Loaded (load_cands neg (sh_cands st) n v)]\<rparr>"
  have v: "v < length (warp_pcs st)" "warp_pcs st ! v = Fresh" "v \<notin> set l" "distinct l" using Cons.prems by auto
  then have s: "stage_step neg K n v st = ?st" by (simp add: stage_step_def)
  have "\<forall>w \<in> set l. warp_pcs ?st ! w = Fresh" using Cons.prems v(3) by (auto simp: nth_list_update)
  with Cons.IH [of ?st] Cons.prems v show ?case by (auto simp: s nth_list_update)
qed

lemma run_stores:
  assumes "distinct l" and "set l \<subseteq> {..<length (warp_pcs st)}" and "0 < K"
    and "\<forall>w \<in> set l. warp_pcs st ! w = Loaded (f w)"
  shows "length (sh_cands (run_schedule (stage_step neg K n) l st)) = length (sh_cands st) \<and>
    (\<forall>pos < length (sh_cands st). sh_cands (run_schedule (stage_step neg K n) l st) ! pos =
      (if pos div K \<in> set l then warp_topk neg K (f (pos div K)) ! (pos mod K) else sh_cands st ! pos))"
  using assms(1,2,4)
proof (induction l arbitrary: st)
  case Nil
  then show ?case by simp
next
  case (Cons v l)
  have v: "v < length (warp_pcs st)" "warp_pcs st ! v = Loaded (f v)" "v \<notin> set l" "distinct l"
    using Cons.prems by auto
  let ?sh = "foldl (\<lambda>s k. s[v * K + k := warp_topk neg K (f v) ! k]) (sh_cands st) [0..<K]"
  let ?st = "st\<lparr>sh_cands := ?sh, warp_pcs := (warp_pcs st)[v := Done]\<rparr>"
  have s: "stage_step neg K n v st = ?st" using v by (simp add: stage_step_def)
  note row = store_row [of K K v "\<lambda>k. warp_topk neg K (f v) ! k" "sh_cands st", OF order_refl]
  have "\<forall>w \<in> set l. warp_pcs ?st ! w = Loaded (f w)"
    using Cons.prems v(3) by (auto simp: nth_list_update)
  with Cons.IH [of ?st] Cons.prems v have IH: "length (sh_cands (run_schedule (stage_step neg K n) l ?st)) = length ?sh"
    "\<forall>pos < length ?sh. sh_cands (run_schedule (stage_step neg K n) l ?st) ! pos =
      (if pos div K \<in> set l then warp_topk neg K (f (pos div K)) ! (pos mod K) else ?sh ! pos)" by auto
  have in_row: "v * K \<le> pos \<and> pos < v * K + K \<longleftrightarrow> pos div K = v" for pos
    using assms(3) by (metis add.commute div_mult_mod_eq div_nat_eqI le_add1 mod_less_divisor mult.commute
        mult_Suc_right nat_add_left_cancel_less)
  have off: "pos - v * K = pos mod K" if "pos div K = v" for pos using that by (metis minus_div_mult_eq_mod)
  show ?case using IH row v(3) by (auto simp: s in_row off)
qed

lemma fenced_stage:
  assumes f: "fenced ((n + 31) div 32) sched" and K: "0 < K" and l: "(n + 31) div 32 * K \<le> length sh"
  shows "take ((n + 31) div 32 * K) (merge_stage neg K sched n sh) =
      concat (map (\<lambda>w. warp_topk neg K (load_cands neg sh n w)) [0..<(n + 31) div 32])"
    and "length (merge_stage neg K sched n sh) = length sh"
proof -
  let ?m = "(n + 31) div 32"
  let ?a = "take ?m sched" and ?b = "drop ?m sched"
  let ?s0 = "\<lparr>sh_cands = sh, warp_pcs = replicate ?m Fresh\<rparr>"
  let ?run = "run_schedule (stage_step neg K n)"
  have ab: "distinct ?a" "set ?a = {..<?m}" "distinct ?b" "set ?b = {..<?m}"
    using f sort_upt_D unfolding fenced_def by blast+
  have app: "?run sched ?s0 = ?run ?b (?run ?a ?s0)"
    using run_schedule_append [of "stage_step neg K n" ?a ?b ?s0] by simp
  have "sh_cands (?run ?a ?s0) = sh \<and> length (warp_pcs (?run ?a ?s0)) = ?m \<and>
      (\<forall>w < ?m. warp_pcs (?run ?a ?s0) ! w = Loaded (load_cands neg sh n w))"
    using run_loads [OF ab(1), of ?s0 neg K n] ab(2) by simp
  then have mid: "sh_cands (?run ?a ?s0) = sh" "length (warp_pcs (?run ?a ?s0)) = ?m"
    "\<forall>w \<in> set ?b. warp_pcs (?run ?a ?s0) ! w = Loaded (load_cands neg sh n w)"
    unfolding ab(4) by simp_all
  have "set ?b \<subseteq> {..<length (warp_pcs (?run ?a ?s0))}" unfolding ab(4) mid(2) by simp
  from run_stores [OF ab(3) this K mid(3), where n = n and neg = neg]
  have fin: "length (merge_stage neg K sched n sh) = length sh"
    "\<forall>pos < length sh. merge_stage neg K sched n sh ! pos =
      (if pos div K < ?m then warp_topk neg K (load_cands neg sh n (pos div K)) ! (pos mod K) else sh ! pos)"
    unfolding merge_stage_def app mid(1) ab(4) by simp_all
  then show "length (merge_stage neg K sched n sh) = length sh" by simp
  let ?L = "map (\<lambda>w. warp_topk neg K (load_cands neg sh n w)) [0..<?m]"
  have lenL: "\<forall>r \<in> set ?L. length r = K" by simp
  have ll: "length (concat ?L) = ?m * K" by (simp add: length_concat comp_def sum_list_triv)
  show "take (?m * K) (merge_stage neg K sched n sh) = concat ?L"
  proof (rule nth_equalityI)
    show "length (take (?m * K) (merge_stage neg K sched n sh)) = length (concat ?L)"
      using fin(1) l ll by simp
    fix pos assume "pos < length (take (?m * K) (merge_stage neg K sched n sh))"
    then have p: "pos < ?m * K" using fin(1) l by simp
    have "pos div K < ?m" using p by (simp add: less_mult_imp_div_less)
    moreover have "concat ?L ! (pos div K * K + pos mod K) = ?L ! (pos div K) ! (pos mod K)"
      using calculation K by (intro nth_concat_equal [OF lenL]) simp_all
    ultimately show "take (?m * K) (merge_stage neg K sched n sh) ! pos = concat ?L ! pos"
      using fin(2) p l by simp
  qed
qed

section \<open>All stages\<close>

fun stage_n :: "nat \<Rightarrow> nat \<Rightarrow> nat \<Rightarrow> nat" where
  "stage_n K n 0 = n"
| "stage_n K n (Suc s) = stage_n K ((n + 31) div 32 * K) s"

definition all_fenced :: "nat \<Rightarrow> nat \<Rightarrow> (nat \<Rightarrow> nat list) \<Rightarrow> bool" where
  "all_fenced K n scheds \<longleftrightarrow> (\<forall>s. fenced ((stage_n K n s + 31) div 32) (scheds s))"

text \<open>All warps in lockstep are an example.\<close>

definition lockstep :: "nat \<Rightarrow> nat \<Rightarrow> nat \<Rightarrow> nat list" where
  "lockstep K n s = (let m = (stage_n K n s + 31) div 32 in [0..<m] @ [0..<m])"

lemma lockstep_fenced: "all_fenced K n (lockstep K n)"
  by (simp add: all_fenced_def lockstep_def fenced_def Let_def)

lemma concat_spans: "concat (map (\<lambda>w. map f (warp_span w)) [0..<m]) = map f [0..<32 * m]"
proof (induction m)
  case (Suc m)
  have "[0..<32 * Suc m] = [0..<32 * m] @ [32 * m..<32 * m + 32]"
    by (metis le0 mult_Suc_right add.commute upt_add_eq_append)
  with Suc show ?case by simp
qed simp

lemma concat_loads:
  assumes "n \<le> length sh" and "n \<le> 32 * m"
  shows "concat (map (load_cands neg sh n) [0..<m]) = take n sh @ replicate (32 * m - n) (pad_cand neg)"
proof -
  have "concat (map (load_cands neg sh n) [0..<m]) =
      map (\<lambda>pos. if pos < n then sh ! pos else pad_cand neg) [0..<32 * m]"
    unfolding load_cands_def by (rule concat_spans)
  also have "\<dots> = take n sh @ replicate (32 * m - n) (pad_cand neg)"
    by (rule nth_equalityI) (use assms in \<open>auto simp: nth_append\<close>)
  finally show ?thesis .
qed

lemma loads_hold_top:
  assumes "holds_top neg A K (take n sh)" and "n \<le> length sh" and "n \<le> 32 * m"
  shows "holds_top neg A K (concat (map (load_cands neg sh n) [0..<m]))"
  unfolding concat_loads [OF assms(2,3)]
  by (rule holds_top_pad [OF assms(1)]) (simp add: pad_cand_def)

lemma load_nonempty [simp]: "load_cands neg sh n w \<noteq> []"
  by (simp add: load_cands_def)

lemma merge_loop_holds_top:
  assumes A: "all_real neg A" and K: "0 < K" "K \<le> 16"
    and "holds_top neg A K (take n sh)" and "n \<le> length sh"
    and "\<forall>i. fenced ((stage_n K n i + 31) div 32) (scheds (s + i))"
    and "merge_loop neg K scheds s n sh = (n', sh')"
  shows "holds_top neg A K (take n' sh') \<and> n' \<le> length sh' \<and> n' \<le> 32"
  using assms
proof (induction neg K scheds s n sh rule: merge_loop.induct)
  case (1 neg K scheds s n sh)
  show ?case
  proof (cases "n \<le> 32")
    case True
    with 1 show ?thesis by (simp add: merge_loop.simps)
  next
    case False
    let ?m = "(n + 31) div 32"
    let ?sh = "merge_stage neg K (scheds s) n sh"
    have lt: "?m * K \<le> n"
    proof -
      have "?m * K \<le> ?m * 16" using "1.prems"(3) by (rule mult_le_mono2)
      also have "\<dots> \<le> n" using False by linarith
      finally show ?thesis .
    qed
    have f: "fenced ?m (scheds s)" using "1.prems"(6) [THEN spec, of 0] by simp
    have l: "?m * K \<le> length sh" using lt "1.prems"(5) by simp
    note st = fenced_stage [OF f "1.prems"(2) l, of neg]
    have "holds_top neg A K (concat (map (load_cands neg sh n) [0..<?m]))"
      by (rule loads_hold_top [OF "1.prems"(4,5)]) linarith
    from chunks_hold_top [OF "1.prems"(1) this] have h: "holds_top neg A K (take (?m * K) ?sh)"
      unfolding st(1) by (simp add: comp_def)
    have "\<forall>i. fenced ((stage_n K (?m * K) i + 31) div 32) (scheds (Suc s + i))"
      using "1.prems"(6) by (metis add_Suc_shift stage_n.simps(2))
    moreover have "merge_loop neg K scheds (Suc s) (?m * K) ?sh = (n', sh')"
      using "1.prems"(3,7) False by (simp add: merge_loop.simps [of neg K scheds s])
    ultimately show ?thesis
      using "1.IH" [OF _ "1.prems"(1-3) h] False "1.prems"(3) l st(2) by simp
  qed
qed

section \<open>What the kernel selects\<close>

lemma top_of_card:
  assumes A: "all_real neg A" and K: "K \<le> card A"
  shows "card (top_of A K) = K"
proof -
  have fin: "finite A" using A by (simp add: all_real_def)
  have tot: "before c d \<or> before d c" if "c \<in> A" "d \<in> A" "c \<noteq> d" for c d
    using A that unfolding all_real_def before_def by (metis linorder_neqE)
  have mono: "rank_in A c < rank_in A d" if "c \<in> A" "before c d" for c d
    unfolding rank_in_def
  proof (rule psubset_card_mono)
    show "{x \<in> A. before x c} \<subset> {x \<in> A. before x d}"
      using that before_trans [of _ c d] before_irrefl [of c] by blast
  qed (use fin in simp)
  have inj: "inj_on (rank_in A) A"
    using tot mono by (metis inj_onI less_irrefl)
  have "rank_in A c < card A" if "c \<in> A" for c
    unfolding rank_in_def
    by (rule psubset_card_mono [OF fin]) (use that in \<open>auto dest: before_irrefl [THEN notE]\<close>)
  then have "rank_in A ` A \<subseteq> {..<card A}" by blast
  then have im: "rank_in A ` A = {..<card A}"
    using inj by (simp add: card_subset_eq card_image)
  have "rank_in A ` top_of A K = {..<K}"
  proof (rule set_eqI, rule iffI)
    fix r assume r: "r \<in> {..<K}"
    then have "r \<in> rank_in A ` A" unfolding im using K by simp
    with r show "r \<in> rank_in A ` top_of A K" by (auto simp: top_of_def)
  qed (auto simp: top_of_def)
  moreover have "inj_on (rank_in A) (top_of A K)"
    by (rule inj_on_subset [OF inj]) (auto simp: top_of_def)
  ultimately show ?thesis using card_image [of "rank_in A" "top_of A K"] by simp
qed

lemma final_topk:
  assumes A: "all_real neg A" and K: "K \<le> card A" and h: "holds_top neg A K L" and L: "L \<noteq> []"
  shows "set (warp_topk neg K L) = top_of A K" "sorted_wrt before (warp_topk neg K L)"
proof -
  let ?O = "warp_topk neg K L"
  from h have k: "\<forall>c \<in> set L. neg \<le> c_key c" and t: "tie_sorted neg L" and s: "set (reals neg L) \<subseteq> A"
    and top: "top_of A K \<subseteq> set (reals neg L)" by (simp_all add: holds_top_def)
  have ok: "lanes_ok neg L" using A k t s unfolding lanes_ok_def tie_sorted_def all_real_def by blast
  have sub: "top_of A K \<subseteq> set (reals neg ?O)"
    using chunk_topk(5) [OF A k t s L, of K] top by (auto simp: set_reals)
  have "card (set ?O) \<le> K" using card_length [of ?O] by simp
  then have "card (set ?O) \<le> card (top_of A K)" by (simp add: top_of_card [OF A K])
  with sub show eq: "set ?O = top_of A K"
    by (metis (no_types, lifting) List.finite_set card_seteq mem_Collect_eq set_reals subset_iff)
  then have "\<forall>c \<in> set ?O. neg < c_key c" using A by (auto simp: top_of_def all_real_def)
  with warp_topk_spec(2) [OF ok L, of K] show "sorted_wrt before ?O"
    by (metis (mono_tags, lifting) sorted_wrt_iff_nth_less nth_mem)
qed

text \<open>The start: the lanes of all warps in a row.\<close>

lemma start_holds_top:
  fixes neg :: "'f::linordered_field"
  assumes keys: "\<forall>e < E. neg < c_key (start_cand neg act scores bias E e)" and K: "K \<le> E"
  defines "A \<equiv> start_cand neg act scores bias E ` {..<E}"
  shows "all_real neg A" and "card A = E" and "holds_top neg A K (router_start neg act scores bias E K)"
proof -
  let ?c = "start_cand neg act scores bias E"
  have idx: "c_idx (?c e) = (if e < E then int e else -1)" for e by (simp add: start_cand_def Let_def)
  have off: "c_key (?c e) = neg" if "\<not> e < E" for e using that by (simp add: start_cand_def Let_def)
  show A: "all_real neg A" using keys by (auto simp: all_real_def A_def idx)
  have "inj_on ?c {..<E}"
  proof (rule inj_onI)
    fix a b assume "a \<in> {..<E}" "b \<in> {..<E}" "?c a = ?c b"
    then have "c_idx (?c a) = c_idx (?c b)" "a < E" "b < E" by simp_all
    then show "a = b" by (simp add: idx)
  qed
  then show "card A = E" by (simp add: A_def card_image)
  let ?m = "(E + 31) div 32"
  let ?L = "concat (map (\<lambda>w. map ?c (warp_span w)) [0..<?m])"
  have L: "?L = map ?c [0..<32 * ?m]" by (rule concat_spans)
  have E: "E \<le> 32 * ?m" by linarith
  have r: "set (reals neg ?L) = A" unfolding L set_reals A_def
  proof (rule set_eqI, rule iffI)
    fix c assume "c \<in> {c \<in> set (map ?c [0..<32 * ?m]). neg < c_key c}"
    then obtain e where "c = ?c e" "neg < c_key c" by auto
    with off [of e] show "c \<in> ?c ` {..<E}" by (cases "e < E") auto
  next
    fix c assume "c \<in> ?c ` {..<E}"
    with keys E show "c \<in> {c \<in> set (map ?c [0..<32 * ?m]). neg < c_key c}" by auto
  qed
  have "tie_sorted neg ?L" unfolding L tie_sorted_def sorted_wrt_map
  proof (rule sorted_wrt_mono_rel [OF _ sorted_wrt_upt])
    fix a b :: nat assume "a < b"
    then show "neg < c_key (?c a) \<and> c_key (?c a) = c_key (?c b) \<longrightarrow> c_idx (?c a) < c_idx (?c b)"
      using off [of a] off [of b] by (cases "a < E"; cases "b < E") (simp_all add: idx)
  qed
  moreover have "\<forall>c \<in> set ?L. neg \<le> c_key c" unfolding L
    using keys off by (metis (no_types, lifting) ex_map_conv less_imp_le order_refl)
  ultimately have "holds_top neg A K ?L" by (auto simp: holds_top_def r top_of_def)
  from chunks_hold_top [OF A this] show "holds_top neg A K (router_start neg act scores bias E K)"
    unfolding router_start_def by (simp add: comp_def)
qed

text \<open>The selection is the list of the K best experts, best first, ties towards the lower index.\<close>

definition better :: "(nat \<Rightarrow> 'f::linorder) \<Rightarrow> nat \<Rightarrow> nat \<Rightarrow> bool" where
  "better key a b \<longleftrightarrow> key b < key a \<or> key a = key b \<and> a < b"

lemma better_total: "a \<noteq> b \<Longrightarrow> better key a b \<or> better key b a"
  unfolding better_def by (metis linorder_neqE linorder_neqE_nat)

definition best_experts :: "(nat \<Rightarrow> 'f::linorder) \<Rightarrow> nat \<Rightarrow> nat \<Rightarrow> nat list \<Rightarrow> bool" where
  "best_experts key E K xs \<longleftrightarrow> length xs = K \<and> distinct xs \<and> set xs \<subseteq> {..<E} \<and>
     sorted_wrt (better key) xs \<and> (\<forall>e < E. e \<notin> set xs \<longrightarrow> (\<forall>a \<in> set xs. better key a e))"

lemma sorted_wrt_neq_distinct: "sorted_wrt (\<noteq>) xs \<Longrightarrow> distinct xs"
  by (induction xs) auto

lemma router_select_best:
  fixes neg :: "'f::linordered_field"
  assumes K: "0 < K" "K \<le> 16" "K \<le> E"
    and keys: "\<forall>e < E. neg < c_key (start_cand neg act scores bias E e)"
    and f: "all_fenced K ((E + 31) div 32 * K) scheds"
  shows "\<exists>xs. router_select neg act scores bias E K scheds = map (start_cand neg act scores bias E) xs \<and>
    best_experts (\<lambda>e. c_key (start_cand neg act scores bias E e)) E K xs"
proof -
  let ?c = "start_cand neg act scores bias E"
  let ?A = "?c ` {..<E}"
  let ?n = "(E + 31) div 32 * K"
  note st = start_holds_top [OF keys K(3)]
  have idx: "c_idx (?c e) = int e" if "e < E" for e using that by (simp add: start_cand_def Let_def)
  have len: "length (router_start neg act scores bias E K) = ?n"
    by (simp add: router_start_def length_concat comp_def sum_list_triv)
  obtain n sh where m: "merge_loop neg K scheds 0 ?n (router_start neg act scores bias E K) = (n, sh)"
    by (rule prod.exhaust)
  have "take ?n (router_start neg act scores bias E K) = router_start neg act scores bias E K"
    by (rule take_all) (simp only: len order_refl)
  then have s0: "holds_top neg ?A K (take ?n (router_start neg act scores bias E K))" using st(3) by (simp only:)
  have f0: "\<forall>i. fenced ((stage_n K ?n i + 31) div 32) (scheds (0 + i))"
    using f unfolding all_fenced_def add_0 .
  have "holds_top neg ?A K (take n sh) \<and> n \<le> length sh \<and> n \<le> 32"
    by (rule merge_loop_holds_top [OF st(1) K(1,2) s0 _ f0 m]) (simp only: len order_refl)
  then have n: "holds_top neg ?A K (take n sh)" "n \<le> length sh" "n \<le> 32 * 1" by simp_all
  have h: "holds_top neg ?A K (load_cands neg sh n 0)" using loads_hold_top [OF n] by simp
  let ?O = "warp_topk neg K (load_cands neg sh n 0)"
  have outq: "router_select neg act scores bias E K scheds = ?O" by (simp add: router_select_def m)
  have "K \<le> card ?A" using st(2) K(3) by simp
  note fin = final_topk [OF st(1) this h load_nonempty]
  let ?xs = "map (\<lambda>c. nat (c_idx c)) ?O"
  have sub: "set ?O \<subseteq> ?A" unfolding fin(1) by (auto simp: top_of_def)
  have unidx: "?c (nat (c_idx c)) = c \<and> nat (c_idx c) < E" if "c \<in> set ?O" for c
    using sub that idx by auto
  with unidx have outx: "?O = map ?c ?xs" by (simp add: map_idI comp_def)
  have bf: "before (?c a) (?c b) \<longleftrightarrow> better (\<lambda>e. c_key (?c e)) a b" if "a < E" "b < E" for a b
    using that by (simp add: before_def better_def idx)
  have xsE: "set ?xs \<subseteq> {..<E}" using unidx by auto
  have sor: "sorted_wrt (better (\<lambda>e. c_key (?c e))) ?xs"
  proof -
    have "sorted_wrt (\<lambda>a b. before (?c a) (?c b)) ?xs"
      using fin(2) unfolding sorted_wrt_map [symmetric, of before ?c] outx [symmetric] .
    then show ?thesis
      by (rule sorted_wrt_mono_rel [rotated]) (use bf xsE in blast)
  qed
  have "distinct ?xs"
  proof -
    have "sorted_wrt (\<noteq>) ?xs"
      by (rule sorted_wrt_mono_rel [OF _ sor]) (auto simp: better_def)
    then show ?thesis by (rule sorted_wrt_neq_distinct)
  qed
  moreover have "better (\<lambda>e. c_key (?c e)) a e" if e: "e < E" "e \<notin> set ?xs" and a: "a \<in> set ?xs" for a e
  proof -
    have aE: "a < E" using a xsE by auto
    have "?c a \<in> set (map ?c ?xs)" using a unfolding set_map by (rule imageI)
    then have "?c a \<in> top_of ?A K" unfolding outx [symmetric] fin(1) .
    moreover have "?c e \<notin> top_of ?A K"
    proof
      assume "?c e \<in> top_of ?A K"
      then have "?c e \<in> set ?O" using fin(1) by simp
      then have "nat (c_idx (?c e)) \<in> set ?xs" by simp
      with e show False by (simp add: idx)
    qed
    ultimately have r: "rank_in ?A (?c a) < K" "\<not> rank_in ?A (?c e) < K" using e(1) by (auto simp: top_of_def)
    have "\<not> before (?c e) (?c a)"
    proof
      assume b: "before (?c e) (?c a)"
      have "rank_in ?A (?c e) \<le> rank_in ?A (?c a)" unfolding rank_in_def
      proof (rule card_mono)
        show "{d \<in> ?A. before d (?c e)} \<subseteq> {d \<in> ?A. before d (?c a)}"
          using before_trans [OF _ b] by blast
      qed simp
      with r show False by simp
    qed
    moreover have "a \<noteq> e" using a e(2) by blast
    ultimately show ?thesis
      using better_total [of a e "\<lambda>e. c_key (?c e)"] bf [OF e(1) aE] by simp
  qed
  ultimately have "best_experts (\<lambda>e. c_key (?c e)) E K ?xs"
    using xsE sor unfolding best_experts_def by simp
  then show ?thesis by (intro exI [of _ ?xs] conjI trans [OF outq outx])
qed

text \<open>Nothing in a stage makes the loads come first.  When the second warp has stored its results
  before the first one loads, the candidates it overwrote are gone: with more than 32 and at
  most 64 of them, no real candidate of positions K to 2K-1 that is not elsewhere survives,
  however good it is.\<close>

lemma reals_warp_topk: "L \<noteq> [] \<Longrightarrow> set (reals neg (warp_topk neg K L)) \<subseteq> set (reals neg L)"
proof (induction K arbitrary: L)
  case 0
  then show ?case by (simp add: reals_def)
next
  case (Suc k)
  let ?b = "warp_reduce_best L"
  have "set (reals neg (warp_topk neg k (map (retire_lane neg (c_idx ?b)) L))) \<subseteq> set (reals neg L)"
    using Suc.IH [of "map (retire_lane neg (c_idx ?b)) L"] Suc.prems by (auto simp: reals_retire)
  moreover have "neg < c_key ?b \<Longrightarrow> ?b \<in> set (reals neg L)" using best_in [OF Suc.prems] by (simp add: set_reals)
  ultimately show ?case by (simp add: Let_def reals_Cons)
qed

lemma in_load_cands:
  "c \<in> set (load_cands neg sh n w) \<Longrightarrow> \<exists>pos. c = (if pos < n then sh ! pos else pad_cand neg)"
  by (auto simp: load_cands_def)

lemma unfenced_stage_loses:
  fixes neg :: "'f::linordered_field"
  assumes n: "32 < n" "n \<le> 64" "n \<le> length sh" and K: "0 < K" "K \<le> 16"
    and c: "neg < c_key c" "\<forall>pos < n. pos < K \<or> 2 * K \<le> pos \<longrightarrow> sh ! pos \<noteq> c"
  shows "c \<notin> set (take (2 * K) (merge_stage neg K [1, 1, 0, 0] n sh))"
proof
  assume a: "c \<in> set (take (2 * K) (merge_stage neg K [1, 1, 0, 0] n sh))"
  have m: "(n + 31) div 32 = 2" using n by linarith
  let ?L1 = "load_cands neg sh n 1"
  let ?sh1 = "foldl (\<lambda>s k. s[1 * K + k := warp_topk neg K ?L1 ! k]) sh [0..<K]"
  let ?L0 = "load_cands neg ?sh1 n 0"
  let ?sh2 = "foldl (\<lambda>s k. s[0 * K + k := warp_topk neg K ?L0 ! k]) ?sh1 [0..<K]"
  have r: "merge_stage neg K [1, 1, 0, 0] n sh = ?sh2"
    by (simp add: merge_stage_def stage_step_def m numeral_2_eq_2)
  note r1 = store_row [of K K 1 "\<lambda>k. warp_topk neg K ?L1 ! k" sh, OF order_refl]
  note r2 = store_row [of K K 0 "\<lambda>k. warp_topk neg K ?L0 ! k" ?sh1, OF order_refl]
  have lk: "2 * K \<le> length sh" using n K by simp
  have c1: "c \<notin> set (warp_topk neg K ?L1)"
  proof
    assume "c \<in> set (warp_topk neg K ?L1)"
    then have "c \<in> set ?L1" using c(1) reals_warp_topk [of ?L1 neg K] by (auto simp: set_reals)
    then obtain pos where "pos \<in> set (warp_span 1)" "c = (if pos < n then sh ! pos else pad_cand neg)"
      by (auto simp: load_cands_def)
    with c K show False by (auto simp: pad_cand_def split: if_splits)
  qed
  have s1: "?sh1 ! pos \<noteq> c" if "pos < n" for pos
  proof (cases "K \<le> pos \<and> pos < 2 * K")
    case True
    then have "?sh1 ! pos = warp_topk neg K ?L1 ! (pos - K)" using r1 that n by simp
    moreover have "pos - K < K" using True by linarith
    then have "warp_topk neg K ?L1 ! (pos - K) \<in> set (warp_topk neg K ?L1)" by (intro nth_mem) simp
    ultimately show ?thesis using c1 by metis
  next
    case False
    then have "?sh1 ! pos = sh ! pos" using r1 that n by auto
    with c(2) that False show ?thesis by auto
  qed
  have c0: "c \<notin> set (warp_topk neg K ?L0)"
  proof
    assume "c \<in> set (warp_topk neg K ?L0)"
    then have "c \<in> set ?L0" using c(1) reals_warp_topk [of ?L0 neg K] by (auto simp: set_reals)
    then obtain pos where "c = (if pos < n then ?sh1 ! pos else pad_cand neg)"
      using in_load_cands by blast
    with s1 [of pos] c(1) show False by (cases "pos < n") (auto simp: pad_cand_def)
  qed
  from a obtain pos where pos: "pos < 2 * K" "?sh2 ! pos = c"
    unfolding r by (auto simp: in_set_conv_nth)
  show False
  proof (cases "pos < K")
    case True
    then have "?sh2 ! pos = warp_topk neg K ?L0 ! pos" using r2 r1 lk by simp
    moreover have "warp_topk neg K ?L0 ! pos \<in> set (warp_topk neg K ?L0)" using True by (intro nth_mem) simp
    ultimately show False using c0 pos by metis
  next
    case False
    then have "?sh2 ! pos = ?sh1 ! pos" using r2 r1 lk pos by simp
    with s1 [of pos] pos n K show False by simp
  qed
qed

text \<open>C6: When every merge stage makes all its loads before its stores, the kernel returns for each
  token the K experts with the greatest keys, best first, ties towards the lower index, each with
  its activation scaled by the sum over the selected ones; requests beyond the kernel's limits
  are refused.\<close>

theorem router_selects_best:
  fixes neg :: "'f::linordered_field"
  assumes "0 < K" and "K \<le> 16" and "K \<le> E" and "E \<le> 512"
    and "\<forall>e < E. neg < c_key (start_cand neg act scores bias E e)"
    and "all_fenced K ((E + 31) div 32 * K) scheds"
  shows "\<exists>xs. best_experts (\<lambda>e. if bias = None then scores ! e else act (scores ! e) + the bias ! e) E K xs \<and>
    routing_ds3_nogroup neg tiny act rnd scaling E K scheds scores bias =
      Some (map (\<lambda>e. (int e, rnd (act (scores ! e) * scaling / ((\<Sum>x\<leftarrow>xs. act (scores ! x)) + tiny)))) xs)"
proof -
  let ?c = "start_cand neg act scores bias E"
  obtain xs where xs: "router_select neg act scores bias E K scheds = map ?c xs"
    and best: "best_experts (\<lambda>e. c_key (?c e)) E K xs"
    using router_select_best [OF assms(1-3,5,6)] by blast
  have lt: "\<forall>e \<in> set xs. e < E" using best by (auto simp: best_experts_def)
  have key: "c_key (?c e) = (if bias = None then scores ! e else act (scores ! e) + the bias ! e)"
    if "e < E" for e using that by (auto simp: start_cand_def Let_def split: option.split)
  have "best_experts (\<lambda>e. if bias = None then scores ! e else act (scores ! e) + the bias ! e) E K xs"
  proof -
    have b: "better (\<lambda>e. c_key (?c e)) a b \<longleftrightarrow>
        better (\<lambda>e. if bias = None then scores ! e else act (scores ! e) + the bias ! e) a b"
      if "a < E" "b < E" for a b using that by (simp add: better_def key)
    have "sorted_wrt (better (\<lambda>e. if bias = None then scores ! e else act (scores ! e) + the bias ! e)) xs"
      by (rule sorted_wrt_mono_rel [of xs "better (\<lambda>e. c_key (?c e))"])
        (use best lt b in \<open>auto simp: best_experts_def\<close>)
    then show ?thesis using best lt b unfolding best_experts_def by blast
  qed
  moreover have pay: "(if bias \<noteq> None then c_payload (?c e) else act (c_payload (?c e))) = act (scores ! e) \<and>
      c_idx (?c e) = int e" if "e < E" for e
    using that by (simp add: start_cand_def Let_def)
  have acts: "map (\<lambda>c. if bias \<noteq> None then c_payload c else act (c_payload c)) (map ?c xs) = map (\<lambda>e. act (scores ! e)) xs"
    using pay lt by simp
  have "routing_ds3_nogroup neg tiny act rnd scaling E K scheds scores bias =
      Some (map (\<lambda>e. (int e, rnd (act (scores ! e) * scaling / ((\<Sum>x\<leftarrow>xs. act (scores ! x)) + tiny)))) xs)"
    unfolding routing_ds3_nogroup_def xs router_weights_def acts Let_def
    using assms(2-4) pay lt by (simp add: map2_map_map)
  ultimately show ?thesis by blast
qed

theorem router_selects_best_witness:
  "\<exists>xs. best_experts (\<lambda>e. of_nat (7 * e mod 40) :: rat) 40 3 xs \<and>
    map fst (the (routing_ds3_nogroup (-1) 0 id id 1 40 3 (lockstep 3 6) (map (\<lambda>e. of_nat (7 * e mod 40) :: rat) [0..<40]) None)) =
      map int xs"
proof -
  let ?s = "map (\<lambda>e. of_nat (7 * e mod 40) :: rat) [0..<40]"
  have nn: "(0::rat) \<le> of_nat n" for n by simp
  have k: "\<forall>e < 40. (-1::rat) < c_key (start_cand (-1) id ?s None 40 e)"
    by (simp add: start_cand_def Let_def less_le_trans [OF _ nn])
  have "all_fenced 3 ((40 + 31) div 32 * 3) (lockstep 3 6)" using lockstep_fenced [of 3 6] by simp
  from router_selects_best [OF _ _ _ _ k this, of 0 id 1] obtain xs where
    b: "best_experts (\<lambda>e. ?s ! e) 40 3 xs"
    and r: "routing_ds3_nogroup (-1) 0 id id 1 40 3 (lockstep 3 6) ?s None =
      Some (map (\<lambda>e. (int e, id (id (?s ! e) * 1 / ((\<Sum>x\<leftarrow>xs. id (?s ! x)) + 0)))) xs)" by auto
  have lt: "\<forall>e \<in> set xs. e < 40" using b by (auto simp: best_experts_def)
  have "better (\<lambda>e. ?s ! e) a c \<longleftrightarrow> better (\<lambda>e. of_nat (7 * e mod 40) :: rat) a c" if "a < 40" "c < 40" for a c
    using that by (simp add: better_def)
  then have "best_experts (\<lambda>e. of_nat (7 * e mod 40) :: rat) 40 3 xs"
    using b lt unfolding best_experts_def by (metis (no_types, lifting) sorted_wrt_mono_rel)
  moreover have "map fst (the (routing_ds3_nogroup (-1) 0 id id 1 40 3 (lockstep 3 6) ?s None)) = map int xs"
    unfolding r by (simp add: comp_def)
  ultimately show ?thesis by (intro exI [of _ xs] conjI)
qed

end
