(* ===== verification/Moe_Ffn.thy ===== *)
theory Moe_Ffn
  imports Moe_Grouped Router Slot_Manager
begin

text \<open>
  The sparse feed-forward layer: \<^verbatim>\<open>Runner::moe_ffn\<close> (\<^verbatim>\<open>src/engine/runner.cpp\<close>) as the
  composition of the permutation, the slot manager, the grouped kernel and the reduction in
  routing order, and its alternative path with one product per expert.  The router's answer is a
  list of (expert, weight) pairs per token.  The arithmetic of one expert on one token is a
  parameter applied to the slab its table entry points at.
\<close>

section \<open>The reduction and the two ways to compute the routed sum\<close>

text \<open>\<^verbatim>\<open>glue::moe_reduce_sorted\<close>: the contributions of a token in ascending routing rank.\<close>

definition moe_reduce_sorted ::
  "'y \<Rightarrow> ('y \<Rightarrow> 'y \<Rightarrow> 'y) \<Rightarrow> 'y list \<Rightarrow> nat list \<Rightarrow> nat \<Rightarrow> nat \<Rightarrow> 'y list" where
  "moe_reduce_sorted zero add contrib route M topk =
     map (\<lambda>t. foldl (\<lambda>acc j. add acc (contrib ! (route ! (t * topk + j)))) zero [0..<topk]) [0..<M]"

text \<open>\<^verbatim>\<open>scatter_add_rows\<close> of one expert, and the loop over the experts of the dense path.\<close>

definition scatter_add_rows ::
  "('y \<Rightarrow> 'y \<Rightarrow> 'y) \<Rightarrow> nat list \<Rightarrow> (nat \<Rightarrow> 'y) \<Rightarrow> nat \<Rightarrow> nat \<Rightarrow> 'y list \<Rightarrow> 'y list" where
  "scatter_add_rows add idx row first cnt y =
     foldl (\<lambda>y p. y[idx ! p := add (y ! (idx ! p)) (row p)]) y [first..<first + cnt]"

definition moe_dense ::
  "('y \<Rightarrow> 'y \<Rightarrow> 'y) \<Rightarrow> nat list \<Rightarrow> nat \<Rightarrow> nat list \<Rightarrow> (nat \<Rightarrow> nat \<Rightarrow> 'y) \<Rightarrow> 'y list \<Rightarrow> 'y list" where
  "moe_dense add cnts E idx row y =
     foldl (\<lambda>y e. if cnts ! e = 0 then y
                  else scatter_add_rows add idx (row e) (offs cnts e) (cnts ! e) y) y [0..<E]"

section \<open>The layer\<close>

text \<open>What a table entry reads: the slab the slot holds, the zeroed slab, or nothing.\<close>

fun table_slab :: "'b SlotMgr \<Rightarrow> 'b \<Rightarrow> Base \<Rightarrow> 'b option" where
  "table_slab m zero_slab (InSlot i) = pool m i"
| "table_slab m zero_slab ZeroSlab = Some zero_slab"
| "table_slab m zero_slab NullPtr = None"

text \<open>The sizes and schedules of one call: the workspace's rows per expert, the number of group
  buffers, and the orders in which the scatter threads and the groups move.\<close>

record MoePlan =
  plan_experts :: nat
  plan_topk :: nat
  max_tokens_per_expert :: nat
  concurrency :: nat
  scatter_sched :: "nat list"
  group_sched :: "nat list"
  rank_due :: bool

definition flat_ids :: "(nat \<times> 'w) list list \<Rightarrow> nat list" where
  "flat_ids routes = concat (map (map fst) routes)"

definition flat_weights :: "(nat \<times> 'w) list list \<Rightarrow> 'w list" where
  "flat_weights routes = concat (map (map snd) routes)"

definition moe_row ::
  "('b option \<Rightarrow> 'x \<Rightarrow> 'w \<Rightarrow> 'y) \<Rightarrow> 'b option list \<Rightarrow> 'x list \<Rightarrow> 'w Permuted \<Rightarrow> nat \<Rightarrow> nat \<Rightarrow> 'y" where
  "moe_row expert slabs x P e p =
     expert (slabs ! e) (x ! (token_sorted P ! p)) (weight_sorted P ! p)"

definition moe_ffn ::
  "'b Arena \<Rightarrow> int \<Rightarrow> MoePlan \<Rightarrow> 'b \<Rightarrow> ('b option \<Rightarrow> 'x \<Rightarrow> 'w \<Rightarrow> 'y) \<Rightarrow> 'y \<Rightarrow> ('y \<Rightarrow> 'y \<Rightarrow> 'y) \<Rightarrow>
   ('x \<Rightarrow> (nat \<times> 'w) list) \<Rightarrow> ('x \<Rightarrow> 'y) \<Rightarrow> 'x list \<Rightarrow> 'w Permuted \<Rightarrow> 'y list \<Rightarrow> 'b SlotMgr \<Rightarrow>
   ('b SlotMgr \<times> 'y list) option" where
  "moe_ffn A l plan zero_slab expert zero add router shared x bufs cbuf m =
     (let E = plan_experts plan; n = length x; routes = map router x;
          ids = flat_ids routes; weights = flat_weights routes;
          (ec, P) = moe_permute ids weights (plan_topk plan) E (scatter_sched plan) bufs
      in case moe_slots A l E (\<lambda>e. int (ec ! e)) m of
           None \<Rightarrow> None
         | Some (m1, bs) \<Rightarrow>
             (let slabs = map (table_slab m1 zero_slab) bs;
                  active = length (filter (\<lambda>c. 0 < c) (take E ec));
                  y = (if active > 0
                       then (let K = moe_grouped ec E (max_tokens_per_expert plan) (concurrency plan)
                                       (moe_row expert slabs x P) (group_sched plan) active cbuf
                             in moe_reduce_sorted zero add (contributions K) (route_to_sorted P) n (plan_topk plan))
                       else replicate n zero)
              in Some (end_step (rank_due plan) m1, map2 add y (map shared x))))"

section \<open>Flattened routes\<close>

lemma length_concat_equal:
  "\<forall>r \<in> set xss. length r = k \<Longrightarrow> length (concat xss) = length xss * k"
  by (induction xss) simp_all

text \<open>Top-k routing is without replacement, so an expert has at most one row per token.\<close>

lemma count_le_tokens:
  assumes len: "\<forall>r \<in> set xss. length r = k" and d: "\<forall>r \<in> set xss. distinct r"
  shows "card {i. i < length (concat xss) \<and> concat xss ! i = (e::nat)} \<le> length xss"
proof -
  let ?S = "{i. i < length (concat xss) \<and> concat xss ! i = e}"
  note lc = length_concat_equal [OF len]
  have at: "i div k < length xss \<and> i mod k < k \<and> xss ! (i div k) ! (i mod k) = e" if "i \<in> ?S" for i
  proof -
    from that lc have i: "i < length xss * k" "concat xss ! i = e" by simp_all
    then have "0 < k" by (cases k) simp_all
    moreover from i(1) have "i div k < length xss" by (rule less_mult_imp_div_less)
    ultimately show ?thesis using nth_concat_equal [OF len, of "i div k" "i mod k"] i(2) by simp
  qed
  have "inj_on (\<lambda>i. i div k) ?S"
  proof (rule inj_onI)
    fix i j assume i: "i \<in> ?S" and j: "j \<in> ?S" and eq: "i div k = j div k"
    have "xss ! (i div k) \<in> set xss" using at [OF i] by simp
    then have "distinct (xss ! (i div k))" "length (xss ! (i div k)) = k" using d len by blast+
    then have "i mod k = j mod k" using at [OF i] at [OF j] eq by (metis nth_eq_iff_index_eq)
    with eq show "i = j" by (metis div_mult_mod_eq)
  qed
  moreover have "(\<lambda>i. i div k) ` ?S \<subseteq> {..<length xss}" using at by blast
  ultimately show ?thesis by (metis card_inj_on_le card_lessThan finite_lessThan)
qed

section \<open>The grouped path\<close>

text \<open>The routed sum of a token, as the routing lists it.\<close>

definition routed_sum ::
  "'y \<Rightarrow> ('y \<Rightarrow> 'y \<Rightarrow> 'y) \<Rightarrow> (nat \<Rightarrow> 'w \<Rightarrow> 'y) \<Rightarrow> (nat \<times> 'w) list \<Rightarrow> 'y" where
  "routed_sum zero add f r = foldl (\<lambda>acc (e, w). add acc (f e w)) zero r"

definition routes_ok :: "(nat \<times> 'w) list list \<Rightarrow> nat \<Rightarrow> nat \<Rightarrow> bool" where
  "routes_ok routes k E \<longleftrightarrow>
     (\<forall>r \<in> set routes. length r = k \<and> distinct (map fst r) \<and> (\<forall>p \<in> set r. fst p < E))"

lemma flat_nth:
  assumes ok: "routes_ok routes k E" and "t < length routes" "j < k"
  shows "flat_ids routes ! (t * k + j) = fst (routes ! t ! j)"
    "flat_weights routes ! (t * k + j) = snd (routes ! t ! j)"
proof -
  have len: "\<forall>r \<in> set routes. length r = k" using ok by (simp add: routes_ok_def)
  have l: "length (routes ! t) = k" using assms len by simp
  show "flat_ids routes ! (t * k + j) = fst (routes ! t ! j)"
    using nth_concat_equal [of "map (map fst) routes" k t j] assms len l by (simp add: flat_ids_def)
  show "flat_weights routes ! (t * k + j) = snd (routes ! t ! j)"
    using nth_concat_equal [of "map (map snd) routes" k t j] assms len l by (simp add: flat_weights_def)
qed

lemma length_flat_ids: "routes_ok routes k E \<Longrightarrow> length (flat_ids routes) = length routes * k"
  using length_concat_equal [of "map (map fst) routes" k] by (simp add: routes_ok_def flat_ids_def)

lemma flat_ids_below:
  assumes ok: "routes_ok routes k E"
  shows "\<forall>i < length (flat_ids routes). flat_ids routes ! i < E"
proof (intro allI impI)
  fix i assume "i < length (flat_ids routes)"
  then have "flat_ids routes ! i \<in> set (flat_ids routes)" by (rule nth_mem)
  then obtain r p where "r \<in> set routes" "p \<in> set r" "flat_ids routes ! i = fst p"
    by (auto simp: flat_ids_def)
  with ok show "flat_ids routes ! i < E" by (simp add: routes_ok_def)
qed

lemma count_flat_le:
  "routes_ok routes k E \<Longrightarrow> e < E \<Longrightarrow> moe_count (flat_ids routes) E ! e \<le> length routes"
  using count_le_tokens [of "map (map fst) routes" k e] by (simp add: nth_count routes_ok_def flat_ids_def)

lemma offs_flat_end: "routes_ok routes k E \<Longrightarrow> offs (moe_count (flat_ids routes) E) E = length routes * k"
  using offs_total [OF flat_ids_below] length_flat_ids by metis

lemma flat_less:
  assumes t: "t < n" and j: "j < (k::nat)"
  shows "t * k + j < n * k"
proof -
  have "t * k + j < Suc t * k" using j by simp
  also have "\<dots> \<le> n * k" using t by (intro mult_le_mono1) simp
  finally show ?thesis .
qed

text \<open>The reduction over rows that hold their expert's contribution is the routed sum.\<close>

lemma reduce_routed:
  assumes ok: "routes_ok routes k E"
    and P: "permuted_ok (flat_ids routes) (flat_weights routes) k E P" and nx: "length x = length routes"
    and c: "\<forall>e < E. \<forall>p. offs (moe_count (flat_ids routes) E) e \<le> p \<and> p < offs (moe_count (flat_ids routes) E) (Suc e) \<longrightarrow>
      contrib ! p = f e (x ! (token_sorted P ! p)) (weight_sorted P ! p)"
  shows "moe_reduce_sorted zero add contrib (route_to_sorted P) (length x) k =
    map2 (\<lambda>xt r. routed_sum zero add (\<lambda>e. f e xt) r) x routes"
proof (rule nth_equalityI)
  show "length (moe_reduce_sorted zero add contrib (route_to_sorted P) (length x) k) =
      length (map2 (\<lambda>xt r. routed_sum zero add (\<lambda>e. f e xt) r) x routes)"
    using nx by (simp add: moe_reduce_sorted_def)
  fix t assume "t < length (moe_reduce_sorted zero add contrib (route_to_sorted P) (length x) k)"
  then have t: "t < length routes" using nx by (simp add: moe_reduce_sorted_def)
  then have lr: "length (routes ! t) = k" using ok by (simp add: routes_ok_def)
  let ?ids = "flat_ids routes" and ?weights = "flat_weights routes"
  have step: "contrib ! (route_to_sorted P ! (t * k + j)) =
      f (fst (routes ! t ! j)) (x ! t) (snd (routes ! t ! j))" if j: "j < k" for j
  proof -
    let ?i = "t * k + j"
    have i: "?i < length ?ids" using flat_less [OF t j] length_flat_ids [OF ok] by simp
    with P have p: "offs (moe_count (flat_ids routes) E) (?ids ! ?i) \<le> route_to_sorted P ! ?i"
      "route_to_sorted P ! ?i < offs (moe_count (flat_ids routes) E) (Suc (?ids ! ?i))"
      "token_sorted P ! (route_to_sorted P ! ?i) = ?i div k"
      "weight_sorted P ! (route_to_sorted P ! ?i) = ?weights ! ?i"
      by (simp_all add: permuted_ok_def Let_def)
    have "?i div k = t" using j by simp
    moreover have "?ids ! ?i < E" using flat_ids_below [OF ok] i by blast
    with p c have "contrib ! (route_to_sorted P ! ?i) = f (?ids ! ?i)
        (x ! (token_sorted P ! (route_to_sorted P ! ?i))) (weight_sorted P ! (route_to_sorted P ! ?i))"
      by blast
    ultimately show ?thesis using p flat_nth [OF ok t j] by simp
  qed
  have "foldl (\<lambda>acc j. add acc (contrib ! (route_to_sorted P ! (t * k + j)))) zero [0..<k] =
      foldl (\<lambda>acc j. case routes ! t ! j of (e, w) \<Rightarrow> add acc (f e (x ! t) w)) zero [0..<k]"
    using step by (intro foldl_cong) (auto simp: case_prod_beta)
  also have "\<dots> = routed_sum zero add (\<lambda>e. f e (x ! t)) (map (\<lambda>j. routes ! t ! j) [0..<k])"
    by (simp add: routed_sum_def foldl_map)
  also have "map (\<lambda>j. routes ! t ! j) [0..<k] = routes ! t" using lr map_nth by blast
  finally show "moe_reduce_sorted zero add contrib (route_to_sorted P) (length x) k ! t =
      map2 (\<lambda>xt r. routed_sum zero add (\<lambda>e. f e xt) r) x routes ! t"
    using t nx by (simp add: moe_reduce_sorted_def)
qed

section \<open>The whole layer\<close>

lemma active_groups_pos:
  assumes "0 < n" and "0 < conc"
  shows "0 < moe_num_groups conc n" "moe_num_groups conc n \<le> 64"
  using assms by (simp_all add: moe_num_groups_def Let_def)

lemma active_pos:
  assumes ok: "routes_ok routes k E" and "routes \<noteq> []" and "0 < k"
  shows "0 < length (filter (\<lambda>c. 0 < c) (moe_count (flat_ids routes) E))"
proof -
  have "0 < length (flat_ids routes)" using assms length_flat_ids [OF ok] by simp
  then have i: "flat_ids routes ! 0 < E" using flat_ids_below [OF ok] by blast
  then have "moe_count (flat_ids routes) E ! (flat_ids routes ! 0) \<in> set (moe_count (flat_ids routes) E)"
    by simp
  moreover have "0 < moe_count (flat_ids routes) E ! (flat_ids routes ! 0)"
    using i \<open>0 < length (flat_ids routes)\<close> by (auto simp: nth_count card_gt_0_iff)
  ultimately show ?thesis by (force simp: filter_empty_conv)
qed

lemma count_pos_iff:
  "e < E \<Longrightarrow> 0 < moe_count (flat_ids routes) E ! e \<longleftrightarrow> (\<exists>r \<in> set routes. e \<in> fst ` set r)"
proof -
  assume e: "e < E"
  have "0 < moe_count (flat_ids routes) E ! e \<longleftrightarrow> e \<in> set (flat_ids routes)"
    using e by (auto simp: nth_count card_gt_0_iff in_set_conv_nth)
  then show ?thesis by (simp add: flat_ids_def)
qed

definition plan_fair :: "MoePlan \<Rightarrow> nat \<Rightarrow> bool" where
  "plan_fair plan n \<longleftrightarrow> fair_for (n * plan_topk plan) 4 (scatter_sched plan) \<and>
     fair_for 64 (n * plan_topk plan + 3 * plan_experts plan + 1) (group_sched plan)"

definition buffers_fit :: "MoePlan \<Rightarrow> nat \<Rightarrow> 'w Permuted \<Rightarrow> 'y list \<Rightarrow> bool" where
  "buffers_fit plan n bufs cbuf \<longleftrightarrow> n \<le> max_tokens_per_expert plan \<and> 0 < concurrency plan \<and>
     big_enough (n * plan_topk plan) bufs \<and> n * plan_topk plan \<le> length cbuf"

section \<open>The dense path\<close>

text \<open>One product per expert adds a token's contributions in the order of the experts.  With an
  exact addition that is the routed sum; the rows are added in place, so each cell collects the
  rows of its token.\<close>

lemma length_foldl_update [simp]:
  "length (foldl (\<lambda>y r. y[tok r := f y r]) y rs) = length y"
  by (induction rs arbitrary: y) simp_all

lemma foldl_add_at:
  fixes y :: "'y::comm_monoid_add list"
  assumes "\<forall>r \<in> set rs. tok r < length y" and "t < length y"
  shows "foldl (\<lambda>y r. y[tok r := y ! tok r + v r]) y rs ! t =
      y ! t + sum_list (map (\<lambda>r. if tok r = t then v r else 0) rs)"
  using assms
  by (induction rs arbitrary: y) (auto simp: nth_list_update add.assoc)

lemma sum_foldl: "(\<Sum>j<m. f j) = foldl (\<lambda>acc j. acc + f j) (0::'y::comm_monoid_add) [0..<m]"
  by (induction m) (simp_all add: add.commute)

definition segment_pairs :: "nat list \<Rightarrow> nat \<Rightarrow> (nat \<times> nat) list" where
  "segment_pairs cnts E = concat (map (\<lambda>e. map (Pair e) [offs cnts e..<offs cnts e + cnts ! e]) [0..<E])"

lemma foldl_concat_map:
  "foldl (\<lambda>y e. foldl (\<lambda>y r. g e r y) y (L e)) y es = foldl (\<lambda>y (e, r). g e r y) y (concat (map (\<lambda>e. map (Pair e) (L e)) es))"
proof -
  have one: "foldl (\<lambda>y (e, r). g e r y) y (map (Pair e) rs) = foldl (\<lambda>y r. g e r y) y rs" for y e rs
    by (induction rs arbitrary: y) simp_all
  show ?thesis by (induction es arbitrary: y) (simp_all add: one)
qed

lemma moe_dense_pairs:
  "moe_dense add cnts E idx row y =
     foldl (\<lambda>y (e, p). y[idx ! p := add (y ! (idx ! p)) (row e p)]) y (segment_pairs cnts E)"
proof -
  have "(\<lambda>y e. if cnts ! e = 0 then y else scatter_add_rows add idx (row e) (offs cnts e) (cnts ! e) y) =
      (\<lambda>y e. foldl (\<lambda>y p. y[idx ! p := add (y ! (idx ! p)) (row e p)]) y [offs cnts e..<offs cnts e + cnts ! e])"
    by (auto simp: fun_eq_iff scatter_add_rows_def)
  then show ?thesis
    unfolding moe_dense_def segment_pairs_def
    by (simp add: foldl_concat_map [where g = "\<lambda>e p y. y[idx ! p := add (y ! (idx ! p)) (row e p)]"])
qed

lemma distinct_segment_pairs: "distinct (segment_pairs cnts E)"
  unfolding segment_pairs_def by (induction E) (auto simp: distinct_map inj_on_def)

lemma segment_pairs_routes:
  assumes ids: "\<forall>i < length ids. ids ! i < E" and P: "permuted_ok ids ws k E P"
  shows "set (segment_pairs (moe_count ids E) E) = (\<lambda>i. (ids ! i, route_to_sorted P ! i)) ` {..<length ids}"
proof -
  let ?cnt = "moe_count ids E"
  have sp: "(e, p) \<in> set (segment_pairs ?cnt E) \<longleftrightarrow> e < E \<and> offs ?cnt e \<le> p \<and> p < offs ?cnt (Suc e)" for e p
    by (auto simp: segment_pairs_def offs_Suc image_iff)
  have seg: "offs ?cnt (ids ! i) \<le> route_to_sorted P ! i" "route_to_sorted P ! i < offs ?cnt (Suc (ids ! i))"
    if "i < length ids" for i
    using P that by (simp_all add: permuted_ok_def Let_def)
  show ?thesis
  proof (rule set_eqI, rule iffI)
    fix z assume "z \<in> set (segment_pairs ?cnt E)"
    moreover obtain e p where "z = (e, p)" by (cases z)
    ultimately have z: "z = (e, p)" "e < E" "offs ?cnt e \<le> p" "p < offs ?cnt (Suc e)"
      using sp by simp_all
    have "offs ?cnt (Suc e) \<le> length ids" using offs_mono [of "Suc e" E ?cnt] z(2) offs_total [OF ids] by simp
    then have "p \<in> {..<length ids}" using z by simp
    moreover have "(\<lambda>i. route_to_sorted P ! i) ` {..<length ids} = {..<length ids}"
      using P by (simp add: permuted_ok_def bij_betw_def)
    ultimately obtain i where i: "i < length ids" "p = route_to_sorted P ! i" by (metis imageE lessThan_iff)
    have "ids ! i < E" using ids i(1) by blast
    with seg [OF i(1)] z i have "ids ! i = e"
      by (intro segment_unique [of _ ?cnt e p]) simp_all
    with z i show "z \<in> (\<lambda>i. (ids ! i, route_to_sorted P ! i)) ` {..<length ids}" by blast
  next
    fix z assume "z \<in> (\<lambda>i. (ids ! i, route_to_sorted P ! i)) ` {..<length ids}"
    with sp seg ids show "z \<in> set (segment_pairs ?cnt E)" by auto
  qed
qed

text \<open>The dense path and the reduction in routing order give the same sums.\<close>

lemma dense_is_reduce:
  fixes row :: "nat \<Rightarrow> nat \<Rightarrow> 'y::comm_monoid_add"
  assumes ids: "\<forall>i < length ids. ids ! i < E" and P: "permuted_ok ids ws k E P" and n: "length ids = n * k"
    and c: "\<forall>e < E. \<forall>p. offs (moe_count ids E) e \<le> p \<and> p < offs (moe_count ids E) (Suc e) \<longrightarrow> contrib ! p = row e p"
  shows "moe_dense (+) (moe_count ids E) E (token_sorted P) row (replicate n 0) =
    moe_reduce_sorted 0 (+) contrib (route_to_sorted P) n k"
proof (rule nth_equalityI)
  let ?cnt = "moe_count ids E"
  let ?ps = "segment_pairs ?cnt E"
  let ?r = "\<lambda>i. route_to_sorted P ! i"
  note sp = segment_pairs_routes [OF ids P]
  have tok: "token_sorted P ! (?r i) = i div k" if "i < length ids" for i
    using P that by (simp add: permuted_ok_def Let_def)
  have tl: "\<forall>z \<in> set ?ps. token_sorted P ! snd z < length (replicate n (0::'y))"
  proof
    fix z assume "z \<in> set ?ps"
    then obtain i where i: "i < length ids" "z = (ids ! i, ?r i)" using sp by auto
    with tok [OF i(1)] n show "token_sorted P ! snd z < length (replicate n (0::'y))"
      by (simp add: less_mult_imp_div_less)
  qed
  have d: "moe_dense (+) ?cnt E (token_sorted P) row (replicate n 0) =
      foldl (\<lambda>y z. y[token_sorted P ! snd z := y ! (token_sorted P ! snd z) + row (fst z) (snd z)]) (replicate n 0) ?ps"
    unfolding moe_dense_pairs by (simp only: case_prod_unfold)
  note at = foldl_add_at [where rs = ?ps and tok = "\<lambda>z. token_sorted P ! snd z" and y = "replicate n (0::'y)"
      and v = "\<lambda>z. row (fst z) (snd z)", OF tl]
  show len: "length (moe_dense (+) ?cnt E (token_sorted P) row (replicate n 0)) =
      length (moe_reduce_sorted 0 (+) contrib (route_to_sorted P) n k)"
    by (simp add: d moe_reduce_sorted_def)
  fix t assume "t < length (moe_dense (+) ?cnt E (token_sorted P) row (replicate n 0))"
  then have t: "t < n" using len by (simp add: moe_reduce_sorted_def)
  let ?v = "\<lambda>z. if token_sorted P ! snd z = t then row (fst z) (snd z) else 0"
  have inj: "inj_on (\<lambda>i. (ids ! i, ?r i)) {..<length ids}"
    using P by (auto simp: permuted_ok_def bij_betw_def inj_on_def)
  have "moe_dense (+) ?cnt E (token_sorted P) row (replicate n 0) ! t = sum_list (map ?v ?ps)"
    using at [of t] t by (simp add: d)
  also have "\<dots> = sum ?v (set ?ps)" by (simp add: sum_list_distinct_conv_sum_set distinct_segment_pairs)
  also have "\<dots> = (\<Sum>i<length ids. if i div k = t then row (ids ! i) (?r i) else 0)"
    unfolding sp by (subst sum.reindex [OF inj]) (auto simp: tok intro!: sum.cong)
  also have "\<dots> = sum (\<lambda>i. row (ids ! i) (?r i)) {i. i < length ids \<and> i div k = t}"
    by (simp add: sum.If_cases Int_def lessThan_def conj_commute)
  also have "{i. i < length ids \<and> i div k = t} = (\<lambda>j. t * k + j) ` {..<k}"
  proof (rule set_eqI, rule iffI)
    fix i assume "i \<in> {i. i < length ids \<and> i div k = t}"
    moreover from this have "0 < k" using n by (cases k) auto
    ultimately have "i = t * k + i mod k" "i mod k < k" by auto
    then show "i \<in> (\<lambda>j. t * k + j) ` {..<k}" by blast
  next
    fix i assume "i \<in> (\<lambda>j. t * k + j) ` {..<k}"
    then obtain j where "j < k" "i = t * k + j" by blast
    with flat_less [OF t] n show "i \<in> {i. i < length ids \<and> i div k = t}" by simp
  qed
  also have "sum (\<lambda>i. row (ids ! i) (?r i)) ((\<lambda>j. t * k + j) ` {..<k}) =
      (\<Sum>j<k. row (ids ! (t * k + j)) (?r (t * k + j)))"
    by (subst sum.reindex) (auto simp: inj_on_def)
  also have "\<dots> = (\<Sum>j<k. contrib ! (?r (t * k + j)))"
  proof (rule sum.cong)
    fix j assume "j \<in> {..<k}"
    then have i: "t * k + j < length ids" using flat_less [OF t] n by simp
    moreover from i P have "offs ?cnt (ids ! (t * k + j)) \<le> ?r (t * k + j)"
      "?r (t * k + j) < offs ?cnt (Suc (ids ! (t * k + j)))" by (simp_all add: permuted_ok_def Let_def)
    ultimately show "row (ids ! (t * k + j)) (?r (t * k + j)) = contrib ! (?r (t * k + j))"
      using c ids by fastforce
  qed simp
  also have "\<dots> = foldl (\<lambda>acc j. acc + contrib ! (?r (t * k + j))) 0 [0..<k]"
    by (rule sum_foldl)
  also have "\<dots> = moe_reduce_sorted 0 (+) contrib (route_to_sorted P) n k ! t"
    using t by (simp add: moe_reduce_sorted_def)
  finally show "moe_dense (+) ?cnt E (token_sorted P) row (replicate n 0) ! t =
      moe_reduce_sorted 0 (+) contrib (route_to_sorted P) n k ! t" .
qed

section \<open>The router's answer\<close>

text \<open>What the routing kernel selects is what the layer expects of its routes: K experts per token,
  no expert twice, none out of range.\<close>

definition token_routes ::
  "'f::linordered_field \<Rightarrow> 'f \<Rightarrow> ('f \<Rightarrow> 'f) \<Rightarrow> ('f \<Rightarrow> 'f) \<Rightarrow> 'f \<Rightarrow> nat \<Rightarrow> nat \<Rightarrow> (nat \<Rightarrow> nat list) \<Rightarrow>
   'f list option \<Rightarrow> ('x \<Rightarrow> 'f list) \<Rightarrow> 'x \<Rightarrow> (nat \<times> 'f) list" where
  "token_routes neg tiny act rnd scaling E K scheds bias scores x =
     (case routing_ds3_nogroup neg tiny act rnd scaling E K scheds (scores x) bias of
        None \<Rightarrow> [] | Some r \<Rightarrow> map (\<lambda>(i, w). (nat i, w)) r)"

lemma token_routes_ok:
  fixes neg :: "'f::linordered_field"
  assumes K: "0 < K" "K \<le> 16" "K \<le> E" "E \<le> 512" and f: "all_fenced K ((E + 31) div 32 * K) scheds"
    and keys: "\<forall>t \<in> set x. \<forall>e < E. neg < c_key (start_cand neg act (scores t) bias E e)"
  shows "routes_ok (map (token_routes neg tiny act rnd scaling E K scheds bias scores) x) K E"
  unfolding routes_ok_def
proof
  fix r assume "r \<in> set (map (token_routes neg tiny act rnd scaling E K scheds bias scores) x)"
  then obtain t where t: "t \<in> set x" "r = token_routes neg tiny act rnd scaling E K scheds bias scores t" by auto
  obtain xs where sel: "router_select neg act (scores t) bias E K scheds = map (start_cand neg act (scores t) bias E) xs"
    and best: "best_experts (\<lambda>e. c_key (start_cand neg act (scores t) bias E e)) E K xs"
    using router_select_best [OF K(1-3) bspec [OF keys t(1)] f] by blast
  have lt: "\<forall>e \<in> set xs. e < E" "length xs = K" "distinct xs" using best by (auto simp: best_experts_def)
  have "map fst r = map (\<lambda>e. nat (c_idx (start_cand neg act (scores t) bias E e))) xs"
    using K by (simp add: t(2) token_routes_def routing_ds3_nogroup_def router_weights_def sel Let_def
        map2_map_map comp_def)
  also have "\<dots> = map (\<lambda>e. e) xs"
    by (rule map_cong) (use lt in \<open>simp_all add: start_cand_def Let_def\<close>)
  finally have r: "map fst r = xs" by simp
  then have "length r = K" using lt(2) by (metis length_map)
  moreover have "\<forall>p \<in> set r. fst p < E" using r lt(1) by (metis imageI list.set_map)
  ultimately show "length r = K \<and> distinct (map fst r) \<and> (\<forall>p \<in> set r. fst p < E)"
    using r lt(3) by simp
qed

section \<open>Properties\<close>

text \<open>C4: Whatever order the scatter threads claim their rows in and however the groups of the
  grouped kernel interleave, one sparse layer from an idle pool returns for every token the sum,
  in that token's routing order, of its experts' weighted outputs computed from those experts'
  own slabs, plus the shared expert; the call finishes, and the pool is idle again with all its
  slots.\<close>

theorem moe_layer_correct:
  assumes idle: "idle A (3 * plan_experts plan) m" and fit: "arena_fits A l" and E: "plan_experts plan \<le> 2 ^ 31"
    and cap: "card {e. \<exists>t \<in> set x. e \<in> fst ` set (router t)} \<le> n_slots m"
    and ok: "routes_ok (map router x) (plan_topk plan) (plan_experts plan)" and k: "0 < plan_topk plan"
    and fair: "plan_fair plan (length x)" and buf: "buffers_fit plan (length x) bufs cbuf"
  shows "\<exists>m'. moe_ffn A l plan zs expert zero add router shared x bufs cbuf m =
      Some (m', map (\<lambda>t. add (routed_sum zero add (\<lambda>e. expert (Some (arena_slab A l (int e))) t) (router t))
                             (shared t)) x) \<and>
    idle A 0 m' \<and> n_slots m' = n_slots m"
proof -
  let ?E = "plan_experts plan" and ?k = "plan_topk plan" and ?rs = "map router x"
  let ?ids = "flat_ids ?rs" and ?ws = "flat_weights ?rs"
  let ?cnt = "moe_count ?ids ?E"
  obtain ec P where perm: "moe_permute ?ids ?ws ?k ?E (scatter_sched plan) bufs = (ec, P)"
    by (rule prod.exhaust)
  have li: "length ?ids = length x * ?k" using length_flat_ids [OF ok] by simp
  have P: "permuted_ok ?ids ?ws ?k ?E P" and ec: "ec = ?cnt @ [0]"
    using permute_any_order [OF flat_ids_below [OF ok] _ _ perm] fair buf li
    by (simp_all add: plan_fair_def buffers_fit_def)
  have ecn: "ec ! e = ?cnt ! e" if "e < ?E" for e using that by (simp add: ec nth_append)
  have eo: "offs ec e = offs ?cnt e" if "e \<le> ?E" for e using that by (simp add: ec nth_offset_loop)
  have "{e. e < ?E \<and> 0 < int (ec ! e)} \<subseteq> {e. \<exists>t \<in> set x. e \<in> fst ` set (router t)}"
    using count_pos_iff [where routes = ?rs and E = ?E] by (auto simp: ecn)
  moreover have "finite {e. \<exists>t \<in> set x. e \<in> fst ` set (router t)}"
    by (rule finite_subset [of _ "\<Union>t \<in> set x. fst ` set (router t)"]) auto
  ultimately have "card {e. e < ?E \<and> 0 < int (ec ! e)} \<le> n_slots m"
    using cap card_mono by (meson order_trans)
  from moe_slots_serves_all [OF idle fit E this, of "rank_due plan"] obtain m1 bs where
    sl: "moe_slots A l ?E (\<lambda>e. int (ec ! e)) m = Some (m1, bs)" and lb: "length bs = ?E"
    and base: "\<forall>e < ?E. 0 < int (ec ! e) \<longrightarrow>
       (\<exists>i < n_slots m. bs ! e = InSlot i \<and> pool m1 i = Some (arena_slab A l (int e)))"
    and fin: "idle A 0 (end_step (rank_due plan) m1)" "n_slots (end_step (rank_due plan) m1) = n_slots m"
    by blast
  let ?slabs = "map (table_slab m1 zs) bs"
  let ?row = "moe_row expert ?slabs x P"
  let ?f = "\<lambda>e. expert (Some (arena_slab A l (int e)))"
  let ?act = "length (filter (\<lambda>c. 0 < c) (take ?E ec))"
  have slab: "?slabs ! e = Some (arena_slab A l (int e))" if "e < ?E" "0 < ?cnt ! e" for e
    using base that lb by (auto simp: ecn)
  have routed: "(if ?act > 0
      then (let K = moe_grouped ec ?E (max_tokens_per_expert plan) (concurrency plan) ?row (group_sched plan) ?act cbuf
            in moe_reduce_sorted zero add (contributions K) (route_to_sorted P) (length x) ?k)
      else replicate (length x) zero) = map (\<lambda>t. routed_sum zero add (\<lambda>e. ?f e t) (router t)) x"
  proof (cases "x = []")
    case True
    then show ?thesis by (simp add: Let_def moe_reduce_sorted_def)
  next
    case False
    have act: "0 < ?act" using active_pos [OF ok _ k] False by (simp add: ec)
    let ?G = "moe_num_groups (concurrency plan) ?act"
    have G: "0 < ?G" "?G \<le> 64" using active_groups_pos [OF act] buf by (simp_all add: buffers_fit_def)
    have total: "offs ec ?E = length x * ?k" using offs_flat_end [OF ok] by (simp add: eo)
    let ?K = "run_schedule (moe_group_step ec ?E (max_tokens_per_expert plan) ?row) (group_sched plan)
        (moe_launch ?G cbuf)"
    have rows: "\<forall>e < ?E. \<forall>p. offs ec e \<le> p \<and> p < offs ec (Suc e) \<longrightarrow> contributions ?K ! p = ?row e p"
    proof (rule grouped_any_schedule(1) [OF G(1)])
      show "?E \<le> length ec" by (simp add: ec)
      show "offs ec ?E \<le> length cbuf" using buf by (simp add: total buffers_fit_def)
      show "\<forall>e < ?E. ec ! e \<le> max_tokens_per_expert plan"
        using count_flat_le [OF ok] buf by (auto simp: ecn buffers_fit_def intro: order_trans)
      show "fair_for ?G (offs ec ?E + 3 * ?E + 1) (group_sched plan)"
        using fair G(2) unfolding plan_fair_def total by (auto intro: fair_for_mono)
    qed (rule refl)
    have "\<forall>e < ?E. \<forall>p. offs ?cnt e \<le> p \<and> p < offs ?cnt (Suc e) \<longrightarrow>
        contributions ?K ! p = ?f e (x ! (token_sorted P ! p)) (weight_sorted P ! p)"
    proof (intro allI impI)
      fix e p assume e: "e < ?E" and p: "offs ?cnt e \<le> p \<and> p < offs ?cnt (Suc e)"
      then have "0 < ?cnt ! e" by (simp add: offs_Suc)
      with rows e p show "contributions ?K ! p = ?f e (x ! (token_sorted P ! p)) (weight_sorted P ! p)"
        by (simp add: eo moe_row_def slab)
    qed
    from reduce_routed [OF ok P _ this, of zero add] act show ?thesis
      by (simp add: Let_def moe_grouped_def map2_map_map [where f = "\<lambda>t. t" and g = router, simplified])
  qed
  have "moe_ffn A l plan zs expert zero add router shared x bufs cbuf m =
      Some (end_step (rank_due plan) m1,
        map2 add (map (\<lambda>t. routed_sum zero add (\<lambda>e. ?f e t) (router t)) x) (map shared x))"
    unfolding moe_ffn_def Let_def perm prod.case sl option.case routed [unfolded Let_def] ..
  with fin show ?thesis by (simp add: map2_map_map)
qed

definition demo_plan :: MoePlan where
  "demo_plan = \<lparr>plan_experts = 4, plan_topk = 2, max_tokens_per_expert = 2, concurrency = 8,
     scatter_sched = round_robin 4 4, group_sched = round_robin 64 17,
     rank_due = False\<rparr>"

definition demo_bufs :: "int Permuted" where
  "demo_bufs = \<lparr>cursor = [], token_sorted = replicate 4 7, weight_sorted = replicate 4 0,
     route_to_sorted = replicate 4 9, thread_pc = []\<rparr>"

definition demo_router :: "int \<Rightarrow> (nat \<times> int) list" where
  "demo_router x = (if x = 0 then [(3, 5), (1, 2)] else [(1, x), (0, 1)])"

theorem moe_layer_correct_witness:
  "\<exists>m'. moe_ffn demo_arena 0 demo_plan 0 (\<lambda>b x w. w * (x + int (the b))) 0 (+) demo_router id [0, 9]
      demo_bufs (replicate 4 0) demo_pool = Some (m', [17, 108])"
proof -
  let ?x = "[0, 9::int]"
  let ?S = "{e. \<exists>t \<in> set ?x. e \<in> fst ` set (demo_router t)}"
  have e: "plan_experts demo_plan = 4" "plan_topk demo_plan = 2" by (simp_all add: demo_plan_def)
  have "?S \<subseteq> {..<4}" by (auto simp: demo_router_def)
  then have "card ?S \<le> card {..<4::nat}" by (intro card_mono) simp
  then have c: "card ?S \<le> n_slots demo_pool" unfolding demo_pool_slots by simp
  have x: "length ?x = 2" by simp
  have f: "plan_fair demo_plan (length ?x)" "buffers_fit demo_plan (length ?x) demo_bufs (replicate 4 (0::int))"
    unfolding x using fair_round_robin [of 4 4] fair_round_robin [of 64 17]
    by (simp_all add: plan_fair_def buffers_fit_def demo_plan_def demo_bufs_def big_enough_def)
  have r: "routes_ok (map demo_router ?x) (plan_topk demo_plan) (plan_experts demo_plan)"
    unfolding e by (simp add: routes_ok_def demo_router_def)
  have i: "idle demo_arena (3 * plan_experts demo_plan) demo_pool" "plan_experts demo_plan \<le> 2 ^ 31"
    "0 < plan_topk demo_plan"
    unfolding e using demo_pool_idle by simp_all
  obtain m' where "moe_ffn demo_arena 0 demo_plan 0 (\<lambda>b x w. w * (x + int (the b))) 0 (+) demo_router id ?x
      demo_bufs (replicate 4 0) demo_pool =
    Some (m', map (\<lambda>t. routed_sum 0 (+) (\<lambda>e x. x * (t + int (the (Some (arena_slab demo_arena 0 (int e))))))
      (demo_router t) + id t) ?x)"
    using moe_layer_correct [OF i(1) demo_fits i(2) c r i(3) f] by blast
  moreover have "map (\<lambda>t. routed_sum 0 (+) (\<lambda>e x. x * (t + int (the (Some (arena_slab demo_arena 0 (int e))))))
      (demo_router t) + id t) ?x = [17, 108]"
    by (simp add: routed_sum_def demo_router_def demo_arena_def)
  ultimately show ?thesis by auto
qed



text \<open>C12: The ticket scheduler of the grouped kernel: under every fair interleaving all groups
  retire, every row of every expert within the capacity holds its own expert's contribution, the
  counters are zero again for the next launch, and at no moment on the way do two groups write
  rows of the same expert.\<close>

theorem expert_scheduler_complete:
  assumes "0 < G" and "E \<le> length cs" and "offs cs E \<le> length buf" and "\<forall>e < E. cs ! e \<le> cap"
    and "fair_for G (offs cs E + 3 * E + 1) sched"
  shows "(let st = run_schedule (moe_group_step cs E cap row) sched (moe_launch G buf) in
      (\<forall>e < E. \<forall>p. offs cs e \<le> p \<and> p < offs cs (Suc e) \<longrightarrow> contributions st ! p = row e p) \<and>
      (\<forall>g < G. gpc (groups st ! g) = Retired) \<and> next_ticket st = 0 \<and> retired_groups st = 0) \<and>
    (\<forall>sched'. let st = run_schedule (moe_group_step cs E cap row) sched' (moe_launch G buf) in
      \<forall>g < G. \<forall>h < G. \<forall>p q. gpc (groups st ! g) = Writing p \<longrightarrow> gpc (groups st ! h) = Writing q \<longrightarrow>
        expert_idx (groups st ! g) = expert_idx (groups st ! h) \<longrightarrow> g = h)"
  using grouped_any_schedule [OF assms refl, of row] one_writer_per_expert [OF assms(1-3) refl]
  unfolding Let_def by blast

theorem expert_scheduler_complete_witness:
  "contributions (run_schedule (moe_group_step [2, 0, 1] 3 4 (\<lambda>e p. 10 * e + p)) (round_robin 2 13)
     (moe_launch 2 [0, 0, 0])) ! 2 = 22"
proof -
  have "\<forall>e < 3. [2, 0, 1] ! e \<le> (4::nat)" by (simp add: less_Suc_eq numeral_eq_Suc)
  from expert_scheduler_complete [OF _ _ _ this, of 2 "[0, 0, 0]" "round_robin 2 13" "\<lambda>e p. 10 * e + p"]
    fair_round_robin [of 2 13]
  show ?thesis by (simp add: Let_def numeral_eq_Suc less_Suc_eq)
qed

end
