(* ===== verification/Json.thy ===== *)
theory Json
  imports Complex_Main Helios_Prelude
begin

text \<open>
  JSON values as \<^verbatim>\<open>nlohmann::ordered_json\<close> presents them to the code: an object is an ordered
  list of members with distinct keys.  Parsing and serialising text is the library's work
  and stays a parameter of the functions that use it; what is defined here is the value type,
  the accessors the server code calls (\<^verbatim>\<open>contains\<close>, \<^verbatim>\<open>operator[]\<close>, \<^verbatim>\<open>is_string\<close>, \<dots>) and the
  code's own printer \<^verbatim>\<open>dump_pretty\<close> of \<^verbatim>\<open>src/core/chat.cpp\<close>.
\<close>

datatype json =
    JNull
  | JBool bool
  | JInt int
  | JFloat rat
  | JStr bytes
  | JArr "json list"
  | JObj "(bytes \<times> json) list"

fun members :: "json \<Rightarrow> (bytes \<times> json) list" where
  "members (JObj ms) = ms"
| "members _ = []"

fun is_object :: "json \<Rightarrow> bool" where
  "is_object (JObj _) = True"
| "is_object _ = False"

fun is_string :: "json \<Rightarrow> bool" where
  "is_string (JStr _) = True"
| "is_string _ = False"

fun is_number :: "json \<Rightarrow> bool" where
  "is_number (JInt _) = True"
| "is_number (JFloat _) = True"
| "is_number _ = False"

fun get_str :: "json \<Rightarrow> bytes" where
  "get_str (JStr s) = s"
| "get_str _ = []"

text \<open>\<^term>\<open>field k j\<close> is \<open>Some j[k]\<close> when \<open>j.contains(k)\<close>.\<close>

definition field :: "bytes \<Rightarrow> json \<Rightarrow> json option" where
  "field k j = map_of (members j) k"

text \<open>\<open>j.contains(k) && j[k].is_string()\<close> and its value.\<close>

definition str_field :: "bytes \<Rightarrow> json \<Rightarrow> bytes option" where
  "str_field k j = (case field k j of Some (JStr s) \<Rightarrow> Some s | _ \<Rightarrow> None)"

definition bool_field :: "bytes \<Rightarrow> json \<Rightarrow> bool option" where
  "bool_field k j = (case field k j of Some (JBool b) \<Rightarrow> Some b | _ \<Rightarrow> None)"

text \<open>\<open>obj[k] = v\<close>: replace the member in place, or append it.\<close>

fun set_member :: "bytes \<Rightarrow> json \<Rightarrow> (bytes \<times> json) list \<Rightarrow> (bytes \<times> json) list" where
  "set_member k v [] = [(k, v)]"
| "set_member k v ((k', v') # ms) = (if k' = k then (k, v) # ms else (k', v') # set_member k v ms)"

lemma map_of_set_member [simp]: "map_of (set_member k v ms) = (map_of ms)(k \<mapsto> v)"
  by (induction ms) (auto simp: fun_upd_def)

lemma keys_set_member: "map fst (set_member k v ms) =
  (if k \<in> fst ` set ms then map fst ms else map fst ms @ [k])"
  by (induction k v ms rule: set_member.induct) auto

lemma set_member_new: "k \<notin> fst ` set ms \<Longrightarrow> set_member k v ms = ms @ [(k, v)]"
  by (induction k v ms rule: set_member.induct) auto

lemma distinct_set_member: "distinct (map fst ms) \<Longrightarrow> distinct (map fst (set_member k v ms))"
  by (auto simp: keys_set_member)

text \<open>\<^verbatim>\<open>dump_pretty\<close>: members and elements separated by a comma and a space, a key and its value by
  a colon and a space; scalars and keys are printed by the library (\<open>dump\<close>).\<close>

fun join_commas :: "bytes list \<Rightarrow> bytes" where
  "join_commas [] = []"
| "join_commas [x] = x"
| "join_commas (x # y # zs) = x @ '', '' @ join_commas (y # zs)"

fun dump_pretty :: "(json \<Rightarrow> bytes) \<Rightarrow> json \<Rightarrow> bytes" where
  "dump_pretty dump (JObj ms) =
     ''{'' @ join_commas (map (\<lambda>(k, v). dump (JStr k) @ '': '' @ dump_pretty dump v) ms) @ ''}''"
| "dump_pretty dump (JArr js) = ''['' @ join_commas (map (dump_pretty dump) js) @ '']''"
| "dump_pretty dump j = dump j"

end
