(* ===== verification/Output_Parser.thy ===== *)
theory Output_Parser
  imports Main Helios_Prelude Json
begin

text \<open>
  The streaming parser of the model's output (\<^verbatim>\<open>OutputParser\<close> of \<^verbatim>\<open>src/core/chat.cpp\<close>): text
  arrives in pieces cut anywhere, and reasoning, visible content and tool calls come out as
  deltas.  The position \<^verbatim>\<open>pos\<close> of \<^verbatim>\<open>drain\<close> is modelled by the part of the buffer that is
  still to be read.  What makes the parser correct is a property of the tags, stated as the
  locale \<open>marker_set\<close>: no tag overlaps another one.
\<close>

section \<open>Data\<close>

record ToolCall =
  tc_id :: bytes
  tc_name :: bytes
  tc_arguments :: bytes

record ParsedOutput =
  po_reasoning :: bytes
  po_content :: bytes
  po_tool_calls :: "ToolCall list"

record Delta =
  d_reasoning :: bytes
  d_content :: bytes
  d_tool_begin :: bool
  d_tool_name :: bytes
  d_tool_call_id :: bytes
  d_tool_args_fragment :: bytes
  d_stop :: bool

definition Delta_new :: Delta where
  "Delta_new = \<lparr>d_reasoning = [], d_content = [], d_tool_begin = False, d_tool_name = [],
     d_tool_call_id = [], d_tool_args_fragment = [], d_stop = False\<rparr>"

record OutputParser =
  p_buf :: bytes
  p_in_think :: bool
  p_in_tool :: bool
  p_done :: bool
  p_tool_body :: bytes
  p_out :: ParsedOutput
  p_pending :: "Delta list"

definition OutputParser_new :: "bool \<Rightarrow> OutputParser" where
  "OutputParser_new start_in_think = \<lparr>p_buf = [], p_in_think = start_in_think, p_in_tool = False,
     p_done = False, p_tool_body = [],
     p_out = \<lparr>po_reasoning = [], po_content = [], po_tool_calls = []\<rparr>, p_pending = []\<rparr>"

text \<open>The JSON library: \<open>json::parse\<close> (which throws) and \<open>dump\<close>.\<close>

record JsonLib =
  js_parse :: "bytes \<Rightarrow> json option"
  js_dump :: "json \<Rightarrow> bytes"

section \<open>Tags\<close>

definition kThinkEnd :: bytes where "kThinkEnd = ''</think>''"
definition kToolBegin :: bytes where "kToolBegin = ''<tool_call>''"
definition kToolEnd :: bytes where "kToolEnd = ''</tool_call>''"
definition kObservation :: bytes where "kObservation = ''<|observation|>''"
definition kEos :: bytes where "kEos = ''<|endoftext|>''"
definition kEndS :: bytes where "kEndS = ''<|end|>''"
definition kUser :: bytes where "kUser = ''<|user|>''"
definition kAsst :: bytes where "kAsst = ''<|assistant|>''"
definition kSys :: bytes where "kSys = ''<|system|>''"

lemmas tag_defs = kThinkEnd_def kToolBegin_def kToolEnd_def kObservation_def kEos_def kEndS_def
  kUser_def kAsst_def kSys_def

definition hold_marks :: "bytes list" where
  "hold_marks = [kThinkEnd, kToolBegin, kToolEnd, kObservation, kEos, kEndS, kUser, kAsst, kSys]"

definition text_marks :: "bytes list" where
  "text_marks = [kThinkEnd, kToolBegin, kObservation, kEos, kEndS, kUser, kAsst, kSys]"

text \<open>The longest suffix that is a proper prefix of a tag.\<close>

definition holdback_with :: "bytes list \<Rightarrow> bytes \<Rightarrow> nat" where
  "holdback_with marks s =
     fold (\<lambda>m best. fold (\<lambda>len b. if drop (length s - len) s = take len m then max b len else b)
            [1..<min (length m) (Suc (length s))] best) marks 0"

definition holdback_len :: "bytes \<Rightarrow> nat" where
  "holdback_len s = holdback_with hold_marks s"

text \<open>The earliest tag that begins before \<open>limit\<close>.\<close>

definition mark_step :: "nat \<Rightarrow> bytes \<Rightarrow> bytes \<Rightarrow> (nat \<times> bytes) option \<Rightarrow> (nat \<times> bytes) option" where
  "mark_step limit s m best =
     (case find_str m s of
        None \<Rightarrow> best
      | Some f \<Rightarrow> if f < limit \<and> (case best of None \<Rightarrow> True | Some (b, _) \<Rightarrow> f < b)
                  then Some (f, m) else best)"

definition find_mark :: "bytes list \<Rightarrow> nat \<Rightarrow> bytes \<Rightarrow> (nat \<times> bytes) option" where
  "find_mark marks limit s = fold (mark_step limit s) marks None"

section \<open>Tool calls\<close>

definition is_ws :: "char \<Rightarrow> bool" where
  "is_ws c \<longleftrightarrow> c = CHR '' '' \<or> c = CHR 0x09 \<or> c = CHR 0x0D \<or> c = CHR 0x0A"

definition strip_ws :: "bytes \<Rightarrow> bytes" where
  "strip_ws s = rev (dropWhile is_ws (rev (dropWhile is_ws s)))"

definition substr :: "nat \<Rightarrow> nat \<Rightarrow> 'a list \<Rightarrow> 'a list" where
  "substr i n s = take n (drop i s)"

lemma find_from_ge: "find_from pat s pos = Some i \<Longrightarrow> pos \<le> i \<and> i + length pat \<le> length s"
  by (auto simp: find_from_def split: if_splits dest: find_str_bound)

function args_loop :: "JsonLib \<Rightarrow> bytes \<Rightarrow> nat \<Rightarrow> (bytes \<times> json) list \<Rightarrow> (bytes \<times> json) list" where
  "args_loop J body pos args =
     (case find_from ''<arg_key>'' body pos of
        None \<Rightarrow> args
      | Some ak \<Rightarrow>
     (case find_from ''</arg_key>'' body ak of
        None \<Rightarrow> args
      | Some ak_end \<Rightarrow>
     (case find_from ''<arg_value>'' body ak_end of
        None \<Rightarrow> args
      | Some av \<Rightarrow>
     (case find_from ''</arg_value>'' body av of
        None \<Rightarrow> args
      | Some av_end \<Rightarrow>
          (let key = substr (ak + 9) (ak_end - ak - 9) body;
               val = substr (av + 11) (av_end - av - 11) body;
               v = (case js_parse J val of Some v \<Rightarrow> v | None \<Rightarrow> JStr val)
           in args_loop J body (av_end + 12) (set_member key v args))))))"
  by pat_completeness auto
termination
  by (relation "measure (\<lambda>(J, body, pos, args). length body + 12 - pos)")
    (auto dest!: find_from_ge)

declare args_loop.simps [simp del]

definition args_to_json :: "JsonLib \<Rightarrow> bytes \<Rightarrow> bytes" where
  "args_to_json J body = js_dump J (JObj (args_loop J body 0 []))"

definition tool_name_of :: "bytes \<Rightarrow> bytes" where
  "tool_name_of body =
     strip_ws (take (case find_str ''<arg_key>'' body of None \<Rightarrow> length body | Some p \<Rightarrow> p) body)"

definition tool_id_for :: "nat \<Rightarrow> bytes" where
  "tool_id_for n = ''call_'' @ dec_string n"

text \<open>The block that both the end tag and \<^verbatim>\<open>finish\<close> run: record the call and emit its delta.\<close>

definition emit_tool :: "JsonLib \<Rightarrow> OutputParser \<Rightarrow> OutputParser" where
  "emit_tool J p =
     (let name = tool_name_of (p_tool_body p);
          frag = args_to_json J (p_tool_body p);
          cid = tool_id_for (length (po_tool_calls (p_out p)));
          tc = \<lparr>tc_id = cid, tc_name = name, tc_arguments = frag\<rparr>;
          d = Delta_new\<lparr>d_tool_begin := True, d_tool_name := name, d_tool_args_fragment := frag,
                d_tool_call_id := cid\<rparr>
      in p\<lparr>p_out := (p_out p)\<lparr>po_tool_calls := po_tool_calls (p_out p) @ [tc]\<rparr>,
           p_pending := p_pending p @ [d], p_tool_body := [], p_in_tool := False\<rparr>)"

definition emit_text :: "bytes \<Rightarrow> OutputParser \<Rightarrow> OutputParser" where
  "emit_text text p =
     (if text = [] then p
      else if p_in_think p
      then p\<lparr>p_out := (p_out p)\<lparr>po_reasoning := po_reasoning (p_out p) @ text\<rparr>,
             p_pending := p_pending p @ [Delta_new\<lparr>d_reasoning := text\<rparr>]\<rparr>
      else p\<lparr>p_out := (p_out p)\<lparr>po_content := po_content (p_out p) @ text\<rparr>,
             p_pending := p_pending p @ [Delta_new\<lparr>d_content := text\<rparr>]\<rparr>)"

definition emit_stop :: "OutputParser \<Rightarrow> OutputParser" where
  "emit_stop p = p\<lparr>p_pending := p_pending p @ [Delta_new\<lparr>d_stop := True\<rparr>], p_done := True,
     p_buf := []\<rparr>"

section \<open>The loop\<close>

lemma find_mark_mem:
  assumes "find_mark marks limit s = Some (f, m)"
  shows "m \<in> set marks" and "find_str m s = Some f" and "f < limit"
proof -
  have "fold (mark_step limit s) ms b = Some (f, m) \<Longrightarrow>
      b = Some (f, m) \<or> (m \<in> set ms \<and> find_str m s = Some f \<and> f < limit)" for ms b
    by (induction ms arbitrary: b) (auto simp: mark_step_def split: option.splits if_splits prod.splits)
  from this [of marks None] assms
  show "m \<in> set marks" "find_str m s = Some f" "f < limit" by (auto simp: find_mark_def)
qed

lemma text_marks_nonempty: "m \<in> set text_marks \<Longrightarrow> m \<noteq> []"
  by (auto simp: text_marks_def tag_defs)

lemma emit_buf [simp]: "p_buf (emit_text t p) = p_buf p" "p_buf (emit_tool J p) = p_buf p"
  by (simp_all add: emit_text_def emit_tool_def Let_def)

function drain :: "JsonLib \<Rightarrow> bool \<Rightarrow> OutputParser \<Rightarrow> OutputParser" where
  "drain J flush p =
     (if p_buf p = [] then p
      else (let s = p_buf p;
                limit = length s - (if flush then 0 else holdback_len s) in
        if p_in_tool p then
          (case find_str kToolEnd s of
             None \<Rightarrow> p\<lparr>p_tool_body := p_tool_body p @ take limit s, p_buf := drop limit s\<rparr>
           | Some e \<Rightarrow> drain J flush (emit_tool J
               (p\<lparr>p_tool_body := p_tool_body p @ take e s, p_buf := drop (e + length kToolEnd) s\<rparr>)))
        else
          (case find_mark text_marks limit s of
             None \<Rightarrow> emit_text (take limit s) (p\<lparr>p_buf := drop limit s\<rparr>)
           | Some (f, m) \<Rightarrow>
               (let p1 = emit_text (take f s) (p\<lparr>p_buf := drop (f + length m) s\<rparr>) in
                if m = kThinkEnd then drain J flush (p1\<lparr>p_in_think := False\<rparr>)
                else if m = kToolBegin then drain J flush (p1\<lparr>p_in_tool := True, p_tool_body := []\<rparr>)
                else emit_stop p1))))"
  by pat_completeness auto
termination
  by (relation "measure (\<lambda>(J, flush, p). length (p_buf p))")
    (auto simp: tag_defs dest!: find_mark_mem(1) text_marks_nonempty)

declare drain.simps [simp del]

definition feed :: "JsonLib \<Rightarrow> OutputParser \<Rightarrow> bytes \<Rightarrow> OutputParser \<times> Delta list" where
  "feed J p piece =
     (let p0 = p\<lparr>p_pending := []\<rparr> in
      if p_done p0 then (p0, p_pending p0)
      else (let p1 = drain J False (p0\<lparr>p_buf := p_buf p0 @ piece\<rparr>) in (p1, p_pending p1)))"

definition finish :: "JsonLib \<Rightarrow> OutputParser \<Rightarrow> OutputParser \<times> Delta list" where
  "finish J p =
     (let p1 = drain J True (p\<lparr>p_pending := []\<rparr>);
          p2 = (if p_in_tool p1 \<and> p_tool_body p1 \<noteq> [] then emit_tool J p1 else p1)
      in (p2, p_pending p2))"

definition parse_output :: "JsonLib \<Rightarrow> bytes \<Rightarrow> bool \<Rightarrow> ParsedOutput" where
  "parse_output J text start_in_think =
     p_out (fst (finish J (fst (feed J (OutputParser_new start_in_think) text))))"

section \<open>Tags that do not overlap\<close>

lemma fold_max_spec:
  fixes P :: "nat \<Rightarrow> bool"
  shows "(let h = fold (\<lambda>len b. if P len then max b len else b) ls b0 in
    b0 \<le> h \<and> (h = b0 \<or> h \<in> set ls \<and> P h) \<and> (\<forall>l \<in> set ls. P l \<longrightarrow> l \<le> h))"
proof (induction ls arbitrary: b0)
  case (Cons l ls)
  show ?case using Cons [of "if P l then max b0 l else b0"]
    by (auto simp: Let_def max_def split: if_splits)
qed simp

definition is_hold :: "bytes list \<Rightarrow> bytes \<Rightarrow> nat \<Rightarrow> bool" where
  "is_hold marks s len \<longleftrightarrow> 1 \<le> len \<and> len \<le> length s \<and>
     (\<exists>m \<in> set marks. len < length m \<and> drop (length s - len) s = take len m)"

lemma holdback_spec:
  shows holdback_le: "holdback_with marks s \<le> length s"
    and holdback_is: "holdback_with marks s = 0 \<or> is_hold marks s (holdback_with marks s)"
    and holdback_max: "is_hold marks s len \<Longrightarrow> len \<le> holdback_with marks s"
proof -
  let ?f = "\<lambda>m best. fold (\<lambda>len b. if drop (length s - len) s = take len m then max b len else b)
            [1..<min (length m) (Suc (length s))] best"
  have g: "b \<le> fold ?f ms b \<and>
      (fold ?f ms b = b \<or> (\<exists>m \<in> set ms. 1 \<le> fold ?f ms b \<and> fold ?f ms b < length m \<and>
         fold ?f ms b \<le> length s \<and> drop (length s - fold ?f ms b) s = take (fold ?f ms b) m)) \<and>
      (\<forall>m \<in> set ms. \<forall>len. 1 \<le> len \<and> len < length m \<and> len \<le> length s \<and>
         drop (length s - len) s = take len m \<longrightarrow> len \<le> fold ?f ms b)" for ms b
  proof (induction ms arbitrary: b)
    case (Cons m ms)
    have st: "b \<le> ?f m b \<and> (?f m b = b \<or> 1 \<le> ?f m b \<and> ?f m b < length m \<and> ?f m b \<le> length s \<and>
        drop (length s - ?f m b) s = take (?f m b) m) \<and>
        (\<forall>len. 1 \<le> len \<and> len < length m \<and> len \<le> length s \<and>
           drop (length s - len) s = take len m \<longrightarrow> len \<le> ?f m b)"
      using fold_max_spec [of "\<lambda>len. drop (length s - len) s = take len m"
          "[1..<min (length m) (Suc (length s))]" b]
      by (auto simp: Let_def)
    have f: "fold ?f (m # ms) b = fold ?f ms (?f m b)" by simp
    define x where "x = ?f m b"
    note ih = Cons.IH [of x] and st' = st [folded x_def]
    show ?case
      unfolding f x_def [symmetric]
    proof (intro conjI)
      show "b \<le> fold ?f ms x" using ih st' le_trans by blast
      show "fold ?f ms x = b \<or> (\<exists>m \<in> set (m # ms). 1 \<le> fold ?f ms x \<and> fold ?f ms x < length m \<and>
         fold ?f ms x \<le> length s \<and> drop (length s - fold ?f ms x) s = take (fold ?f ms x) m)"
      proof (cases "fold ?f ms x = x")
        case True
        with st' show ?thesis unfolding True by auto
      next
        case False
        with ih show ?thesis by auto
      qed
      show "\<forall>m \<in> set (m # ms). \<forall>len. 1 \<le> len \<and> len < length m \<and> len \<le> length s \<and>
         drop (length s - len) s = take len m \<longrightarrow> len \<le> fold ?f ms x"
      proof (intro ballI allI impI)
        fix m' len
        assume m': "m' \<in> set (m # ms)" and l: "1 \<le> len \<and> len < length m' \<and> len \<le> length s \<and>
         drop (length s - len) s = take len m'"
        show "len \<le> fold ?f ms x"
        proof (cases "m' = m")
          case True
          with l st' have "len \<le> x" by blast
          with ih show ?thesis using le_trans by blast
        next
          case False
          with m' l ih show ?thesis by auto
        qed
      qed
    qed
  qed simp
  note h = g [where ms = marks and b = 0, folded holdback_with_def]
  show "holdback_with marks s \<le> length s" using h by auto
  show "holdback_with marks s = 0 \<or> is_hold marks s (holdback_with marks s)"
    using h unfolding is_hold_def by blast
  show "is_hold marks s len \<Longrightarrow> len \<le> holdback_with marks s"
    using h unfolding is_hold_def by blast
qed

locale marker_set =
  fixes marks :: "bytes list"
  assumes nonempty: "m \<in> set marks \<Longrightarrow> m \<noteq> []"
    and no_overlap: "m \<in> set marks \<Longrightarrow> m' \<in> set marks \<Longrightarrow> i < length m \<Longrightarrow>
      prefix (drop i m) m' \<or> prefix m' (drop i m) \<Longrightarrow> i = 0 \<and> m = m'"
begin

abbreviation hb :: "bytes \<Rightarrow> nat" where
  "hb s \<equiv> holdback_with marks s"

text \<open>A complete tag never begins in the part that is held back.\<close>

lemma occurrence_before_limit:
  assumes m: "m \<in> set marks" and oc: "occurs_at m s f"
  shows "f < length s - hb s"
proof (rule ccontr)
  assume "\<not> f < length s - hb s"
  then have ge: "length s - hb s \<le> f" by simp
  from oc have fl: "f + length m \<le> length s" and t: "take (length m) (drop f s) = m"
    by (simp_all add: occurs_at_def)
  from nonempty [OF m] fl ge have pos: "hb s \<noteq> 0" by (cases m) auto
  with holdback_is [of marks s] obtain m' where m': "m' \<in> set marks" "hb s < length m'"
    "drop (length s - hb s) s = take (hb s) m'" unfolding is_hold_def by blast
  define i where "i = f - (length s - hb s)"
  have f: "f = i + (length s - hb s)" using ge by (simp add: i_def)
  have il: "i + length m \<le> hb s" using fl holdback_le [of marks s] f by simp
  have "drop f s = drop i (take (hb s) m')"
    unfolding m'(3) [symmetric] f by (simp add: add.commute)
  with t have "m = take (length m) (drop i (take (hb s) m'))" by simp
  also have "\<dots> = take (length m) (drop i m')"
    using il m'(2) by (simp add: drop_take take_take min_def)
  finally have "prefix m (drop i m')" by (metis take_is_prefix)
  moreover have "i < length m'" using il m'(2) by simp
  ultimately have "i = 0 \<and> m' = m" using no_overlap [OF m'(1) m] by blast
  with il m'(2) show False by simp
qed

text \<open>An occurrence that appears only with more input begins in the part that is held back.\<close>

lemma straddling_is_held:
  assumes m: "m \<in> set marks" and oc: "occurs_at m (s @ t) f" and n: "\<not> occurs_at m s f"
  shows "length s - hb s \<le> f"
proof (rule ccontr)
  assume "\<not> length s - hb s \<le> f"
  then have f: "f < length s - hb s" by simp
  from oc have fl: "f + length m \<le> length s + length t" and t: "take (length m) (drop f (s @ t)) = m"
    by (simp_all add: occurs_at_def)
  have out: "length s < f + length m"
  proof (rule ccontr)
    assume "\<not> length s < f + length m"
    then have "occurs_at m s f" using occurs_at_append_inside [OF oc] by simp
    with n show False by simp
  qed
  let ?l = "length s - f"
  have "take ?l m = take ?l (take (length m) (drop f (s @ t)))" using t by simp
  also have "\<dots> = drop f s" using out f by (simp add: min_def)
  finally have "is_hold marks s ?l"
    unfolding is_hold_def using f out m by (intro conjI bexI [of _ m]) auto
  from holdback_max [OF this] f show False by simp
qed

lemma holdback_append:
  "hb (s @ t) = hb (drop (length s - hb s) s @ t)"
proof -
  let ?L = "length s - hb s" and ?u = "drop (length s - hb s) s @ t"
  have sp: "s @ t = take ?L s @ ?u" by simp
  have eq: "is_hold marks (s @ t) len \<longleftrightarrow> is_hold marks ?u len" for len
  proof (cases "len \<le> length ?u")
    case True
    have "drop (length (s @ t) - len) (s @ t) = drop (length ?u - len) ?u"
    proof -
      have "drop (length (s @ t) - len) (take ?L s @ ?u) =
          drop (length (s @ t) - len - length (take ?L s)) ?u"
        using True by simp
      moreover have "length (s @ t) - len - length (take ?L s) = length ?u - len"
        using True by simp
      ultimately show ?thesis using sp by metis
    qed
    with True show ?thesis unfolding is_hold_def by auto
  next
    case False
    have "\<not> is_hold marks (s @ t) len"
    proof
      assume "is_hold marks (s @ t) len"
      then obtain m where m: "m \<in> set marks" "len < length m" "len \<le> length (s @ t)"
        "drop (length (s @ t) - len) (s @ t) = take len m" unfolding is_hold_def by blast
      let ?i = "length (s @ t) - len"
      have i: "?i < ?L" using False m(3) holdback_le [of marks s] by simp
      let ?l = "length s - ?i"
      have "take ?l m = take ?l (take len m)" using i by (simp add: min_def)
      also have "\<dots> = take ?l (drop ?i s @ drop (?i - length s) t)" using m(4) by simp
      also have "\<dots> = drop ?i s" using i by simp
      finally have "is_hold marks s ?l"
        unfolding is_hold_def using i m(1,2,3) False by (intro conjI bexI [of _ m]) auto
      from holdback_max [OF this] i show False by simp
    qed
    moreover have "\<not> is_hold marks ?u len" using False unfolding is_hold_def by simp
    ultimately show ?thesis by simp
  qed
  show ?thesis
  proof (rule antisym)
    show "hb (s @ t) \<le> hb ?u"
      using holdback_is [of marks "s @ t"] eq holdback_max [of marks ?u] by fastforce
    show "hb ?u \<le> hb (s @ t)"
      using holdback_is [of marks ?u] eq holdback_max [of marks "s @ t"] by fastforce
  qed
qed

lemma find_str_shift:
  assumes m: "m \<in> set marks" and n: "find_str m s = None"
  shows "find_str m (s @ t) =
    map_option ((+) (length s - hb s)) (find_str m (drop (length s - hb s) s @ t))"
proof -
  let ?L = "length s - hb s" and ?u = "drop (length s - hb s) s @ t"
  have sp: "?u = drop ?L (s @ t)" and L: "?L \<le> length (s @ t)" by simp_all
  have no: "\<not> occurs_at m s j" for j using n by (simp add: find_str_None_iff)
  have sh: "occurs_at m ?u j \<longleftrightarrow> occurs_at m (s @ t) (?L + j)" for j
    unfolding sp by (rule occurs_at_drop [OF L])
  have ge: "?L \<le> j" if "occurs_at m (s @ t) j" for j
    by (rule straddling_is_held [OF m that no])
  show ?thesis
  proof (cases "find_str m ?u")
    case None
    then have "\<not> occurs_at m (s @ t) j" for j
      using sh ge [of j] by (metis find_str_None_iff le_add_diff_inverse)
    then have "find_str m (s @ t) = None" by (simp add: find_str_None_iff)
    with None show ?thesis by simp
  next
    case (Some f)
    then have "occurs_at m (s @ t) (?L + f)" "\<forall>j < f. \<not> occurs_at m (s @ t) (?L + j)"
      using sh by (auto simp: find_str_Some_iff)
    moreover have "\<not> occurs_at m (s @ t) j" if "j < ?L + f" for j
      using calculation(2) ge [of j] that by (metis add_less_cancel_left le_add_diff_inverse)
    ultimately have "find_str m (s @ t) = Some (?L + f)" by (simp add: find_str_Some_iff)
    with Some show ?thesis by simp
  qed
qed

lemma find_before_limit:
  assumes "m \<in> set marks" and "find_str m s = Some f"
  shows "f < length s - hb s"
  using occurrence_before_limit [OF assms(1)] assms(2) by (simp add: find_str_Some_iff)

text \<open>Two tags never begin at the same place.\<close>

lemma same_place:
  assumes m: "m \<in> set marks" "m' \<in> set marks" and oc: "occurs_at m s f" "occurs_at m' s f'"
    and le: "f \<le> f'" "f' < f + length m"
  shows "f = f' \<and> m = m'"
proof -
  let ?i = "f' - f"
  have a: "m = take (length m) (drop f s)" "m' = take (length m') (drop f' s)"
    using oc by (simp_all add: occurs_at_def)
  have d: "drop ?i m = take (length m - ?i) (drop f' s)"
    using le by (subst a(1)) (simp add: drop_take)
  then have "drop ?i m = take (length m - ?i) (drop f' s)" .
  with a(2) have "prefix (drop ?i m) m' \<or> prefix m' (drop ?i m)"
    by (metis nle_le prefix_def take_add le_add_diff_inverse)
  moreover have "?i < length m" using le by simp
  ultimately have "?i = 0 \<and> m = m'" using no_overlap [OF m] by blast
  with le show ?thesis by simp
qed

definition earliest :: "bytes list \<Rightarrow> bytes \<Rightarrow> nat \<times> bytes \<Rightarrow> bool" where
  "earliest M s fm \<longleftrightarrow> snd fm \<in> set M \<and> find_str (snd fm) s = Some (fst fm) \<and>
     (\<forall>m' \<in> set M. \<forall>f'. find_str m' s = Some f' \<longrightarrow> fst fm \<le> f')"

lemma find_mark_cases:
  assumes M: "set M \<subseteq> set marks" and lmt: "length s - hb s \<le> lmt"
  shows "(case find_mark M lmt s of
      None \<Rightarrow> \<forall>m \<in> set M. find_str m s = None
    | Some fm \<Rightarrow> earliest M s fm)"
proof -
  let ?g = "mark_step lmt s"
  have g: "set ms \<subseteq> set marks \<Longrightarrow> (case fold ?g ms b of
      None \<Rightarrow> b = None \<and> (\<forall>m \<in> set ms. find_str m s = None)
    | Some (f, m) \<Rightarrow> (b = Some (f, m) \<or> m \<in> set ms \<and> find_str m s = Some f) \<and>
        (\<forall>b0 x. b = Some (b0, x) \<longrightarrow> f \<le> b0) \<and>
        (\<forall>m' \<in> set ms. \<forall>f'. find_str m' s = Some f' \<longrightarrow> f \<le> f'))" for ms b
  proof (induction ms arbitrary: b)
    case Nil
    show ?case by (cases b) auto
  next
    case (Cons a ms)
    have al: "f < lmt" if "find_str a s = Some f" for f
      using find_before_limit [of a s f] that Cons.prems lmt by simp
    define x where "x = ?g a b"
    have fx: "fold ?g (a # ms) b = fold ?g ms x" by (simp add: x_def)
    from Cons.IH [of x] Cons.prems
    have ih: "case fold ?g ms x of
        None \<Rightarrow> x = None \<and> (\<forall>m \<in> set ms. find_str m s = None)
      | Some (f, m) \<Rightarrow> (x = Some (f, m) \<or> m \<in> set ms \<and> find_str m s = Some f) \<and>
        (\<forall>b0 y. x = Some (b0, y) \<longrightarrow> f \<le> b0) \<and>
        (\<forall>m' \<in> set ms. \<forall>f'. find_str m' s = Some f' \<longrightarrow> f \<le> f')" by simp
    have step: "(x = None \<longrightarrow> b = None \<and> find_str a s = None) \<and>
      (\<forall>f m. x = Some (f, m) \<longrightarrow> (b = Some (f, m) \<or> m = a \<and> find_str a s = Some f) \<and>
         (\<forall>b0 y. b = Some (b0, y) \<longrightarrow> f \<le> b0) \<and>
         (\<forall>f'. find_str a s = Some f' \<longrightarrow> f \<le> f'))"
      using al by (auto simp: x_def mark_step_def split: option.splits if_splits)
    show ?case
    proof (cases "fold ?g ms x")
      case None
      with ih step show ?thesis unfolding fx by simp
    next
      case (Some fm)
      obtain f m where fm: "fm = (f, m)" by fastforce
      from ih have ih': "x = Some (f, m) \<or> m \<in> set ms \<and> find_str m s = Some f"
        "\<And>b0 y. x = Some (b0, y) \<Longrightarrow> f \<le> b0"
        "\<And>m' f'. m' \<in> set ms \<Longrightarrow> find_str m' s = Some f' \<Longrightarrow> f \<le> f'"
        unfolding Some fm option.case prod.case by blast+
      have le: "f \<le> b0" if "b = Some (b0, y)" for b0 y
      proof (cases x)
        case None with step that show ?thesis by simp
      next
        case (Some xx)
        with ih'(2) step that show ?thesis by (cases xx) (auto intro: le_trans)
      qed
      have la: "f \<le> f'" if "find_str a s = Some f'" for f'
      proof (cases x)
        case None with step that show ?thesis by simp
      next
        case (Some xx)
        with ih'(2) step that show ?thesis by (cases xx) (auto intro: le_trans)
      qed
      from ih'(1) step have "b = Some (f, m) \<or> m \<in> set (a # ms) \<and> find_str m s = Some f" by auto
      with le la ih'(3) show ?thesis unfolding fx by (auto simp: Some fm)
    qed
  qed
  from g [OF M, where b = None] show ?thesis
    by (auto simp: find_mark_def earliest_def split: option.splits)
qed

lemma earliest_append:
  assumes M: "set M \<subseteq> set marks" and e: "earliest M s (f, m)"
  shows "earliest M (s @ t) (f, m)"
  unfolding earliest_def fst_conv snd_conv
proof (intro conjI ballI allI impI)
  from e have m: "m \<in> set M" "find_str m s = Some f"
    and l: "\<And>m' f'. m' \<in> set M \<Longrightarrow> find_str m' s = Some f' \<Longrightarrow> f \<le> f'"
    by (auto simp: earliest_def)
  have mm: "m \<in> set marks" using m M by auto
  show "m \<in> set M" by (rule m(1))
  show "find_str m (s @ t) = Some f" by (rule find_str_append [OF m(2) nonempty [OF mm]])
  fix m' f' assume m': "m' \<in> set M" and f': "find_str m' (s @ t) = Some f'"
  show "f \<le> f'"
  proof (rule ccontr)
    assume "\<not> f \<le> f'"
    then have lt: "f' < f" by simp
    from f' have oc: "occurs_at m' (s @ t) f'" by (simp add: find_str_Some_iff)
    have n: "\<not> occurs_at m' s f'"
    proof
      assume "occurs_at m' s f'"
      then obtain f2 where "find_str m' s = Some f2" "f2 \<le> f'"
        by (metis find_str_None_iff find_str_Some_iff not_le_imp_less option.exhaust)
      with l [OF m'] lt show False by fastforce
    qed
    from oc n have "length s < f' + length m'"
      using occurs_at_append_inside [OF oc] by (metis not_le_imp_less)
    moreover have "f + length m \<le> length s" using find_str_bound [OF m(2)] .
    moreover have "occurs_at m (s @ t) f"
      using m(2) by (simp add: find_str_Some_iff occurs_at_append_left)
    ultimately have "f' = f \<and> m' = m"
      using same_place [of m' m "s @ t" f' f] m' M mm oc lt by auto
    with lt show False by simp
  qed
qed

lemma earliest_unique:
  assumes "set M \<subseteq> set marks" and "earliest M s (f, m)" and "earliest M s (f', m')"
  shows "f = f' \<and> m = m'"
proof -
  from assms have oc: "occurs_at m s f" "occurs_at m' s f'" "m \<in> set marks" "m' \<in> set marks"
    and "f = f'"
    by (auto simp: earliest_def find_str_Some_iff intro: antisym)
  with same_place [OF oc(3,4,1,2)] nonempty show ?thesis by simp
qed

lemma find_mark_append:
  assumes M: "set M \<subseteq> set marks" and f: "find_mark M (length s - hb s) s = Some (f, m)"
  shows "find_mark M (length (s @ t) - hb (s @ t)) (s @ t) = Some (f, m)"
proof -
  from find_mark_cases [OF M, of s "length s - hb s"] f have "earliest M s (f, m)" by simp
  from earliest_append [OF M this] have e: "earliest M (s @ t) (f, m)" .
  show ?thesis
  proof (cases "find_mark M (length (s @ t) - hb (s @ t)) (s @ t)")
    case None
    with find_mark_cases [OF M, of "s @ t" "length (s @ t) - hb (s @ t)"] e show ?thesis
      by (auto simp: earliest_def)
  next
    case (Some x)
    with find_mark_cases [OF M, of "s @ t" "length (s @ t) - hb (s @ t)"]
    have "earliest M (s @ t) x" by simp
    with earliest_unique [OF M e] Some show ?thesis by (cases x) auto
  qed
qed

lemma find_mark_shift:
  assumes M: "set M \<subseteq> set marks" and n: "find_mark M (length s - hb s) s = None"
  shows "find_mark M (length (s @ t) - hb (s @ t)) (s @ t) =
    map_option (\<lambda>(f, m). (length s - hb s + f, m))
      (find_mark M (length (drop (length s - hb s) s @ t) - hb (drop (length s - hb s) s @ t))
         (drop (length s - hb s) s @ t))"
proof -
  let ?L = "length s - hb s" and ?u = "drop (length s - hb s) s @ t"
  from find_mark_cases [OF M, of s ?L] n have nn: "\<forall>m \<in> set M. find_str m s = None" by simp
  have h: "hb (s @ t) = hb ?u" by (rule holdback_append)
  have lmt: "length (s @ t) - hb (s @ t) = ?L + (length ?u - hb ?u)"
    using h holdback_le [of marks ?u] by simp
  have "set ms \<subseteq> set M \<Longrightarrow>
    fold (mark_step (?L + l) (s @ t)) ms (map_option (\<lambda>(f, m). (?L + f, m)) b) =
    map_option (\<lambda>(f, m). (?L + f, m)) (fold (mark_step l ?u) ms b)" for ms b l
  proof (induction ms arbitrary: b)
    case (Cons a ms)
    from Cons.prems M nn have "a \<in> set marks" "find_str a s = None" by auto
    from find_str_shift [OF this] have sh: "find_str a (s @ t) = map_option ((+) ?L) (find_str a ?u)" .
    have "mark_step (?L + l) (s @ t) a (map_option (\<lambda>(f, m). (?L + f, m)) b) =
        map_option (\<lambda>(f, m). (?L + f, m)) (mark_step l ?u a b)"
      unfolding mark_step_def sh by (cases "find_str a ?u"; cases b) auto
    with Cons show ?case by simp
  qed simp
  from this [where ms = M and b = None and l = "length ?u - hb ?u"] show ?thesis
    unfolding find_mark_def lmt by simp
qed

end

section \<open>The tags of the checkpoint\<close>

lemma hold_marks_shape: "m \<in> set hold_marks \<Longrightarrow> hd m = CHR ''<'' \<and> CHR ''<'' \<notin> set (tl m) \<and> m \<noteq> []"
  unfolding hold_marks_def tag_defs by auto

lemma hold_marks_prefix_free:
  "\<forall>m \<in> set hold_marks. \<forall>m' \<in> set hold_marks. prefix m m' \<longrightarrow> m = m'"
  unfolding hold_marks_def tag_defs by simp

interpretation tags: marker_set hold_marks
proof
  show "m \<noteq> []" if "m \<in> set hold_marks" for m using hold_marks_shape [OF that] by simp
  fix m m' i
  assume m: "m \<in> set hold_marks" "m' \<in> set hold_marks" and i: "i < length m"
    and p: "prefix (drop i m) m' \<or> prefix m' (drop i m)"
  note s = hold_marks_shape [OF m(1)] and s' = hold_marks_shape [OF m(2)]
  have ne: "drop i m \<noteq> []" using i by simp
  with p s' have "hd (drop i m) = hd m'" by (auto simp: prefix_def)
  with s' have h: "hd (drop i m) = CHR ''<''" by simp
  have "i = 0"
  proof (rule ccontr)
    assume "i \<noteq> 0"
    then have "drop i m = drop (i - 1) (tl m)" by (metis drop_Suc Suc_pred' gr0I)
    then have "hd (drop i m) \<in> set (tl m)" using ne by (metis hd_in_set in_set_dropD)
    with h s show False by simp
  qed
  with p hold_marks_prefix_free m show "i = 0 \<and> m = m'" by auto
qed

lemma text_marks_sub: "set text_marks \<subseteq> set hold_marks"
  by (auto simp: text_marks_def hold_marks_def)

lemma kToolEnd_mark: "kToolEnd \<in> set hold_marks"
  by (simp add: hold_marks_def)

section \<open>Pieces do not matter\<close>

text \<open>The parser without the deltas of the last call.\<close>

definition core :: "OutputParser \<Rightarrow> OutputParser" where
  "core p = p\<lparr>p_pending := []\<rparr>"

lemma core_eq_sel:
  assumes "core p = core q"
  shows "p_buf p = p_buf q" "p_in_think p = p_in_think q" "p_in_tool p = p_in_tool q"
    "p_done p = p_done q" "p_tool_body p = p_tool_body q" "p_out p = p_out q"
  using assms by (cases p; cases q; simp add: core_def)+

lemma core_upd [simp]:
  "core (p\<lparr>p_buf := b\<rparr>) = (core p)\<lparr>p_buf := b\<rparr>"
  "core (p\<lparr>p_in_think := x\<rparr>) = (core p)\<lparr>p_in_think := x\<rparr>"
  "core (p\<lparr>p_in_tool := x\<rparr>) = (core p)\<lparr>p_in_tool := x\<rparr>"
  "core (p\<lparr>p_tool_body := b\<rparr>) = (core p)\<lparr>p_tool_body := b\<rparr>"
  "core (core p) = core p"
  by (simp_all add: core_def)

lemma core_sel [simp]: "p_buf (core p) = p_buf p" "p_in_think (core p) = p_in_think p"
  "p_in_tool (core p) = p_in_tool p" "p_done (core p) = p_done p"
  "p_tool_body (core p) = p_tool_body p" "p_out (core p) = p_out p"
  by (simp_all add: core_def)

lemma core_emit_text: "core p = core q \<Longrightarrow> core (emit_text t p) = core (emit_text t q)"
  using core_eq_sel [of p q] by (cases p; cases q) (simp add: emit_text_def core_def)

lemma core_emit_tool: "core p = core q \<Longrightarrow> core (emit_tool J p) = core (emit_tool J q)"
  using core_eq_sel [of p q] by (cases p; cases q) (simp add: emit_tool_def Let_def core_def)

lemma core_emit_stop: "core p = core q \<Longrightarrow> core (emit_stop p) = core (emit_stop q)"
  by (cases p; cases q) (simp add: emit_stop_def core_def)

lemma core_emit_text_append:
  "core (emit_text b (emit_text a p)) = core (emit_text (a @ b) p)"
  by (simp add: emit_text_def core_def)

lemma emit_sel [simp]:
  "p_in_tool (emit_text t p) = p_in_tool p" "p_done (emit_text t p) = p_done p"
  "p_in_think (emit_text t p) = p_in_think p" "p_tool_body (emit_text t p) = p_tool_body p"
  "p_done (emit_tool J p) = p_done p" "p_in_tool (emit_tool J p) = False"
  "(emit_text t p)\<lparr>p_buf := b\<rparr> = emit_text t (p\<lparr>p_buf := b\<rparr>)"
  "(emit_tool J p)\<lparr>p_buf := b\<rparr> = emit_tool J (p\<lparr>p_buf := b\<rparr>)"
  by (simp_all add: emit_text_def emit_tool_def Let_def)

lemma drain_empty [simp]: "p_buf p = [] \<Longrightarrow> drain J fl p = p"
  by (simp add: drain.simps)

lemma drain_core: "core p = core q \<Longrightarrow> core (drain J fl p) = core (drain J fl q)"
proof (induction J fl p arbitrary: q rule: drain.induct)
  case (1 J fl p)
  note c = core_eq_sel [OF "1.prems"]
  show ?case
  proof (cases "p_buf p = []")
    case True with "1.prems" c show ?thesis by simp
  next
    case ne: False
    let ?s = "p_buf p" and ?l = "length (p_buf p) - (if fl then 0 else holdback_len (p_buf p))"
    show ?thesis
    proof (cases "p_in_tool p")
      case True
      show ?thesis
      proof (cases "find_str kToolEnd ?s")
        case None
        with ne True c "1.prems" show ?thesis
          by (simp add: drain.simps [of J fl p] drain.simps [of J fl q] Let_def)
      next
        case (Some e)
        have "core (emit_tool J (p\<lparr>p_tool_body := p_tool_body p @ take e ?s, p_buf := drop (e + length kToolEnd) ?s\<rparr>)) =
          core (emit_tool J (q\<lparr>p_tool_body := p_tool_body q @ take e ?s, p_buf := drop (e + length kToolEnd) ?s\<rparr>))"
          by (rule core_emit_tool) (use c "1.prems" in simp)
        from "1.IH"(1) [OF ne refl refl True Some this] ne True Some c show ?thesis
          by (simp add: drain.simps [of J fl p] drain.simps [of J fl q] Let_def)
      qed
    next
      case False
      show ?thesis
      proof (cases "find_mark text_marks ?l ?s")
        case None
        have "core (emit_text (take ?l ?s) (p\<lparr>p_buf := drop ?l ?s\<rparr>)) =
            core (emit_text (take ?l ?s) (q\<lparr>p_buf := drop ?l ?s\<rparr>))"
          by (rule core_emit_text) (use c "1.prems" in simp)
        moreover have "drain J fl p = emit_text (take ?l ?s) (p\<lparr>p_buf := drop ?l ?s\<rparr>)"
          using ne False None by (simp only: drain.simps [of J fl p] Let_def if_False option.case)
        moreover have "drain J fl q = emit_text (take ?l ?s) (q\<lparr>p_buf := drop ?l ?s\<rparr>)"
          using ne False None c by (simp only: drain.simps [of J fl q] Let_def if_False option.case)
        ultimately show ?thesis by simp
      next
        case (Some fm)
        obtain f m where fm: "fm = (f, m)" by fastforce
        let ?p = "emit_text (take f ?s) (p\<lparr>p_buf := drop (f + length m) ?s\<rparr>)"
        let ?q = "emit_text (take f ?s) (q\<lparr>p_buf := drop (f + length m) ?s\<rparr>)"
        have cc: "core ?p = core ?q" by (rule core_emit_text) (use c "1.prems" in simp)
        have dp: "drain J fl p = (if m = kThinkEnd then drain J fl (?p\<lparr>p_in_think := False\<rparr>)
                else if m = kToolBegin then drain J fl (?p\<lparr>p_in_tool := True, p_tool_body := []\<rparr>)
                else emit_stop ?p)"
          using ne False Some fm by (simp only: drain.simps [of J fl p] Let_def if_False option.case prod.case)
        have dq: "drain J fl q = (if m = kThinkEnd then drain J fl (?q\<lparr>p_in_think := False\<rparr>)
                else if m = kToolBegin then drain J fl (?q\<lparr>p_in_tool := True, p_tool_body := []\<rparr>)
                else emit_stop ?q)"
          using ne False Some fm c by (simp only: drain.simps [of J fl q] Let_def if_False option.case prod.case)
        show ?thesis
        proof (cases "m = kThinkEnd")
          case True
          show ?thesis unfolding dp dq
            using "1.IH"(2) [OF ne refl refl False Some fm [symmetric] refl True, of "?q\<lparr>p_in_think := False\<rparr>"] cc True
            by simp
        next
          case nt: False
          show ?thesis
          proof (cases "m = kToolBegin")
            case True
            show ?thesis unfolding dp dq
              using "1.IH"(3) [OF ne refl refl False Some fm [symmetric] refl nt True,
                  of "?q\<lparr>p_in_tool := True, p_tool_body := []\<rparr>"] cc True nt
              by simp
          next
            case False
            with nt core_emit_stop [OF cc] show ?thesis unfolding dp dq by simp
          qed
        qed
      qed
    qed
  qed
qed

text \<open>The four ways through the body of the loop, without flush.\<close>

abbreviation lim0 :: "bytes \<Rightarrow> nat" where
  "lim0 s \<equiv> length s - holdback_len s"

lemma drain_tool_None:
  "p_in_tool p \<Longrightarrow> find_str kToolEnd (p_buf p) = None \<Longrightarrow> drain J False p =
     p\<lparr>p_tool_body := p_tool_body p @ take (lim0 (p_buf p)) (p_buf p),
       p_buf := drop (lim0 (p_buf p)) (p_buf p)\<rparr>"
  by (cases "p_buf p = []") (simp_all add: drain.simps [of J False p] Let_def)

lemma find_str_Nil_mark: "m \<in> set hold_marks \<Longrightarrow> find_str m [] = None"
  using hold_marks_shape by auto

lemma drain_tool_Some:
  "p_in_tool p \<Longrightarrow> find_str kToolEnd (p_buf p) = Some e \<Longrightarrow> drain J fl p =
     drain J fl (emit_tool J (p\<lparr>p_tool_body := p_tool_body p @ take e (p_buf p),
       p_buf := drop (e + length kToolEnd) (p_buf p)\<rparr>))"
  using find_str_Nil_mark [OF kToolEnd_mark]
  by (cases "p_buf p = []") (simp_all add: drain.simps [of J fl p] Let_def)

lemma find_mark_Nil: "find_mark text_marks l [] = None"
  by (simp add: find_mark_def mark_step_def text_marks_def tag_defs)

lemma drain_text_None:
  "\<not> p_in_tool p \<Longrightarrow> find_mark text_marks (lim0 (p_buf p)) (p_buf p) = None \<Longrightarrow> drain J False p =
     emit_text (take (lim0 (p_buf p)) (p_buf p)) (p\<lparr>p_buf := drop (lim0 (p_buf p)) (p_buf p)\<rparr>)"
  by (cases "p_buf p = []") (simp_all add: drain.simps [of J False p] Let_def emit_text_def)

definition after_mark :: "JsonLib \<Rightarrow> bytes \<Rightarrow> OutputParser \<Rightarrow> OutputParser" where
  "after_mark J m p1 =
     (if m = kThinkEnd then drain J False (p1\<lparr>p_in_think := False\<rparr>)
      else if m = kToolBegin then drain J False (p1\<lparr>p_in_tool := True, p_tool_body := []\<rparr>)
      else emit_stop p1)"

lemma drain_text_Some:
  "\<not> p_in_tool p \<Longrightarrow> find_mark text_marks (lim0 (p_buf p)) (p_buf p) = Some (f, m) \<Longrightarrow>
   drain J False p =
     after_mark J m (emit_text (take f (p_buf p)) (p\<lparr>p_buf := drop (f + length m) (p_buf p)\<rparr>))"
  using find_mark_Nil
  by (cases "p_buf p = []") (simp_all add: drain.simps [of J False p] Let_def after_mark_def)

lemma after_mark_core: "core p = core q \<Longrightarrow> core (after_mark J m p) = core (after_mark J m q)"
  unfolding after_mark_def
  by (auto intro!: drain_core core_emit_stop)

lemma take_drop_shift:
  assumes "l \<le> length s"
  shows "take (l + k) (s @ t) = take l s @ take k (drop l s @ t)"
    and "drop (l + k) (s @ t) = drop k (drop l s @ t)"
proof -
  have "s @ t = take l s @ (drop l s @ t)" by simp
  moreover have "length (take l s) = l" using assms by simp
  ultimately show "take (l + k) (s @ t) = take l s @ take k (drop l s @ t)"
    "drop (l + k) (s @ t) = drop k (drop l s @ t)"
    by (metis take_add append_eq_conv_conj, metis add.commute drop_drop append_eq_conv_conj)
qed

text \<open>Reading more: what was read before is not read differently.\<close>

lemma drain_more_tool:
  assumes t: "p_in_tool p" and n: "find_str kToolEnd (p_buf p) = None"
  shows "drain J False (p\<lparr>p_buf := p_buf p @ t\<rparr>) =
    drain J False ((drain J False p)\<lparr>p_buf := p_buf (drain J False p) @ t\<rparr>)"
proof -
  let ?s = "p_buf p" and ?L = "lim0 (p_buf p)" and ?u = "drop (lim0 (p_buf p)) (p_buf p) @ t"
  let ?q = "p\<lparr>p_tool_body := p_tool_body p @ take ?L ?s, p_buf := ?u\<rparr>"
  have q: "(drain J False p)\<lparr>p_buf := p_buf (drain J False p) @ t\<rparr> = ?q"
    by (simp add: drain_tool_None [OF t n])
  have sh: "find_str kToolEnd (?s @ t) = map_option ((+) ?L) (find_str kToolEnd ?u)"
    using tags.find_str_shift [OF kToolEnd_mark n] by (simp add: holdback_len_def)
  show ?thesis
  proof (cases "find_str kToolEnd ?u")
    case None
    have h: "holdback_len (?s @ t) = holdback_len ?u"
      using tags.holdback_append [of ?s t] by (simp add: holdback_len_def)
    have lm: "lim0 (?s @ t) = ?L + lim0 ?u"
      using h holdback_le [of hold_marks ?u] by (simp add: holdback_len_def)
    have "take (lim0 (?s @ t)) (?s @ t) = take ?L ?s @ take (lim0 ?u) ?u"
      unfolding lm by (rule take_drop_shift(1)) simp
    moreover have "drop (lim0 (?s @ t)) (?s @ t) = drop (lim0 ?u) ?u"
      unfolding lm by (rule take_drop_shift(2)) simp
    moreover have "find_str kToolEnd (?s @ t) = None" using sh None by simp
    ultimately have "drain J False (p\<lparr>p_buf := ?s @ t\<rparr>) =
        p\<lparr>p_tool_body := p_tool_body p @ take ?L ?s @ take (lim0 ?u) ?u, p_buf := drop (lim0 ?u) ?u\<rparr>"
      using drain_tool_None [of "p\<lparr>p_buf := ?s @ t\<rparr>" J] t by simp
    moreover have "drain J False ?q =
        p\<lparr>p_tool_body := p_tool_body p @ take ?L ?s @ take (lim0 ?u) ?u, p_buf := drop (lim0 ?u) ?u\<rparr>"
      using drain_tool_None [of ?q J] t None by simp
    ultimately show ?thesis unfolding q by simp
  next
    case (Some e)
    have tk: "take (?L + e) (?s @ t) = take ?L ?s @ take e ?u"
      by (rule take_drop_shift(1)) simp
    have dp: "drop (?L + e + length kToolEnd) (?s @ t) = drop (e + length kToolEnd) ?u"
      unfolding add.assoc by (rule take_drop_shift(2)) simp
    from sh Some have "find_str kToolEnd (?s @ t) = Some (?L + e)" by simp
    with t have "drain J False (p\<lparr>p_buf := ?s @ t\<rparr>) =
        drain J False (emit_tool J (p\<lparr>p_tool_body := p_tool_body p @ take ?L ?s @ take e ?u,
          p_buf := drop (e + length kToolEnd) ?u\<rparr>))"
      using drain_tool_Some [of "p\<lparr>p_buf := ?s @ t\<rparr>" "?L + e" J False]
      by (simp only: tk [symmetric] dp [symmetric]) simp
    moreover have "drain J False ?q =
        drain J False (emit_tool J (p\<lparr>p_tool_body := p_tool_body p @ take ?L ?s @ take e ?u,
          p_buf := drop (e + length kToolEnd) ?u\<rparr>))"
      using drain_tool_Some [of ?q e J False] t Some by simp
    ultimately show ?thesis unfolding q by simp
  qed
qed

lemma drain_more_text:
  assumes t: "\<not> p_in_tool p" and n: "find_mark text_marks (lim0 (p_buf p)) (p_buf p) = None"
  shows "core (drain J False (p\<lparr>p_buf := p_buf p @ t\<rparr>)) =
    core (drain J False ((drain J False p)\<lparr>p_buf := p_buf (drain J False p) @ t\<rparr>))"
proof -
  let ?s = "p_buf p" and ?L = "lim0 (p_buf p)" and ?u = "drop (lim0 (p_buf p)) (p_buf p) @ t"
  let ?q = "emit_text (take ?L ?s) (p\<lparr>p_buf := ?u\<rparr>)"
  have q: "(drain J False p)\<lparr>p_buf := p_buf (drain J False p) @ t\<rparr> = ?q"
    by (simp add: drain_text_None [OF t n])
  have bq: "p_buf ?q = ?u" by simp
  have h: "holdback_len (?s @ t) = holdback_len ?u"
    using tags.holdback_append [of ?s t] by (simp add: holdback_len_def)
  have lm: "lim0 (?s @ t) = ?L + lim0 ?u"
    using h holdback_le [of hold_marks ?u] by (simp add: holdback_len_def)
  have sh: "find_mark text_marks (lim0 (?s @ t)) (?s @ t) =
      map_option (\<lambda>(f, m). (?L + f, m)) (find_mark text_marks (lim0 ?u) ?u)"
    using tags.find_mark_shift [OF text_marks_sub n [unfolded holdback_len_def], of t]
    by (simp add: holdback_len_def)
  have tq: "\<not> p_in_tool ?q" using t by simp
  have em: "core (emit_text (take ?L ?s @ x) (p\<lparr>p_buf := b\<rparr>)) = core (emit_text x (?q\<lparr>p_buf := b\<rparr>))" for x b
    by (simp add: core_emit_text_append)
  show ?thesis
  proof (cases "find_mark text_marks (lim0 ?u) ?u")
    case None
    have tk: "take (lim0 (?s @ t)) (?s @ t) = take ?L ?s @ take (lim0 ?u) ?u"
      unfolding lm by (rule take_drop_shift(1)) simp
    have dp: "drop (lim0 (?s @ t)) (?s @ t) = drop (lim0 ?u) ?u"
      unfolding lm by (rule take_drop_shift(2)) simp
    have "find_mark text_marks (lim0 (?s @ t)) (?s @ t) = None" using sh None by simp
    then have "drain J False (p\<lparr>p_buf := ?s @ t\<rparr>) =
        emit_text (take ?L ?s @ take (lim0 ?u) ?u) (p\<lparr>p_buf := drop (lim0 ?u) ?u\<rparr>)"
      using drain_text_None [of "p\<lparr>p_buf := ?s @ t\<rparr>" J] t by (simp only: tk [symmetric] dp [symmetric]) simp
    moreover have "drain J False ?q = emit_text (take (lim0 ?u) ?u) (?q\<lparr>p_buf := drop (lim0 ?u) ?u\<rparr>)"
      using drain_text_None [OF tq, of J] None unfolding bq by blast
    ultimately show ?thesis unfolding q using em by simp
  next
    case (Some fm)
    obtain f m where fm: "fm = (f, m)" by fastforce
    have tk: "take (?L + f) (?s @ t) = take ?L ?s @ take f ?u"
      by (rule take_drop_shift(1)) simp
    have dp: "drop (?L + f + length m) (?s @ t) = drop (f + length m) ?u"
      unfolding add.assoc by (rule take_drop_shift(2)) simp
    from sh Some fm have "find_mark text_marks (lim0 (?s @ t)) (?s @ t) = Some (?L + f, m)" by simp
    then have "drain J False (p\<lparr>p_buf := ?s @ t\<rparr>) =
        after_mark J m (emit_text (take ?L ?s @ take f ?u) (p\<lparr>p_buf := drop (f + length m) ?u\<rparr>))"
      using drain_text_Some [of "p\<lparr>p_buf := ?s @ t\<rparr>" "?L + f" m J] t
      by (simp only: tk [symmetric] dp [symmetric]) simp
    moreover have "drain J False ?q =
        after_mark J m (emit_text (take f ?u) (?q\<lparr>p_buf := drop (f + length m) ?u\<rparr>))"
      using drain_text_Some [OF tq, of f m J] Some fm unfolding bq by blast
    ultimately show ?thesis unfolding q using after_mark_core [OF em] by metis
  qed
qed

definition continue_with :: "JsonLib \<Rightarrow> bytes \<Rightarrow> OutputParser \<Rightarrow> OutputParser" where
  "continue_with J t q = (if p_done q then core q else core (drain J False (q\<lparr>p_buf := p_buf q @ t\<rparr>)))"

lemma mark_bound:
  assumes "find_str m s = Some f"
  shows "take f (s @ t) = take f s" and "drop (f + length m) (s @ t) = drop (f + length m) s @ t"
    and "m \<noteq> [] \<Longrightarrow> length (drop (f + length m) s) < length s"
  using find_str_bound [OF assms] by (auto, cases m, auto)

lemma drain_append:
  "\<not> p_done p \<Longrightarrow>
   core (drain J False (p\<lparr>p_buf := p_buf p @ t\<rparr>)) = continue_with J t (drain J False p)"
proof (induction "length (p_buf p)" arbitrary: p rule: less_induct)
  case less
  let ?s = "p_buf p"
  show ?case
  proof (cases "p_in_tool p")
    case tool: True
    show ?thesis
    proof (cases "find_str kToolEnd ?s")
      case None
      from drain_more_tool [OF tool None] less.prems drain_tool_None [OF tool None]
      show ?thesis by (simp add: continue_with_def)
    next
      case (Some e)
      note b = mark_bound [OF Some]
      let ?p = "emit_tool J (p\<lparr>p_tool_body := p_tool_body p @ take e ?s, p_buf := drop (e + length kToolEnd) ?s\<rparr>)"
      have "kToolEnd \<noteq> []" by (simp add: tag_defs)
      with find_str_append [OF Some] have f: "find_str kToolEnd (?s @ t) = Some e" by simp
      have "drain J False (p\<lparr>p_buf := ?s @ t\<rparr>) = drain J False (?p\<lparr>p_buf := p_buf ?p @ t\<rparr>)"
        using drain_tool_Some [of "p\<lparr>p_buf := ?s @ t\<rparr>" e J False] tool f b(1,2) [of t]
        by (simp del: take_append drop_append)
      moreover have "length (p_buf ?p) < length ?s" using b(3) \<open>kToolEnd \<noteq> []\<close> by simp
      moreover have "\<not> p_done ?p" using less.prems by simp
      ultimately show ?thesis
        using less.hyps [of ?p] drain_tool_Some [OF tool Some, of J False] by simp
    qed
  next
    case ntool: False
    show ?thesis
    proof (cases "find_mark text_marks (lim0 ?s) ?s")
      case None
      from drain_more_text [OF ntool None] less.prems drain_text_None [OF ntool None]
      show ?thesis by (simp add: continue_with_def)
    next
      case (Some fm)
      obtain f m where fm: "fm = (f, m)" by fastforce
      with Some have fs: "find_mark text_marks (lim0 ?s) ?s = Some (f, m)" by simp
      note mm = find_mark_mem [OF fs]
      note b = mark_bound [OF mm(2)]
      from tags.find_mark_append [OF text_marks_sub fs [unfolded holdback_len_def], of t]
      have fs': "find_mark text_marks (lim0 (?s @ t)) (?s @ t) = Some (f, m)"
        by (simp add: holdback_len_def)
      let ?p = "emit_text (take f ?s) (p\<lparr>p_buf := drop (f + length m) ?s\<rparr>)"
      have dp: "drain J False p = after_mark J m ?p" by (rule drain_text_Some [OF ntool fs])
      have dt: "drain J False (p\<lparr>p_buf := ?s @ t\<rparr>) = after_mark J m (?p\<lparr>p_buf := p_buf ?p @ t\<rparr>)"
        using drain_text_Some [of "p\<lparr>p_buf := ?s @ t\<rparr>" f m J] ntool fs' b(1,2) [of t]
        by (simp del: take_append drop_append)
      have len: "length (p_buf ?p) < length ?s"
        using b(3) text_marks_nonempty [OF mm(1)] by simp
      show ?thesis
      proof (cases "m = kThinkEnd \<or> m = kToolBegin")
        case True
        have buf_comm: "(x\<lparr>p_in_think := False\<rparr>)\<lparr>p_buf := b\<rparr> = (x\<lparr>p_buf := b\<rparr>)\<lparr>p_in_think := False\<rparr>"
          "(x\<lparr>p_in_tool := True, p_tool_body := []\<rparr>)\<lparr>p_buf := b\<rparr> =
             (x\<lparr>p_buf := b\<rparr>)\<lparr>p_in_tool := True, p_tool_body := []\<rparr>" for x :: OutputParser and b by simp_all
        define p2 where "p2 = (if m = kThinkEnd then ?p\<lparr>p_in_think := False\<rparr>
           else ?p\<lparr>p_in_tool := True, p_tool_body := []\<rparr>)"
        have "drain J False p = drain J False p2"
          unfolding dp after_mark_def p2_def using True by (cases "m = kThinkEnd") auto
        moreover have "drain J False (p\<lparr>p_buf := ?s @ t\<rparr>) = drain J False (p2\<lparr>p_buf := p_buf p2 @ t\<rparr>)"
          unfolding dt after_mark_def p2_def using True
          by (cases "m = kThinkEnd") (simp_all del: emit_sel(7) add: buf_comm)
        moreover have "p_buf p2 = p_buf ?p" "p_done p2 = p_done ?p" unfolding p2_def by simp_all
        with len less.prems have "length (p_buf p2) < length ?s" "\<not> p_done p2" by simp_all
        ultimately show ?thesis using less.hyps [of p2] by simp
      next
        case False
        then show ?thesis unfolding dp dt after_mark_def
          by (simp add: continue_with_def emit_stop_def core_def emit_text_def)
      qed
    qed
  qed
qed

text \<open>A stream of pieces.\<close>

definition feed_all :: "JsonLib \<Rightarrow> OutputParser \<Rightarrow> bytes list \<Rightarrow> OutputParser" where
  "feed_all J p pieces = foldl (\<lambda>p piece. fst (feed J p piece)) p pieces"

lemma feed_core: "core (fst (feed J p t)) = continue_with J t p"
proof (cases "p_done p")
  case True
  then show ?thesis by (simp add: feed_def Let_def continue_with_def core_def)
next
  case False
  have "core (drain J False ((p\<lparr>p_pending := []\<rparr>)\<lparr>p_buf := p_buf p @ t\<rparr>)) =
      core (drain J False (p\<lparr>p_buf := p_buf p @ t\<rparr>))"
    by (rule drain_core) (simp add: core_def)
  with False show ?thesis by (simp add: feed_def Let_def continue_with_def)
qed

lemma continue_core: "core p = core q \<Longrightarrow> continue_with J t p = continue_with J t q"
  using core_eq_sel [of p q] by (auto simp: continue_with_def intro!: drain_core)

lemma feed_feed: "core (fst (feed J (fst (feed J p a)) b)) = core (fst (feed J p (a @ b)))"
proof (cases "p_done p")
  case True
  then show ?thesis by (simp add: feed_def Let_def core_def)
next
  case False
  let ?q = "drain J False (p\<lparr>p_buf := p_buf p @ a\<rparr>)"
  have "core (fst (feed J (fst (feed J p a)) b)) = continue_with J b (fst (feed J p a))"
    by (rule feed_core)
  also have "\<dots> = continue_with J b ?q"
    by (rule continue_core) (use False in \<open>simp add: feed_core continue_with_def\<close>)
  also have "\<dots> = core (drain J False (p\<lparr>p_buf := p_buf p @ a @ b\<rparr>))"
    using drain_append [of "p\<lparr>p_buf := p_buf p @ a\<rparr>" J b] False by simp
  finally show ?thesis using False by (simp add: feed_core continue_with_def)
qed

lemma feed_same_core: "core p = core q \<Longrightarrow> core (fst (feed J p t)) = core (fst (feed J q t))"
  unfolding feed_core by (rule continue_core)

lemma feed_all_core: "core p = core q \<Longrightarrow> core (feed_all J p ps) = core (feed_all J q ps)"
proof (induction ps arbitrary: p q)
  case (Cons a ps)
  from Cons.IH [OF feed_same_core [OF Cons.prems, of J a]] show ?case by (simp add: feed_all_def)
qed (simp add: feed_all_def)

lemma feed_all_concat:
  "core (feed_all J p (a # ps)) = core (fst (feed J p (a @ concat ps)))"
proof (induction ps arbitrary: p a)
  case Nil
  show ?case by (simp add: feed_all_def)
next
  case (Cons b ps)
  have "feed_all J p (a # b # ps) = feed_all J (fst (feed J p a)) (b # ps)" by (simp add: feed_all_def)
  then have "core (feed_all J p (a # b # ps)) = core (fst (feed J (fst (feed J p a)) (b @ concat ps)))"
    by (simp add: Cons.IH)
  then show ?case by (simp add: feed_feed)
qed

lemma feed_all_parser:
  "core (feed_all J (OutputParser_new th) ps) = core (fst (feed J (OutputParser_new th) (concat ps)))"
proof (cases ps)
  case Nil
  then show ?thesis
    by (simp add: feed_all_def feed_def Let_def OutputParser_new_def core_def)
next
  case (Cons a qs)
  with feed_all_concat [of J "OutputParser_new th" a qs] show ?thesis by simp
qed

lemma finish_core:
  assumes "core p = core q"
  shows "p_out (fst (finish J p)) = p_out (fst (finish J q))"
proof -
  have "core (drain J True (p\<lparr>p_pending := []\<rparr>)) = core (drain J True (q\<lparr>p_pending := []\<rparr>))"
    using assms by (intro drain_core) (simp add: core_def)
  note c = this and s = core_eq_sel [OF this]
  from s core_emit_tool [OF c, of J] show ?thesis
    by (auto simp: finish_def Let_def dest: core_eq_sel(6))
qed

text \<open>C8: Cutting the model's output into pieces changes nothing: however the text arrives, feeding
  the pieces one by one and finishing gives the reasoning, content and tool calls of parsing
  the whole text at once.\<close>

theorem pieces_do_not_matter:
  "p_out (fst (finish J (feed_all J (OutputParser_new th) pieces))) =
     parse_output J (concat pieces) th"
  unfolding parse_output_def by (rule finish_core, rule feed_all_parser)

section \<open>What comes out\<close>

definition tag_free :: "bytes \<Rightarrow> bool" where
  "tag_free t \<longleftrightarrow> (\<forall>m \<in> set text_marks. find_str m t = None)"

lemma find_str_take:
  assumes "find_str m (take f s) = Some g" and "m \<noteq> []"
  shows "find_str m s = Some g" and "g + length m \<le> f"
proof -
  from find_str_append [OF assms, of "drop f s"] show "find_str m s = Some g" by simp
  from find_str_bound [OF assms(1)] show "g + length m \<le> f" by simp
qed

lemma tag_free_before:
  assumes "length s - holdback_len s \<le> l"
  shows "find_mark text_marks l s = None \<Longrightarrow> tag_free (take k s)"
    and "find_mark text_marks l s = Some (f, m) \<Longrightarrow> tag_free (take f s)"
proof -
  note c = tags.find_mark_cases [OF text_marks_sub assms [unfolded holdback_len_def]]
  show "tag_free (take k s)" if "find_mark text_marks l s = None"
    unfolding tag_free_def
  proof
    fix m assume m: "m \<in> set text_marks"
    with c that have n: "find_str m s = None" by simp
    show "find_str m (take k s) = None"
      using find_str_take(1) [OF _ text_marks_nonempty [OF m], of k s] n by (cases "find_str m (take k s)") auto
  qed
  show "tag_free (take f s)" if "find_mark text_marks l s = Some (f, m)"
    unfolding tag_free_def
  proof
    fix m' assume m': "m' \<in> set text_marks"
    from c that have e: "tags.earliest text_marks s (f, m)" by simp
    show "find_str m' (take f s) = None"
    proof (rule ccontr)
      assume "find_str m' (take f s) \<noteq> None"
      then obtain g where g: "find_str m' (take f s) = Some g" by blast
      note t = find_str_take [OF g text_marks_nonempty [OF m']]
      from e t(1) m' have "f \<le> g" by (auto simp: tags.earliest_def)
      with t(2) text_marks_nonempty [OF m'] show False by (cases m') auto
    qed
  qed
qed

text \<open>A relation that holds for every elementary move holds for the whole loop.\<close>

lemma drain_rel:
  assumes rfl: "\<And>p. R p p" and trn: "\<And>p q r. R p q \<Longrightarrow> p_done q = p_done p \<Longrightarrow> R q r \<Longrightarrow> R p r"
    and bdy: "\<And>p b x. R p (p\<lparr>p_tool_body := b, p_buf := x\<rparr>)"
    and bfr: "\<And>p x. R p (p\<lparr>p_buf := x\<rparr>)"
    and tol: "\<And>p. R p (emit_tool J p)"
    and tx: "\<And>p t. \<not> p_in_tool p \<Longrightarrow> tag_free t \<Longrightarrow> R p (emit_text t p)"
    and thk: "\<And>p. R p (p\<lparr>p_in_think := False\<rparr>)"
    and bgn: "\<And>p. R p (p\<lparr>p_in_tool := True, p_tool_body := []\<rparr>)"
    and stp: "\<And>p. \<not> p_in_tool p \<Longrightarrow> R p (emit_stop p)"
  shows "R p (drain J fl p)"
proof (induction "length (p_buf p)" arbitrary: p rule: less_induct)
  case less
  let ?s = "p_buf p" and ?l = "length (p_buf p) - (if fl then 0 else holdback_len (p_buf p))"
  have l: "length ?s - holdback_len ?s \<le> ?l" by simp
  show ?case
  proof (cases "?s = []")
    case True then show ?thesis by (simp add: rfl)
  next
    case ne: False
    show ?thesis
    proof (cases "p_in_tool p")
      case True
      show ?thesis
      proof (cases "find_str kToolEnd ?s")
        case None
        have "drain J fl p = p\<lparr>p_tool_body := p_tool_body p @ take ?l ?s, p_buf := drop ?l ?s\<rparr>"
          using ne True None by (simp only: drain.simps [of J fl p] Let_def if_False if_True option.case)
        then show ?thesis using bdy by simp
      next
        case (Some e)
        let ?p = "emit_tool J (p\<lparr>p_tool_body := p_tool_body p @ take e ?s, p_buf := drop (e + length kToolEnd) ?s\<rparr>)"
        have dp: "drain J fl p = drain J fl ?p" by (rule drain_tool_Some [OF True Some])
        have "length (p_buf ?p) < length ?s"
          using mark_bound(3) [OF Some] by (simp add: tag_defs)
        from less.hyps [OF this] show ?thesis
          unfolding dp by (rule trn [rotated 2]) (auto intro: trn [OF bdy _ tol])
      qed
    next
      case False
      show ?thesis
      proof (cases "find_mark text_marks ?l ?s")
        case None
        have "drain J fl p = emit_text (take ?l ?s) (p\<lparr>p_buf := drop ?l ?s\<rparr>)"
          using ne False None by (simp only: drain.simps [of J fl p] Let_def if_False option.case)
        moreover have "R (p\<lparr>p_buf := drop ?l ?s\<rparr>) (emit_text (take ?l ?s) (p\<lparr>p_buf := drop ?l ?s\<rparr>))"
          by (rule tx) (use False tag_free_before(1) [OF l None] in simp_all)
        ultimately show ?thesis using trn [OF bfr, of "drop ?l ?s" p] by simp
      next
        case (Some fm)
        obtain f m where fm: "fm = (f, m)" by fastforce
        let ?p = "emit_text (take f ?s) (p\<lparr>p_buf := drop (f + length m) ?s\<rparr>)"
        have dp: "drain J fl p = (if m = kThinkEnd then drain J fl (?p\<lparr>p_in_think := False\<rparr>)
                else if m = kToolBegin then drain J fl (?p\<lparr>p_in_tool := True, p_tool_body := []\<rparr>)
                else emit_stop ?p)"
          using ne False Some fm by (simp only: drain.simps [of J fl p] Let_def if_False option.case prod.case)
        from find_mark_mem(1,2) [of text_marks ?l ?s f m] Some fm
        have len: "length (p_buf ?p) < length ?s"
          using mark_bound(3) [of m ?s f] text_marks_nonempty [of m] by simp
        have rp: "R p ?p"
          by (rule trn [OF bfr _ tx]) (use False Some fm tag_free_before(2) [OF l] in auto)
        show ?thesis
        proof (cases "m = kThinkEnd")
          case True
          from less.hyps [of "?p\<lparr>p_in_think := False\<rparr>"] len have "R (?p\<lparr>p_in_think := False\<rparr>) (drain J fl (?p\<lparr>p_in_think := False\<rparr>))" by simp
          then show ?thesis unfolding dp if_P [OF True]
            by (rule trn [rotated 2]) (auto intro: trn [OF rp _ thk])
        next
          case nt: False
          show ?thesis
          proof (cases "m = kToolBegin")
            case True
            from less.hyps [of "?p\<lparr>p_in_tool := True, p_tool_body := []\<rparr>"] len
            have "R (?p\<lparr>p_in_tool := True, p_tool_body := []\<rparr>) (drain J fl (?p\<lparr>p_in_tool := True, p_tool_body := []\<rparr>))" by simp
            then show ?thesis unfolding dp if_not_P [OF nt] if_P [OF True]
              by (rule trn [rotated 2]) (auto intro: trn [OF rp _ bgn])
          next
            case nb: False
            have "R ?p (emit_stop ?p)" by (rule stp) (use False in simp)
            from trn [OF rp _ this] nt nb show ?thesis unfolding dp by simp
          qed
        qed
      qed
    qed
  qed
qed

text \<open>The output recorded by a list of deltas.\<close>

definition delta_call :: "Delta \<Rightarrow> ToolCall" where
  "delta_call d = \<lparr>tc_id = d_tool_call_id d, tc_name = d_tool_name d,
     tc_arguments = d_tool_args_fragment d\<rparr>"

definition add_deltas :: "Delta list \<Rightarrow> ParsedOutput \<Rightarrow> ParsedOutput" where
  "add_deltas ds u = \<lparr>po_reasoning = po_reasoning u @ concat (map d_reasoning ds),
     po_content = po_content u @ concat (map d_content ds),
     po_tool_calls = po_tool_calls u @ map delta_call (filter d_tool_begin ds)\<rparr>"

definition numbered :: "ParsedOutput \<Rightarrow> bool" where
  "numbered u \<longleftrightarrow> map tc_id (po_tool_calls u) = map tool_id_for [0..<length (po_tool_calls u)]"

definition clean_delta :: "Delta \<Rightarrow> bool" where
  "clean_delta d \<longleftrightarrow> tag_free (d_reasoning d) \<and> tag_free (d_content d)"

definition emitted :: "OutputParser \<Rightarrow> OutputParser \<Rightarrow> bool" where
  "emitted p q \<longleftrightarrow> (\<exists>ds. p_pending q = p_pending p @ ds \<and> p_out q = add_deltas ds (p_out p) \<and>
     (numbered (p_out p) \<longrightarrow> numbered (p_out q)) \<and> list_all clean_delta ds)"

lemma add_deltas_append: "add_deltas (a @ b) u = add_deltas b (add_deltas a u)"
  by (simp add: add_deltas_def)

lemma add_deltas_Nil [simp]: "add_deltas [] u = u"
  by (simp add: add_deltas_def)

lemma emitted_trans: "emitted p q \<Longrightarrow> emitted q r \<Longrightarrow> emitted p r"
  unfolding emitted_def by (metis (no_types, lifting) add_deltas_append append.assoc list_all_append)

lemma emitted_silent: "p_pending q = p_pending p \<Longrightarrow> p_out q = p_out p \<Longrightarrow> emitted p q"
  unfolding emitted_def by (intro exI [of _ "[]"]) simp

lemma tag_free_Nil [simp]: "tag_free []"
  by (simp add: tag_free_def text_marks_def tag_defs)

lemma emitted_one:
  assumes "p_pending q = p_pending p @ [d]" and "p_out q = add_deltas [d] (p_out p)"
    and "numbered (p_out p) \<Longrightarrow> numbered (p_out q)" and "clean_delta d"
  shows "emitted p q"
  unfolding emitted_def using assms by (intro exI [of _ "[d]"]) simp

lemma emitted_tool: "emitted p (emit_tool J p)"
  by (rule emitted_one [where d = "last (p_pending (emit_tool J p))"])
    (auto simp: emit_tool_def Let_def add_deltas_def delta_call_def Delta_new_def numbered_def clean_delta_def)

lemma emitted_text: "tag_free t \<Longrightarrow> emitted p (emit_text t p)"
proof (cases "t = []")
  case True
  then show ?thesis by (simp add: emit_text_def emitted_silent)
next
  case False
  moreover assume "tag_free t"
  ultimately show ?thesis
    by (intro emitted_one [where d = "last (p_pending (emit_text t p))"])
      (auto simp: emit_text_def add_deltas_def Delta_new_def numbered_def clean_delta_def)
qed

lemma emitted_stop: "emitted p (emit_stop p)"
  by (rule emitted_one [where d = "Delta_new\<lparr>d_stop := True\<rparr>"])
    (auto simp: emit_stop_def add_deltas_def Delta_new_def numbered_def clean_delta_def)

lemma emitted_drain: "emitted p (drain J fl p)"
  by (rule drain_rel)
    (auto intro: emitted_silent emitted_tool emitted_text emitted_stop emitted_trans)

fun stream :: "JsonLib \<Rightarrow> OutputParser \<Rightarrow> bytes list \<Rightarrow> Delta list" where
  "stream J p [] = snd (finish J p)"
| "stream J p (piece # pieces) =
     (let (p1, ds) = feed J p piece in ds @ stream J p1 pieces)"

lemma feed_emits:
  "emitted (p\<lparr>p_pending := []\<rparr>) (fst (feed J p piece))" "snd (feed J p piece) = p_pending (fst (feed J p piece))"
proof -
  let ?p = "p\<lparr>p_pending := [], p_buf := p_buf p @ piece\<rparr>"
  have "emitted (p\<lparr>p_pending := []\<rparr>) ?p" by (rule emitted_silent) simp_all
  from emitted_trans [OF this emitted_drain, of J False]
  show "emitted (p\<lparr>p_pending := []\<rparr>) (fst (feed J p piece))"
    by (auto simp: feed_def Let_def emitted_silent)
  show "snd (feed J p piece) = p_pending (fst (feed J p piece))"
    by (simp add: feed_def Let_def)
qed

lemma finish_emits:
  "emitted (p\<lparr>p_pending := []\<rparr>) (fst (finish J p))" "snd (finish J p) = p_pending (fst (finish J p))"
proof -
  show "emitted (p\<lparr>p_pending := []\<rparr>) (fst (finish J p))"
    by (auto simp: finish_def Let_def intro: emitted_drain emitted_trans [OF emitted_drain emitted_tool])
  show "snd (finish J p) = p_pending (fst (finish J p))" by (simp add: finish_def Let_def)
qed

lemma emittedD:
  assumes "emitted (p\<lparr>p_pending := []\<rparr>) q"
  shows "p_out q = add_deltas (p_pending q) (p_out p)" and "numbered (p_out p) \<Longrightarrow> numbered (p_out q)"
    and "list_all clean_delta (p_pending q)"
  using assms by (auto simp: emitted_def)

lemma stream_output:
  "p_out (fst (finish J (feed_all J p pieces))) = add_deltas (stream J p pieces) (p_out p) \<and>
   (numbered (p_out p) \<longrightarrow> numbered (p_out (fst (finish J (feed_all J p pieces))))) \<and>
   list_all clean_delta (stream J p pieces)"
proof (induction pieces arbitrary: p)
  case Nil
  from emittedD [OF finish_emits(1) [where p = p and J = J]] show ?case by (simp add: feed_all_def finish_emits(2))
next
  case (Cons a ps)
  let ?p = "fst (feed J p a)"
  from emittedD [OF feed_emits(1) [where p = p and J = J and piece = a]] have f: "p_out ?p = add_deltas (snd (feed J p a)) (p_out p)"
    "numbered (p_out p) \<Longrightarrow> numbered (p_out ?p)" "list_all clean_delta (snd (feed J p a))"
    by (simp_all add: feed_emits(2))
  have st: "stream J p (a # ps) = snd (feed J p a) @ stream J ?p ps" by (simp add: case_prod_beta)
  have fa: "feed_all J p (a # ps) = feed_all J ?p ps" by (simp add: feed_all_def)
  from Cons.IH [of ?p] have i: "p_out (fst (finish J (feed_all J ?p ps))) = add_deltas (stream J ?p ps) (p_out ?p)"
    "numbered (p_out ?p) \<longrightarrow> numbered (p_out (fst (finish J (feed_all J ?p ps))))"
    "list_all clean_delta (stream J ?p ps)" by blast+
  show ?case
    unfolding st fa
  proof (intro conjI)
    show "p_out (fst (finish J (feed_all J ?p ps))) = add_deltas (snd (feed J p a) @ stream J ?p ps) (p_out p)"
      by (simp add: i(1) f(1) add_deltas_append)
    show "numbered (p_out p) \<longrightarrow> numbered (p_out (fst (finish J (feed_all J ?p ps))))"
      using i(2) f(2) by blast
    show "list_all clean_delta (snd (feed J p a) @ stream J ?p ps)" using i(3) f(3) by simp
  qed
qed

text \<open>Once the turn has ended, nothing comes out.\<close>

definition halting :: "OutputParser \<Rightarrow> OutputParser \<Rightarrow> bool" where
  "halting p q \<longleftrightarrow> (\<not> p_done p \<longrightarrow> (\<exists>ds. p_pending q = p_pending p @ ds \<and>
     (if p_done q then (\<exists>ds'. ds = ds' @ [Delta_new\<lparr>d_stop := True\<rparr>] \<and> (\<forall>d \<in> set ds'. \<not> d_stop d)) \<and>
        p_buf q = [] \<and> \<not> p_in_tool q
      else \<forall>d \<in> set ds. \<not> d_stop d)))"

lemma halting_trans:
  assumes "halting p q" and "p_done q = p_done p" and "halting q r"
  shows "halting p r"
proof (cases "p_done p")
  case True then show ?thesis by (simp add: halting_def)
next
  case False
  with assms obtain ds1 where d1: "p_pending q = p_pending p @ ds1" "\<forall>d \<in> set ds1. \<not> d_stop d"
    by (auto simp: halting_def)
  from assms False obtain ds2 where d2: "p_pending r = p_pending q @ ds2"
     "if p_done r then (\<exists>ds'. ds2 = ds' @ [Delta_new\<lparr>d_stop := True\<rparr>] \<and> (\<forall>d \<in> set ds'. \<not> d_stop d)) \<and>
        p_buf r = [] \<and> \<not> p_in_tool r
      else \<forall>d \<in> set ds2. \<not> d_stop d"
    by (auto simp: halting_def)
  show ?thesis
    unfolding halting_def
  proof (intro impI exI conjI)
    show "p_pending r = p_pending p @ (ds1 @ ds2)" by (simp add: d1 d2)
    show "if p_done r then (\<exists>ds'. ds1 @ ds2 = ds' @ [Delta_new\<lparr>d_stop := True\<rparr>] \<and> (\<forall>d \<in> set ds'. \<not> d_stop d)) \<and>
        p_buf r = [] \<and> \<not> p_in_tool r
      else \<forall>d \<in> set (ds1 @ ds2). \<not> d_stop d"
    proof (cases "p_done r")
      case True
      with d2(2) obtain ds' where "ds2 = ds' @ [Delta_new\<lparr>d_stop := True\<rparr>]" "\<forall>d \<in> set ds'. \<not> d_stop d"
        "p_buf r = []" "\<not> p_in_tool r" by auto
      with True d1(2) show ?thesis by (auto intro: exI [of _ "ds1 @ ds'"])
    next
      case False
      with d1(2) d2(2) show ?thesis by auto
    qed
  qed
qed

lemma halting_silent: "p_pending q = p_pending p \<Longrightarrow> p_done q = p_done p \<Longrightarrow> halting p q"
  unfolding halting_def by simp

lemma halting_emit: "p_pending q = p_pending p @ [d] \<Longrightarrow> p_done q = p_done p \<Longrightarrow> \<not> d_stop d \<Longrightarrow> halting p q"
  unfolding halting_def by simp

lemma halting_tool: "halting p (emit_tool J p)"
  by (rule halting_emit [where d = "last (p_pending (emit_tool J p))"])
    (simp_all add: emit_tool_def Let_def Delta_new_def)

lemma halting_text: "halting p (emit_text t p)"
proof (cases "t = []")
  case True
  then show ?thesis by (simp add: emit_text_def halting_silent)
next
  case False
  then show ?thesis
    by (intro halting_emit [where d = "last (p_pending (emit_text t p))"])
      (simp_all add: emit_text_def Delta_new_def)
qed

lemma halting_drain: "halting p (drain J fl p)"
proof (rule drain_rel)
  show "halting p (emit_stop p)" if "\<not> p_in_tool p" for p
    using that by (simp add: halting_def emit_stop_def)
qed (auto intro: halting_silent halting_tool halting_text halting_trans)

lemma feed_done: "p_done p \<Longrightarrow> feed J p piece = (p\<lparr>p_pending := []\<rparr>, [])"
  by (simp add: feed_def Let_def)

lemma finish_done: "p_done p \<Longrightarrow> p_buf p = [] \<Longrightarrow> \<not> p_in_tool p \<Longrightarrow> snd (finish J p) = []"
  by (simp add: finish_def Let_def)

lemma stream_done:
  "p_done p \<Longrightarrow> p_buf p = [] \<Longrightarrow> \<not> p_in_tool p \<Longrightarrow> stream J p pieces = []"
  by (induction pieces arbitrary: p) (simp_all add: feed_done finish_done)

definition stops_last :: "Delta list \<Rightarrow> bool" where
  "stops_last ds \<longleftrightarrow> (\<forall>i < length ds. d_stop (ds ! i) \<longrightarrow> Suc i = length ds)"

lemma stops_last_none: "\<forall>d \<in> set ds. \<not> d_stop d \<Longrightarrow> stops_last ds"
  by (auto simp: stops_last_def)

lemma stops_last_snoc: "\<forall>d \<in> set ds. \<not> d_stop d \<Longrightarrow> stops_last (ds @ [x])"
  by (auto simp: stops_last_def nth_append less_Suc_eq)

lemma stops_last_append: "\<forall>d \<in> set a. \<not> d_stop d \<Longrightarrow> stops_last b \<Longrightarrow> stops_last (a @ b)"
  unfolding stops_last_def
proof (intro allI impI)
  fix i
  assume a: "\<forall>d \<in> set a. \<not> d_stop d" and b: "\<forall>i < length b. d_stop (b ! i) \<longrightarrow> Suc i = length b"
    and i: "i < length (a @ b)" "d_stop ((a @ b) ! i)"
  have "\<not> i < length a" using a i(2) by (auto simp: nth_append)
  then obtain j where j: "i = length a + j" by (metis add_diff_inverse_nat)
  with b i show "Suc i = length (a @ b)" by (simp add: nth_append)
qed

lemma halting_cases:
  assumes "halting (p\<lparr>p_pending := []\<rparr>) q" and "\<not> p_done p"
  shows "if p_done q then stops_last (p_pending q) \<and> p_buf q = [] \<and> \<not> p_in_tool q
    else \<forall>d \<in> set (p_pending q). \<not> d_stop d"
  using assms by (auto simp: halting_def stops_last_snoc)

lemma stream_stops: "\<not> p_done p \<Longrightarrow> stops_last (stream J p pieces)"
proof (induction pieces arbitrary: p)
  case Nil
  let ?q = "drain J True (p\<lparr>p_pending := []\<rparr>)"
  have h: "halting (p\<lparr>p_pending := []\<rparr>) ?q" by (rule halting_drain)
  from halting_cases [OF this Nil] show ?case
  proof (cases "p_done ?q")
    case True
    with halting_cases [OF h Nil] show ?thesis by (simp add: finish_def Let_def)
  next
    case False
    with halting_cases [OF h Nil] have "\<forall>d \<in> set (p_pending ?q). \<not> d_stop d" by simp
    then have "\<forall>d \<in> set (snd (finish J p)). \<not> d_stop d"
      by (auto simp: finish_def Let_def emit_tool_def Delta_new_def)
    then show ?thesis by (simp add: stops_last_none)
  qed
next
  case (Cons a ps)
  let ?q = "drain J False (p\<lparr>p_pending := [], p_buf := p_buf p @ a\<rparr>)"
  have f: "feed J p a = (?q, p_pending ?q)" using Cons.prems by (simp add: feed_def Let_def)
  have h: "halting (p\<lparr>p_pending := []\<rparr>) ?q"
    using halting_trans [OF halting_silent _ halting_drain, of "p\<lparr>p_pending := [], p_buf := p_buf p @ a\<rparr>" "p\<lparr>p_pending := []\<rparr>"]
    by simp
  show ?case
  proof (cases "p_done ?q")
    case True
    with halting_cases [OF h Cons.prems] show ?thesis by (simp add: f stream_done)
  next
    case False
    with halting_cases [OF h Cons.prems] Cons.IH [of ?q] show ?thesis
      by (simp add: f stops_last_append)
  qed
qed

lemma tool_ids_distinct: "numbered u \<Longrightarrow> distinct (map tc_id (po_tool_calls u))"
  by (simp add: numbered_def distinct_map inj_on_def tool_id_for_def)

text \<open>What is streamed is what is parsed: however the text is cut, the deltas sent to the client
  add up to the reasoning, the content and the tool calls of the whole output; the calls carry
  the ids \<^verbatim>\<open>call_0\<close>, \<^verbatim>\<open>call_1\<close>, \dots in order and so pairwise distinct ids; no delta's text contains
  a complete tag; and an end-of-turn delta is the last one of the stream.\<close>

theorem stream_adds_up:
  fixes J :: JsonLib and pieces :: "bytes list"
  shows "(let ds = stream J (OutputParser_new th) pieces; u = parse_output J (concat pieces) th in
    po_reasoning u = concat (map d_reasoning ds) \<and>
    po_content u = concat (map d_content ds) \<and>
    po_tool_calls u = map delta_call (filter d_tool_begin ds) \<and>
    map tc_id (po_tool_calls u) = map tool_id_for [0..<length (po_tool_calls u)] \<and>
    distinct (map tc_id (po_tool_calls u)) \<and>
    list_all clean_delta ds \<and> stops_last ds)"
proof -
  let ?p = "OutputParser_new th" and ?ds = "stream J (OutputParser_new th) pieces"
  let ?u = "parse_output J (concat pieces) th"
  have u: "?u = p_out (fst (finish J (feed_all J ?p pieces)))"
    unfolding parse_output_def by (rule finish_core [symmetric], rule feed_all_parser)
  have n0: "numbered (p_out ?p)" by (simp add: numbered_def OutputParser_new_def)
  from stream_output [of J ?p pieces] n0
  have u2: "?u = add_deltas ?ds (p_out ?p)" "numbered ?u" "list_all clean_delta ?ds"
    unfolding u by blast+
  have "stops_last ?ds" by (rule stream_stops) (simp add: OutputParser_new_def)
  moreover have "po_reasoning ?u = concat (map d_reasoning ?ds)" "po_content ?u = concat (map d_content ?ds)"
    "po_tool_calls ?u = map delta_call (filter d_tool_begin ?ds)"
    unfolding u2(1) by (simp_all add: add_deltas_def OutputParser_new_def)
  ultimately show ?thesis
    using u2(2,3) tool_ids_distinct [OF u2(2)] by (simp only: Let_def numbered_def)
qed

end
