(* ===== verification/Chat_Template.thy ===== *)
theory Chat_Template
  imports Main Helios_Prelude Json Output_Parser "HOL-Library.Multiset"
begin

text \<open>
  The chat template (\<^verbatim>\<open>render_chat\<close> and \<^verbatim>\<open>chat_content_text\<close> of \<^verbatim>\<open>src/core/chat.cpp\<close>): from the
  messages of a request to the prompt text.  Where the JSON library throws (a value of the
  wrong type), the model returns \<open>Inl Thrown\<close>, or \<open>None\<close> where nothing else can fail; where the
  code reports an error it returns \<open>Inl (Refused msg)\<close>.
\<close>

section \<open>Messages\<close>

record ChatMsg =
  m_role :: bytes
  m_content :: bytes
  m_reasoning :: bytes
  m_tool_calls :: "ToolCall list"
  m_tool_call_id :: bytes

datatype chat_error = Refused bytes | Thrown

text \<open>\<^verbatim>\<open>j.value(k, def)\<close> for a string default: throws when the member is not a string.\<close>

definition str_value :: "bytes \<Rightarrow> bytes \<Rightarrow> json \<Rightarrow> chat_error + bytes" where
  "str_value k dflt j =
     (case field k j of None \<Rightarrow> Inr dflt | Some (JStr s) \<Rightarrow> Inr s | Some _ \<Rightarrow> Inl Thrown)"

definition image_marker :: "nat \<Rightarrow> bytes" where
  "image_marker n = ''[HELIOS_IMAGE_'' @ dec_string n @ '']''"

text \<open>The URL of an \<^verbatim>\<open>image_url\<close> part.\<close>

definition part_url :: "json \<Rightarrow> bytes option" where
  "part_url part = (case field ''image_url'' part of
     Some iu \<Rightarrow> if is_object iu then str_field ''url'' iu else None | None \<Rightarrow> None)"

definition bad_part :: bytes where
  "bad_part = ''unsupported content part: use text or image_url with a base64 data URL; video and audio are not implemented''"

fun content_parts ::
  "json list \<Rightarrow> bytes \<Rightarrow> bytes list option \<Rightarrow> chat_error + bytes \<times> bytes list option" where
  "content_parts [] text urls = Inr (text, urls)"
| "content_parts (part # parts) text urls =
     (if is_string part then content_parts parts (text @ get_str part) urls
      else if \<not> is_object part then Inl (Refused bad_part)
      else bind_sum (str_value ''type'' [] part) (\<lambda>ty.
        (case (if ty = ''text'' then str_field ''text'' part else None) of
           Some s \<Rightarrow> content_parts parts (text @ s) urls
         | None \<Rightarrow>
           (case (urls, if ty = ''image_url'' then part_url part else None) of
              (Some us, Some url) \<Rightarrow>
                content_parts parts (text @ image_marker (length us)) (Some (us @ [url]))
            | _ \<Rightarrow> Inl (Refused bad_part)))))"

definition chat_content_text ::
  "json \<Rightarrow> bytes list option \<Rightarrow> chat_error + bytes \<times> bytes list option" where
  "chat_content_text content urls =
     (case content of
        JNull \<Rightarrow> Inr ([], urls)
      | JStr s \<Rightarrow> Inr (s, urls)
      | JArr parts \<Rightarrow> content_parts parts [] urls
      | _ \<Rightarrow> Inl (Refused ''message content must be text, null, or an array of text parts''))"

section \<open>Pieces of the prompt\<close>

definition tool_function :: "json \<Rightarrow> json" where
  "tool_function tool = (case field ''function'' tool of Some fn \<Rightarrow> fn | None \<Rightarrow> tool)"

definition to_upper :: "char \<Rightarrow> char" where
  "to_upper c = (if 97 \<le> byte_val c \<and> byte_val c \<le> 122 then char_of (byte_val c - 32) else c)"

fun cap_first :: "bytes \<Rightarrow> bytes" where
  "cap_first [] = []"
| "cap_first (c # s) = to_upper c # s"

definition arg_text :: "JsonLib \<Rightarrow> json \<Rightarrow> bytes" where
  "arg_text J v = (if is_string v then get_str v else dump_pretty (js_dump J) v)"

definition append_args :: "JsonLib \<Rightarrow> json \<Rightarrow> bytes" where
  "append_args J args =
     (case args of
        JObj ms \<Rightarrow> concat (map (\<lambda>(k, v). ''<arg_key>'' @ k @ ''</arg_key><arg_value>'' @ arg_text J v
                      @ ''</arg_value>'') ms)
      | JNull \<Rightarrow> []
      | _ \<Rightarrow> dump_pretty (js_dump J) args)"

definition deferred :: "json \<Rightarrow> bool" where
  "deferred fn \<longleftrightarrow> bool_field ''defer_loading'' fn = Some True"

text \<open>Copying a tool without the two members the template skips.  Iterating over anything but an
  object or an empty value throws when the key is asked for.\<close>

definition clean_tool :: "json \<Rightarrow> json option" where
  "clean_tool fn =
     (case fn of
        JObj ms \<Rightarrow> Some (JObj (fold (\<lambda>(k, v) acc. set_member k v acc)
                     (filter (\<lambda>(k, v). k \<noteq> ''strict'' \<and> k \<noteq> ''defer_loading'') ms) []))
      | JNull \<Rightarrow> Some (JObj [])
      | JArr [] \<Rightarrow> Some (JObj [])
      | _ \<Rightarrow> None)"

definition nl :: bytes where "nl = [CHR 0x0A]"

definition tools_head :: bytes where
  "tools_head = ''<|system|>'' @ nl @ ''# Tools'' @ nl @ nl @
     ''You may call one or more functions to assist with the user query.'' @ nl @ nl @
     ''You are provided with function signatures within <tools></tools> XML tags:'' @ nl @
     ''<tools>'' @ nl"

definition tools_tail :: bytes where
  "tools_tail = ''</tools>'' @ nl @ nl @
     ''For each function call, output the function name and arguments within the following XML format:'' @
     nl @ ''<tool_call>{function-name}<arg_key>{arg-key-1}</arg_key>'' @
     ''<arg_value>{arg-value-1}</arg_value><arg_key>{arg-key-2}</arg_key>'' @
     ''<arg_value>{arg-value-2}</arg_value>...</tool_call>''"

fun shown_text :: "JsonLib \<Rightarrow> json list \<Rightarrow> bytes option" where
  "shown_text J [] = Some []"
| "shown_text J (fn # fns) =
     (case clean_tool fn of
        None \<Rightarrow> None
      | Some c \<Rightarrow> map_option (\<lambda>r. dump_pretty (js_dump J) c @ nl @ r) (shown_text J fns))"

definition tools_block :: "JsonLib \<Rightarrow> json \<Rightarrow> bytes option" where
  "tools_block J tools =
     (case tools of
        JArr ts \<Rightarrow>
          (let shown = filter (\<lambda>fn. \<not> deferred fn) (map tool_function ts) in
           if shown = [] then Some []
           else map_option (\<lambda>s. tools_head @ s @ tools_tail) (shown_text J shown))
      | _ \<Rightarrow> Some [])"

definition call_args :: "JsonLib \<Rightarrow> bytes \<Rightarrow> json" where
  "call_args J a =
     (case js_parse J (if a = [] then ''{}'' else a) of
        Some (JObj ms) \<Rightarrow> JObj ms
      | _ \<Rightarrow> JObj [])"

definition render_call :: "JsonLib \<Rightarrow> ToolCall \<Rightarrow> bytes" where
  "render_call J tc =
     ''<tool_call>'' @ tc_name tc @ append_args J (call_args J (tc_arguments tc)) @ ''</tool_call>''"

definition last_user :: "ChatMsg list \<Rightarrow> int" where
  "last_user msgs = fold (\<lambda>i u. if m_role (msgs ! i) = ''user'' then int i else u) [0..<length msgs] (-1)"

definition render_assistant :: "JsonLib \<Rightarrow> bool \<Rightarrow> ChatMsg \<Rightarrow> bytes" where
  "render_assistant J after_user m =
     ''<|assistant|>'' @
     (if after_user \<and> m_reasoning m \<noteq> [] then ''<think>'' @ m_reasoning m @ ''</think>''
      else ''<think></think>'') @
     strip_ws (m_content m) @ concat (map (render_call J) (m_tool_calls m))"

definition tool_response :: "ChatMsg \<Rightarrow> bytes" where
  "tool_response m = ''<tool_response>'' @ m_content m @ ''</tool_response>''"

text \<open>A run of tool messages, and the calls of the assistant turn before it.\<close>

definition tool_run :: "ChatMsg list \<Rightarrow> nat \<Rightarrow> ChatMsg list" where
  "tool_run msgs i = msgs ! i # takeWhile (\<lambda>m. m_role m = ''tool'') (drop (Suc i) msgs)"

definition run_order :: "ChatMsg list \<Rightarrow> nat \<Rightarrow> ToolCall list option" where
  "run_order msgs i =
     (let run = tool_run msgs i;
          have_ids = (\<forall>m \<in> set run. m_tool_call_id m \<noteq> []) in
      if have_ids \<and> 0 < i \<and> m_role (msgs ! (i - 1)) = ''assistant'' \<and> m_tool_calls (msgs ! (i - 1)) \<noteq> []
      then (let calls = m_tool_calls (msgs ! (i - 1)) in
        if (\<forall>m \<in> set run. \<exists>tc \<in> set calls. tc_id tc = m_tool_call_id m) then Some calls else None)
      else None)"

definition run_messages :: "ChatMsg list \<Rightarrow> nat \<Rightarrow> ChatMsg list" where
  "run_messages msgs i =
     (case run_order msgs i of
        Some calls \<Rightarrow>
          concat (map (\<lambda>tc. filter (\<lambda>m. m_tool_call_id m = tc_id tc) (tool_run msgs i)) calls)
      | None \<Rightarrow> tool_run msgs i)"

definition render_msg :: "JsonLib \<Rightarrow> ChatMsg list \<Rightarrow> nat \<Rightarrow> bytes" where
  "render_msg J msgs i =
     (let m = msgs ! i in
      if m_role m = ''user'' then ''<|user|>'' @ m_content m
      else if m_role m = ''system'' then ''<|system|>'' @ m_content m
      else if m_role m = ''assistant'' then render_assistant J (last_user msgs < int i) m
      else if m_role m = ''tool'' then
        (if i = 0 \<or> m_role (msgs ! (i - 1)) \<noteq> ''tool''
         then ''<|observation|>'' @ concat (map tool_response (run_messages msgs i)) else [])
      else [])"

definition render_chat ::
  "JsonLib \<Rightarrow> ChatMsg list \<Rightarrow> json \<Rightarrow> bytes \<Rightarrow> bool \<Rightarrow> bool \<Rightarrow> bytes option" where
  "render_chat J msgs tools effort add_prompt thinking =
     (case tools_block J tools of
        None \<Rightarrow> None
      | Some tb \<Rightarrow> Some (''[gMASK]<sop>'' @ ''<|system|>Reasoning Effort: '' @
          cap_first (if effort = ''low'' \<or> effort = ''high'' then effort else ''max'') @ tb @
          concat (map (render_msg J msgs) [0..<length msgs]) @
          (if add_prompt
           then (if thinking then ''<|assistant|><think>'' else ''<|assistant|><think></think>'')
           else [])))"

section \<open>The old chat template\<close>

text \<open>\<^verbatim>\<open>Tokenizer::apply_chat_template\<close>, kept for the command line: no tools, no reasoning, no tool calls.\<close>

definition template_msg :: "ChatMsg \<Rightarrow> bytes" where
  "template_msg m =
     (if m_role m = ''system'' then ''<|system|>'' @ m_content m
      else if m_role m = ''user'' then ''<|user|>'' @ m_content m
      else if m_role m = ''assistant'' then ''<|assistant|>'' @ ''<think></think>'' @ strip_ws (m_content m)
      else if m_role m = ''tool'' then ''<|observation|>'' @ m_content m
      else [])"

definition apply_chat_template :: "ChatMsg list \<Rightarrow> bool \<Rightarrow> bytes \<Rightarrow> bytes" where
  "apply_chat_template msgs gen effort =
     ''[gMASK]<sop>'' @ ''<|system|>Reasoning Effort: '' @
     cap_first (if effort = ''low'' \<or> effort = ''high'' \<or> effort = ''max'' then effort else ''max'') @
     concat (map template_msg msgs) @ (if gen then ''<|assistant|><think>'' else [])"

section \<open>Searching for tags in rendered text\<close>

definition plain :: "bytes \<Rightarrow> bool" where
  "plain s \<longleftrightarrow> CHR ''<'' \<notin> set s"

lemma map_option_plus: "map_option ((+) a) (map_option ((+) b) x) = map_option ((+) (a + b)) (x :: nat option)"
  by (cases x) auto

text \<open>A tag is not found inside text without the opening bracket.\<close>

lemma find_str_plain:
  assumes "plain s" and "pat \<noteq> []" and "hd pat = CHR ''<''"
  shows "find_str pat (s @ rest) = map_option ((+) (length s)) (find_str pat rest)"
  using assms(1)
proof (induction s)
  case Nil
  show ?case by (cases "find_str pat rest") simp_all
next
  case (Cons c s)
  have "take (length pat) (c # s @ rest) \<noteq> pat"
    using assms(2,3) Cons.prems by (cases pat) (auto simp: plain_def)
  with Cons show ?case by (cases "find_str pat rest") (simp_all add: plain_def)
qed

text \<open>Nor in another tag.\<close>

definition tag_like :: "bytes \<Rightarrow> bool" where
  "tag_like t \<longleftrightarrow> t \<noteq> [] \<and> hd t = CHR ''<'' \<and> plain (tl t)"

lemma find_str_tag:
  assumes "take (length pat) (tag @ rest) \<noteq> pat" and "tag_like tag" and "pat \<noteq> []" "hd pat = CHR ''<''"
  shows "find_str pat (tag @ rest) = map_option ((+) (length tag)) (find_str pat rest)"
proof -
  from assms(2) obtain t where t: "tag = CHR ''<'' # t" "plain t"
    by (cases tag) (auto simp: tag_like_def)
  have "find_str pat (tag @ rest) = map_option Suc (find_str pat (t @ rest))"
    using assms(1) by (simp add: t(1))
  with find_str_plain [OF t(2) assms(3,4), of rest] show ?thesis
    by (cases "find_str pat rest") (simp_all add: t(1))
qed

lemma find_str_here: "pat \<noteq> [] \<Longrightarrow> find_str pat (pat @ rest) = Some 0"
  by (cases pat) simp_all

definition arg_string :: "JsonLib \<Rightarrow> bytes \<times> json \<Rightarrow> bytes" where
  "arg_string J kv = ''<arg_key>'' @ fst kv @ ''</arg_key><arg_value>'' @ arg_text J (snd kv) @ ''</arg_value>''"

lemma append_args_obj: "append_args J (JObj ms) = concat (map (arg_string J) ms)"
  by (auto simp: append_args_def arg_string_def intro!: arg_cong [where f = concat])

definition plain_arg :: "JsonLib \<Rightarrow> bytes \<times> json \<Rightarrow> bool" where
  "plain_arg J kv \<longleftrightarrow> plain (fst kv) \<and> plain (arg_text J (snd kv))"

text \<open>The four tags of an argument.\<close>

definition tAK :: bytes where "tAK = ''<arg_key>''"
definition tAKe :: bytes where "tAKe = ''</arg_key>''"
definition tAV :: bytes where "tAV = ''<arg_value>''"
definition tAVe :: bytes where "tAVe = ''</arg_value>''"

lemmas arg_tag_defs = tAK_def tAKe_def tAV_def tAVe_def

lemma arg_tags_like: "tag_like tAK" "tag_like tAKe" "tag_like tAV" "tag_like tAVe" "tag_like kToolEnd"
  by (simp_all add: arg_tag_defs kToolEnd_def tag_like_def plain_def)

lemma tag_like_pat: "tag_like t \<Longrightarrow> t \<noteq> [] \<and> hd t = CHR ''<''"
  by (simp add: tag_like_def)

lemma arg_string_alt: "arg_string J kv = tAK @ fst kv @ tAKe @ tAV @ arg_text J (snd kv) @ tAVe"
  by (simp add: arg_string_def arg_tag_defs)

lemma skip_tag:
  assumes "take (length pat) (tag @ rest) \<noteq> pat" and "tag_like tag" and "tag_like pat"
    and "find_str pat rest = map_option ((+) n) x"
  shows "find_str pat (tag @ rest) = map_option ((+) (length tag + n)) x"
  using find_str_tag [OF assms(1,2)] tag_like_pat [OF assms(3)] assms(4)
  by (simp add: map_option_plus)

lemma skip_plain:
  assumes "plain s" and "tag_like pat" and "find_str pat rest = map_option ((+) n) x"
  shows "find_str pat (s @ rest) = map_option ((+) (length s + n)) x"
  using find_str_plain [OF assms(1)] tag_like_pat [OF assms(2)] assms(3)
  by (simp add: map_option_plus)

lemma find_tool_end_arg:
  assumes "plain_arg J kv"
  shows "find_str kToolEnd (arg_string J kv @ rest) =
    map_option ((+) (length (arg_string J kv))) (find_str kToolEnd rest)"
proof -
  let ?k = "fst kv" and ?v = "arg_text J (snd kv)"
  have p: "plain ?k" "plain ?v" using assms by (simp_all add: plain_arg_def)
  have ne: "take (length kToolEnd) (t @ r) \<noteq> kToolEnd" if "t \<in> {tAK, tAKe, tAV, tAVe}" for t r
    using that by (auto simp: kToolEnd_def arg_tag_defs)
  note e = arg_tags_like(5)
  have z: "find_str kToolEnd rest = map_option ((+) 0) (find_str kToolEnd rest)"
    by (cases "find_str kToolEnd rest") simp_all
  have "find_str kToolEnd (tAK @ ?k @ tAKe @ tAV @ ?v @ tAVe @ rest) = map_option ((+)
      (length tAK + (length ?k + (length tAKe + (length tAV + (length ?v + (length tAVe + 0)))))))
      (find_str kToolEnd rest)"
    by (rule skip_tag [OF ne arg_tags_like(1) e skip_plain [OF p(1) e
      skip_tag [OF ne arg_tags_like(2) e skip_tag [OF ne arg_tags_like(3) e
        skip_plain [OF p(2) e skip_tag [OF ne arg_tags_like(4) e z]]]]]]) simp_all
  then show ?thesis by (simp add: arg_string_alt add.assoc)
qed

lemma find_tool_end_args:
  assumes "\<forall>kv \<in> set ms. plain_arg J kv"
  shows "find_str kToolEnd (concat (map (arg_string J) ms) @ kToolEnd @ rest) =
    Some (length (concat (map (arg_string J) ms)))"
  using assms
proof (induction ms)
  case Nil
  show ?case using find_str_here [of kToolEnd rest] tag_like_pat [OF arg_tags_like(5)] by simp
next
  case (Cons kv ms)
  then show ?case using find_tool_end_arg [of J kv] by simp
qed

text \<open>Reading the arguments back.\<close>

lemma find_from_at:
  "find_str pat rest = Some n \<Longrightarrow> find_from pat (pre @ rest) (length pre) = Some (length pre + n)"
  by (simp add: find_from_def)

lemma find_after_plain:
  assumes "plain s" and "tag_like tag"
  shows "find_str tag (s @ tag @ rest) = Some (length s)"
  using find_str_plain [OF assms(1)] tag_like_pat [OF assms(2)] find_str_here [of tag rest] by simp

definition read_arg :: "JsonLib \<Rightarrow> bytes \<Rightarrow> json" where
  "read_arg J val = (case js_parse J val of Some v \<Rightarrow> v | None \<Rightarrow> JStr val)"

lemma args_loop_end: "find_str tAK rest = None \<Longrightarrow> args_loop J (pre @ rest) (length pre) acc = acc"
  by (subst args_loop.simps) (simp add: find_from_def tAK_def)

lemma args_loop_arg:
  assumes p: "plain_arg J kv"
  shows "args_loop J (pre @ arg_string J kv @ rest) (length pre) acc =
    args_loop J ((pre @ arg_string J kv) @ rest) (length (pre @ arg_string J kv))
      (set_member (fst kv) (read_arg J (arg_text J (snd kv))) acc)"
proof -
  let ?k = "fst kv" and ?v = "arg_text J (snd kv)"
  let ?body = "pre @ arg_string J kv @ rest"
  from p have pl: "plain ?k" "plain ?v" by (simp_all add: plain_arg_def)
  note tl = arg_tags_like
  have b0: "?body = pre @ tAK @ ?k @ tAKe @ tAV @ ?v @ tAVe @ rest" by (simp add: arg_string_alt)
  have f1: "find_from tAK ?body (length pre) = Some (length pre)"
    using find_from_at [of tAK "tAK @ ?k @ tAKe @ tAV @ ?v @ tAVe @ rest" 0 pre]
      find_str_here [of tAK] tag_like_pat [OF tl(1)] unfolding b0 by simp
  let ?ke = "length pre + (length tAK + length ?k)"
  have "find_str tAKe (tAK @ ?k @ tAKe @ tAV @ ?v @ tAVe @ rest) = Some (length tAK + length ?k)"
  proof -
    have "take (length tAKe) (tAK @ r) \<noteq> tAKe" for r by (simp add: arg_tag_defs)
    from find_str_tag [OF this tl(1)] tag_like_pat [OF tl(2)] find_after_plain [OF pl(1) tl(2)]
    show ?thesis by simp
  qed
  then have f2: "find_from tAKe ?body (length pre) = Some ?ke"
    unfolding b0 by (rule find_from_at)
  let ?pre2 = "pre @ tAK @ ?k" and ?av = "?ke + length tAKe"
  have b2: "?body = ?pre2 @ tAKe @ tAV @ ?v @ tAVe @ rest" by (simp add: b0)
  have "find_str tAV (tAKe @ tAV @ ?v @ tAVe @ rest) = Some (length tAKe)"
  proof -
    have "take (length tAV) (tAKe @ r) \<noteq> tAV" for r by (simp add: arg_tag_defs)
    from find_str_tag [OF this tl(2)] tag_like_pat [OF tl(3)] find_str_here [of tAV]
    show ?thesis by simp
  qed
  from find_from_at [OF this, of ?pre2] have f3: "find_from tAV ?body ?ke = Some ?av"
    unfolding b2 by (simp add: add.assoc)
  let ?pre3 = "pre @ tAK @ ?k @ tAKe" and ?ve = "?av + (length tAV + length ?v)"
  have b3: "?body = ?pre3 @ tAV @ ?v @ tAVe @ rest" by (simp add: b0)
  have "find_str tAVe (tAV @ ?v @ tAVe @ rest) = Some (length tAV + length ?v)"
  proof -
    have "take (length tAVe) (tAV @ r) \<noteq> tAVe" for r by (simp add: arg_tag_defs)
    from find_str_tag [OF this tl(3)] tag_like_pat [OF tl(4)] find_after_plain [OF pl(2) tl(4)]
    show ?thesis by simp
  qed
  from find_from_at [OF this, of ?pre3] have f4: "find_from tAVe ?body ?av = Some ?ve"
    unfolding b3 by (simp add: add.assoc)
  have key: "substr (length pre + 9) (?ke - length pre - 9) ?body = ?k"
    by (simp add: substr_def b0 tAK_def)
  have val: "substr (?av + 11) (?ve - ?av - 11) ?body = ?v"
  proof -
    have "?av + 11 = length (?pre3 @ tAV)" by (simp add: tAV_def)
    moreover have "?body = (?pre3 @ tAV) @ ?v @ tAVe @ rest" by (simp add: b0)
    ultimately have "drop (?av + 11) ?body = ?v @ tAVe @ rest" by (metis append_eq_conv_conj)
    moreover have "?ve - ?av - 11 = length ?v" by (simp add: tAV_def)
    ultimately show ?thesis by (simp add: substr_def)
  qed
  have nxt: "?ve + 12 = length (pre @ arg_string J kv)"
    by (simp add: arg_string_alt arg_tag_defs)
  show ?thesis
    unfolding nxt [symmetric]
    using f1 f2 f3 f4 key val
    by (subst args_loop.simps)
      (simp add: arg_tag_defs Let_def read_arg_def del: find_str.simps)
qed

lemma args_loop_rendered:
  "\<forall>kv \<in> set ms. plain_arg J kv \<Longrightarrow>
   args_loop J (pre @ concat (map (arg_string J) ms)) (length pre) acc =
     fold (\<lambda>kv. set_member (fst kv) (read_arg J (arg_text J (snd kv)))) ms acc"
proof (induction ms arbitrary: pre acc)
  case Nil
  show ?case using args_loop_end [of "[]"] by (simp add: tAK_def)
next
  case (Cons kv ms)
  from args_loop_arg [of J kv pre "concat (map (arg_string J) ms)" acc] Cons.prems
    Cons.IH [of "pre @ arg_string J kv"]
  show ?case by simp
qed

lemma fold_set_member_new:
  assumes "distinct (map fst ms)" and "\<forall>kv \<in> set ms. f kv = snd kv" and "fst ` set ms \<inter> fst ` set acc = {}"
  shows "fold (\<lambda>kv. set_member (fst kv) (f kv)) ms acc = acc @ ms"
  using assms
proof (induction ms arbitrary: acc)
  case (Cons kv ms)
  have "set_member (fst kv) (f kv) acc = acc @ [kv]"
    using Cons.prems by (subst set_member_new) auto
  moreover have "fst ` set ms \<inter> fst ` set (acc @ [kv]) = {}"
    using Cons.prems by auto
  ultimately show ?case using Cons.IH [of "acc @ [kv]"] Cons.prems by simp
qed simp

definition faithful_arg :: "JsonLib \<Rightarrow> bytes \<times> json \<Rightarrow> bool" where
  "faithful_arg J kv \<longleftrightarrow> plain_arg J kv \<and> read_arg J (arg_text J (snd kv)) = snd kv"

lemma args_roundtrip:
  assumes "plain nm" and "\<forall>kv \<in> set ms. faithful_arg J kv" and "distinct (map fst ms)"
  shows "args_to_json J (nm @ append_args J (JObj ms)) = js_dump J (JObj ms)"
    and "strip_ws nm = nm \<Longrightarrow> tool_name_of (nm @ append_args J (JObj ms)) = nm"
proof -
  let ?A = "concat (map (arg_string J) ms)"
  have pl: "\<forall>kv \<in> set ms. plain_arg J kv" using assms(2) by (auto simp: faithful_arg_def)
  have first: "args_loop J (nm @ ?A) 0 [] = args_loop J (nm @ ?A) (length nm) []"
  proof (cases ms)
    case Nil
    have "find_str tAK (nm @ []) = None"
      using find_str_plain [OF assms(1), of tAK "[]"] by (simp add: tAK_def)
    with args_loop_end [of nm J "[]" "[]"] args_loop_end [of "[]" J nm "[]"] Nil show ?thesis
      by (simp add: tAK_def)
  next
    case (Cons kv qs)
    have "?A = tAK @ drop (length tAK) ?A" by (simp add: Cons arg_string_alt)
    then have f: "find_str tAK (nm @ ?A) = Some (length nm)" "find_str tAK ?A = Some 0"
      using find_after_plain [OF assms(1) arg_tags_like(1)] find_str_here [of tAK] tag_like_pat [OF arg_tags_like(1)]
      by metis+
    then have "find_from tAK (nm @ ?A) 0 = Some (length nm)" "find_from tAK (nm @ ?A) (length nm) = Some (length nm)"
      by (simp_all add: find_from_def)
    then show ?thesis
      by (subst (1 2) args_loop.simps) (simp add: tAK_def)
  qed
  have "args_loop J (nm @ ?A) (length nm) [] = [] @ ms"
    using args_loop_rendered [OF pl, of nm "[]"] fold_set_member_new [OF assms(3), of "\<lambda>kv. read_arg J (arg_text J (snd kv))" "[]"]
      assms(2) by (simp add: faithful_arg_def)
  with first show "args_to_json J (nm @ append_args J (JObj ms)) = js_dump J (JObj ms)"
    by (simp add: args_to_json_def append_args_obj)
  assume st: "strip_ws nm = nm"
  show "tool_name_of (nm @ append_args J (JObj ms)) = nm"
  proof (cases ms)
    case Nil
    have "find_str tAK (nm @ []) = None"
      using find_str_plain [OF assms(1), of tAK "[]"] by (simp add: tAK_def)
    with st Nil show ?thesis by (simp add: tool_name_of_def append_args_obj tAK_def)
  next
    case (Cons kv qs)
    have "?A = tAK @ drop (length tAK) ?A" by (simp add: Cons arg_string_alt)
    then have "find_str tAK (nm @ ?A) = Some (length nm)"
      using find_after_plain [OF assms(1) arg_tags_like(1)] by metis
    with st show ?thesis by (simp add: tool_name_of_def append_args_obj tAK_def)
  qed
qed

section \<open>Reading rendered calls back\<close>

lemma mark_like: "m \<in> set hold_marks \<Longrightarrow> m \<noteq> [] \<and> hd m = CHR ''<''"
  using hold_marks_shape by auto

lemma find_mark_at:
  assumes "plain c" and m: "m \<in> set text_marks"
  shows "find_mark text_marks (lim0 (c @ m @ r)) (c @ m @ r) = Some (length c, m)"
proof -
  let ?s = "c @ m @ r"
  have e: "tags.earliest text_marks ?s (length c, m)"
  proof -
    have sh: "find_str m' ?s = map_option ((+) (length c)) (find_str m' (m @ r))"
      if "m' \<in> set text_marks" for m'
      using find_str_plain [OF assms(1)] mark_like text_marks_sub that by blast
    have "find_str m (m @ r) = Some 0"
      by (rule find_str_here) (use text_marks_nonempty [OF m] in simp)
    with sh [OF m] m sh show ?thesis by (auto simp: tags.earliest_def)
  qed
  from tags.find_mark_cases [OF text_marks_sub, of ?s "lim0 ?s"]
  show ?thesis
  proof (cases "find_mark text_marks (lim0 ?s) ?s")
    case None
    with tags.find_mark_cases [OF text_marks_sub, of ?s "lim0 ?s"] e show ?thesis
      by (auto simp: holdback_len_def tags.earliest_def)
  next
    case (Some x)
    with tags.find_mark_cases [OF text_marks_sub, of ?s "lim0 ?s"]
    have "tags.earliest text_marks ?s x" by (simp add: holdback_len_def)
    with tags.earliest_unique [OF text_marks_sub e] Some show ?thesis by (cases x) auto
  qed
qed

lemma find_mark_plain:
  assumes "plain c"
  shows "find_mark text_marks l c = None" and "holdback_len c = 0"
proof -
  have n: "find_str m c = None" if "m \<in> set text_marks" for m
    using find_str_plain [OF assms, of m "[]"] mark_like text_marks_sub that by fastforce
  show "find_mark text_marks l c = None"
  proof (cases "find_mark text_marks l c")
    case (Some x)
    obtain f m where "x = (f, m)" by fastforce
    with find_mark_mem(1,2) [of text_marks l c f m] Some n show ?thesis by simp
  qed simp
  have "\<not> is_hold hold_marks c k" for k
  proof
    assume "is_hold hold_marks c k"
    then obtain m where k: "1 \<le> k" "k \<le> length c" and m: "m \<in> set hold_marks" "k < length m"
      "drop (length c - k) c = take k m" unfolding is_hold_def by blast
    have "hd (take k m) = CHR ''<''" using mark_like [OF m(1)] k by (cases m; cases k) auto
    moreover have "hd (drop (length c - k) c) \<in> set c"
      using k by (metis diff_is_0_eq' drop_eq_Nil hd_in_set in_set_dropD le_zero_eq
        diff_diff_cancel length_drop not_one_le_zero list.size(3))
    ultimately show False using assms m(3) by (simp add: plain_def)
  qed
  with holdback_is [of hold_marks c] show "holdback_len c = 0" by (auto simp: holdback_len_def)
qed

definition call_members :: "JsonLib \<Rightarrow> ToolCall \<Rightarrow> (bytes \<times> json) list" where
  "call_members J tc = members (call_args J (tc_arguments tc))"

lemma call_args_obj: "call_args J a = JObj (members (call_args J a))"
  by (simp add: call_args_def split: option.splits json.splits)

definition faithful_call :: "JsonLib \<Rightarrow> ToolCall \<Rightarrow> bool" where
  "faithful_call J tc \<longleftrightarrow> plain (tc_name tc) \<and> strip_ws (tc_name tc) = tc_name tc \<and>
     (\<forall>kv \<in> set (call_members J tc). faithful_arg J kv) \<and> distinct (map fst (call_members J tc))"

definition read_call :: "JsonLib \<Rightarrow> nat \<Rightarrow> ToolCall \<Rightarrow> ToolCall" where
  "read_call J n tc = \<lparr>tc_id = tool_id_for n, tc_name = tc_name tc,
     tc_arguments = js_dump J (JObj (call_members J tc))\<rparr>"

text \<open>One rendered call, whatever is behind it, becomes one recorded call.\<close>

lemma drain_call:
  assumes f: "faithful_call J tc" and t: "\<not> p_in_tool p" and c: "plain c"
    and b: "p_buf p = c @ render_call J tc @ r"
  shows "\<exists>q. drain J False p = drain J False q \<and> p_buf q = r \<and> \<not> p_in_tool q \<and>
    p_in_think q = p_in_think p \<and>
    p_out q = (p_out (emit_text c p))\<lparr>po_tool_calls := po_tool_calls (p_out p) @
      [read_call J (length (po_tool_calls (p_out p))) tc]\<rparr>"
proof -
  let ?ms = "call_members J tc"
  let ?body = "tc_name tc @ append_args J (JObj ?ms)"
  have r: "render_call J tc = kToolBegin @ ?body @ kToolEnd"
    using call_args_obj [of J "tc_arguments tc"]
    by (simp add: render_call_def kToolBegin_def kToolEnd_def call_members_def)
  have buf: "p_buf p = c @ kToolBegin @ (?body @ kToolEnd @ r)" by (simp add: b r)
  have km: "kToolBegin \<in> set text_marks" by (simp add: text_marks_def)
  from find_mark_at [OF c km] have fm: "find_mark text_marks (lim0 (p_buf p)) (p_buf p) = Some (length c, kToolBegin)"
    unfolding buf .
  let ?p1 = "(emit_text c (p\<lparr>p_buf := ?body @ kToolEnd @ r\<rparr>))\<lparr>p_in_tool := True, p_tool_body := []\<rparr>"
  have "kToolBegin \<noteq> kThinkEnd" by (simp add: kToolBegin_def kThinkEnd_def)
  then have d1: "drain J False p = drain J False ?p1"
    using drain_text_Some [OF t fm, of J] by (simp add: after_mark_def buf)
  from f have pl: "plain (tc_name tc)" and st: "strip_ws (tc_name tc) = tc_name tc"
    and fa: "\<forall>kv \<in> set ?ms. faithful_arg J kv" and ds: "distinct (map fst ?ms)"
    by (simp_all add: faithful_call_def)
  have fe: "find_str kToolEnd (p_buf ?p1) = Some (length ?body)"
    using find_tool_end_args [of ?ms J r] find_str_plain [OF pl, of kToolEnd] fa tag_like_pat [OF arg_tags_like(5)]
    by (simp add: append_args_obj faithful_arg_def)
  let ?q = "emit_tool J (?p1\<lparr>p_tool_body := ?body, p_buf := r\<rparr>)"
  have "drain J False ?p1 = drain J False ?q"
    using drain_tool_Some [OF _ fe, of J False] by simp
  with d1 have "drain J False p = drain J False ?q" by simp
  moreover have "p_out ?q = (p_out (emit_text c p))\<lparr>po_tool_calls := po_tool_calls (p_out p) @
      [read_call J (length (po_tool_calls (p_out p))) tc]\<rparr>"
    using args_roundtrip [OF pl fa ds] st
    by (simp add: emit_tool_def Let_def read_call_def emit_text_def)
  moreover have "p_in_think ?q = p_in_think p" by (simp add: emit_tool_def Let_def)
  ultimately show ?thesis by (intro exI [of _ ?q]) simp
qed

lemma drain_calls:
  assumes "\<forall>tc \<in> set tcs. faithful_call J tc" and "\<not> p_in_tool p"
    and "p_buf p = concat (map (render_call J) tcs)"
  shows "p_buf (drain J False p) = [] \<and> \<not> p_in_tool (drain J False p) \<and>
    p_out (drain J False p) = (p_out p)\<lparr>po_tool_calls := po_tool_calls (p_out p) @
      map (\<lambda>(i, tc). read_call J i tc) (List.enumerate (length (po_tool_calls (p_out p))) tcs)\<rparr>"
  using assms
proof (induction tcs arbitrary: p)
  case (Cons tc tcs)
  from drain_call [of J tc p "[]" "concat (map (render_call J) tcs)"] Cons.prems
  obtain q where q: "drain J False p = drain J False q" "p_buf q = concat (map (render_call J) tcs)"
    "\<not> p_in_tool q" "p_out q = (p_out (emit_text [] p))\<lparr>po_tool_calls := po_tool_calls (p_out p) @
      [read_call J (length (po_tool_calls (p_out p))) tc]\<rparr>"
    by (auto simp: plain_def)
  from Cons.IH [of q] q Cons.prems(1) show ?case by (simp add: emit_text_def)
qed simp

section \<open>Histories and observations\<close>

definition no_reason :: "ChatMsg \<Rightarrow> ChatMsg" where
  "no_reason m = m\<lparr>m_reasoning := []\<rparr>"

lemma no_reason_sel [simp]: "m_role (no_reason m) = m_role m" "m_content (no_reason m) = m_content m"
  "m_tool_calls (no_reason m) = m_tool_calls m" "m_tool_call_id (no_reason m) = m_tool_call_id m"
  "tool_response (no_reason m) = tool_response m"
  by (simp_all add: no_reason_def tool_response_def)

lemma last_user_no_reason: "last_user (map no_reason ms) = last_user ms"
  unfolding last_user_def by (rule fold_cong) auto

lemma tool_run_no_reason: "i < length ms \<Longrightarrow> tool_run (map no_reason ms) i = map no_reason (tool_run ms i)"
  by (simp add: tool_run_def takeWhile_map drop_map comp_def)

lemma run_order_no_reason: "i < length ms \<Longrightarrow> run_order (map no_reason ms) i = run_order ms i"
  by (cases i) (simp_all add: run_order_def tool_run_no_reason Let_def)

lemma run_messages_no_reason:
  "i < length ms \<Longrightarrow> run_messages (map no_reason ms) i = map no_reason (run_messages ms i)"
  by (simp add: run_messages_def run_order_no_reason tool_run_no_reason filter_map comp_def map_concat
      split: option.splits)

lemma render_msg_no_reason:
  assumes "i < length ms" and "m_role (ms ! i) = ''assistant'' \<Longrightarrow> int i \<le> last_user ms"
  shows "render_msg J (map no_reason ms) i = render_msg J ms i"
proof (cases "m_role (ms ! i) = ''assistant''")
  case True
  with assms show ?thesis
    by (simp add: render_msg_def Let_def last_user_no_reason render_assistant_def)
next
  case False
  have "m_role (map no_reason ms ! (i - 1)) = m_role (ms ! (i - 1))" using assms(1) by simp
  with False assms(1) show ?thesis
    by (simp add: render_msg_def Let_def run_messages_no_reason comp_def)
qed

lemma mset_by_key:
  assumes "distinct ks"
  shows "mset (concat (map (\<lambda>k. filter (\<lambda>m. f m = k) xs) ks)) = mset (filter (\<lambda>m. f m \<in> set ks) xs)"
  using assms
proof (induction ks)
  case (Cons k ks)
  have "mset (filter (\<lambda>m. f m = k) xs) + mset (filter (\<lambda>m. f m \<in> set ks) xs) =
      mset (filter (\<lambda>m. f m \<in> set (k # ks)) xs)"
    using Cons.prems by (induction xs) auto
  with Cons show ?case by simp
qed simp

section \<open>Properties\<close>

text \<open>C32: Tool calls survive the round trip through the template: text without an opening bracket
  followed by rendered calls is parsed back into that text and the same calls, in order, with
  fresh ids and with the arguments the JSON library prints for the same object.  Needed of each
  call: name, keys and printed values hold no opening bracket, keys are distinct, and the library
  reads each printed value back (for a string value: does not take it for other JSON).\<close>

theorem tool_calls_roundtrip:
  assumes "plain c" and "\<forall>tc \<in> set tcs. faithful_call J tc"
  shows "parse_output J (c @ concat (map (render_call J) tcs)) False =
    \<lparr>po_reasoning = [], po_content = c,
     po_tool_calls = map (\<lambda>(i, tc). read_call J i tc) (List.enumerate 0 tcs)\<rparr>"
proof -
  let ?p = "(OutputParser_new False)\<lparr>p_buf := c @ concat (map (render_call J) tcs)\<rparr>"
  have fd: "fst (feed J (OutputParser_new False) (c @ concat (map (render_call J) tcs))) = drain J False ?p"
    by (simp add: feed_def Let_def OutputParser_new_def)
  have "p_buf (drain J False ?p) = [] \<and> \<not> p_in_tool (drain J False ?p) \<and>
    p_out (drain J False ?p) = \<lparr>po_reasoning = [], po_content = c,
     po_tool_calls = map (\<lambda>(i, tc). read_call J i tc) (List.enumerate 0 tcs)\<rparr>"
  proof (cases tcs)
    case Nil
    have "drain J False ?p = emit_text c (?p\<lparr>p_buf := []\<rparr>)"
      using drain_text_None [of ?p J] find_mark_plain [OF assms(1)] Nil by (simp add: OutputParser_new_def)
    with Nil show ?thesis by (simp add: OutputParser_new_def emit_text_def)
  next
    case (Cons tc qs)
    with drain_call [of J tc ?p c "concat (map (render_call J) qs)"] assms
    obtain q where q: "drain J False ?p = drain J False q" "p_buf q = concat (map (render_call J) qs)"
      "\<not> p_in_tool q" "p_out q = (p_out (emit_text c ?p))\<lparr>po_tool_calls := po_tool_calls (p_out ?p) @
      [read_call J (length (po_tool_calls (p_out ?p))) tc]\<rparr>"
      by (auto simp: OutputParser_new_def)
    from drain_calls [of qs J q] q assms(2) Cons show ?thesis
      by (simp add: OutputParser_new_def emit_text_def)
  qed
  then show ?thesis
    unfolding parse_output_def fd by (simp add: finish_def Let_def)
qed

definition demo_lib :: JsonLib where
  "demo_lib = \<lparr>js_parse = (\<lambda>s. if s = ''{}'' then Some (JObj [])
       else if s = ''A'' then Some (JObj [(''city'', JStr ''Paris'')]) else None),
     js_dump = (\<lambda>_. ''A'')\<rparr>"

theorem tool_calls_roundtrip_witness:
  "parse_output demo_lib (''Hi '' @ concat (map (render_call demo_lib)
     [\<lparr>tc_id = ''x'', tc_name = ''weather'', tc_arguments = ''A''\<rparr>])) False =
   \<lparr>po_reasoning = [], po_content = ''Hi '',
    po_tool_calls = [\<lparr>tc_id = ''call_0'', tc_name = ''weather'', tc_arguments = ''A''\<rparr>]\<rparr>"
proof -
  let ?tc = "\<lparr>tc_id = ''x'', tc_name = ''weather'', tc_arguments = ''A''\<rparr>"
  have m: "call_members demo_lib ?tc = [(''city'', JStr ''Paris'')]"
    by (simp add: call_members_def call_args_def demo_lib_def)
  have "faithful_call demo_lib ?tc"
    unfolding faithful_call_def m
    by (simp add: faithful_arg_def plain_arg_def plain_def read_arg_def arg_text_def
        demo_lib_def strip_ws_def is_ws_def)
  moreover have "tool_id_for 0 = ''call_0''"
    by code_simp
  moreover have "read_call demo_lib 0 ?tc = \<lparr>tc_id = tool_id_for 0, tc_name = ''weather'', tc_arguments = ''A''\<rparr>"
    by (simp add: read_call_def demo_lib_def)
  ultimately show ?thesis
    using tool_calls_roundtrip [of "''Hi ''" "[?tc]" demo_lib] by (simp add: plain_def)
qed

text \<open>History is cleared: the prompt does not depend on the reasoning of any message up to the
  last user turn.\<close>

theorem history_reasoning_cleared:
  assumes "length ms' = length ms" and "map no_reason ms' = map no_reason ms"
    and "\<forall>i < length ms. last_user ms < int i \<longrightarrow> ms' ! i = ms ! i"
  shows "render_chat J ms' tools effort add_prompt thinking = render_chat J ms tools effort add_prompt thinking"
proof -
  have lu: "last_user ms' = last_user ms" using last_user_no_reason assms(2) by metis
  have "render_msg J ms' i = render_msg J ms i" if i: "i < length ms" for i
  proof (cases "m_role (ms ! i) = ''assistant'' \<and> last_user ms < int i")
    case True
    with assms(3) i have "ms' ! i = ms ! i" by simp
    with True lu show ?thesis by (simp add: render_msg_def Let_def)
  next
    case False
    have r: "m_role (ms' ! i) = m_role (ms ! i)"
      using assms(1,2) i by (metis nth_map no_reason_sel(1))
    have "render_msg J ms' i = render_msg J (map no_reason ms') i"
      by (rule render_msg_no_reason [symmetric]) (use assms(1) i False r lu in auto)
    also have "\<dots> = render_msg J ms i"
      unfolding assms(2) by (rule render_msg_no_reason) (use i False in auto)
    finally show ?thesis .
  qed
  then have "map (render_msg J ms') [0..<length ms'] = map (render_msg J ms) [0..<length ms]"
    using assms(1) by simp
  then show ?thesis by (simp only: render_chat_def)
qed

definition demo_msg :: "bytes \<Rightarrow> bytes \<Rightarrow> bytes \<Rightarrow> ChatMsg" where
  "demo_msg r c t = \<lparr>m_role = r, m_content = c, m_reasoning = t, m_tool_calls = [], m_tool_call_id = []\<rparr>"

theorem history_reasoning_cleared_witness:
  "render_chat demo_lib [demo_msg ''assistant'' ''4'' ''two and two'', demo_msg ''user'' ''why?'' []] JNull [] True True =
   render_chat demo_lib [demo_msg ''assistant'' ''4'' [], demo_msg ''user'' ''why?'' []] JNull [] True True"
  by (rule history_reasoning_cleared)
    (simp_all add: demo_msg_def no_reason_def last_user_def less_Suc_eq upt_rec)



end
