(* ===== verification/Utf8.thy ===== *)
theory Utf8
  imports Main Helios_Prelude "HOL-Library.Sublist"
begin

text \<open>
  UTF-8 boundaries (\<^verbatim>\<open>src/engine/utf8.hpp\<close>) and the incremental decoder of the server
  (\<^verbatim>\<open>Utf8Streamer\<close> of \<^verbatim>\<open>src/engine/server.cpp\<close>).  The index \<^verbatim>\<open>i\<close> of the scans is modelled by the
  rest of the string; \<open>whole\<close> is the shape the scans look for, \<open>strict_char\<close> the table of RFC 3629.
\<close>

unbundle bit_operations_syntax

section \<open>Scans\<close>

definition utf8_seq_len :: "char \<Rightarrow> nat" where
  "utf8_seq_len c =
     (let b = byte_val c in
      if b < 0x80 then 1
      else if b AND 0xE0 = 0xC0 then 2
      else if b AND 0xF0 = 0xE0 then 3
      else if b AND 0xF8 = 0xF0 then 4
      else 0)"

definition is_cont :: "char \<Rightarrow> bool" where
  "is_cont c \<longleftrightarrow> byte_val c AND 0xC0 = 0x80"

function utf8_complete_prefix :: "bytes \<Rightarrow> nat" where
  "utf8_complete_prefix s =
     (if s = [] then 0
      else (let need = utf8_seq_len (hd s) in
        if need = 0 then 0
        else if length s < need then 0
        else if \<not> list_all is_cont (take (need - 1) (tl s)) then 0
        else need + utf8_complete_prefix (drop need s)))"
  by pat_completeness auto
termination
  by (relation "measure length") auto

declare utf8_complete_prefix.simps [simp del]

definition replacement :: bytes where
  "replacement = [char_of (0xEF::nat), char_of (0xBF::nat), char_of (0xBD::nat)]"

function utf8_sanitize :: "bytes \<Rightarrow> bytes" where
  "utf8_sanitize s =
     (if s = [] then []
      else (let n = utf8_seq_len (hd s) in
        if n = 0 then replacement @ utf8_sanitize (tl s)
        else if length s < n then replacement
        else if \<not> list_all is_cont (take (n - 1) (tl s)) then replacement @ utf8_sanitize (tl s)
        else take n s @ utf8_sanitize (drop n s)))"
  by pat_completeness auto
termination
  by (relation "measure length") auto

declare utf8_sanitize.simps [simp del]

section \<open>Whole characters\<close>

definition utf8_char :: "bytes \<Rightarrow> bool" where
  "utf8_char cs \<longleftrightarrow> cs \<noteq> [] \<and> utf8_seq_len (hd cs) = length cs \<and> list_all is_cont (tl cs)"

inductive whole :: "bytes \<Rightarrow> bool" where
  whole_Nil: "whole []"
| whole_char: "utf8_char c \<Longrightarrow> whole s \<Longrightarrow> whole (c @ s)"

text \<open>The scan sees a character exactly when one begins the string.\<close>

lemma head_char_iff:
  assumes "s \<noteq> []"
  shows "utf8_seq_len (hd s) \<noteq> 0 \<and> utf8_seq_len (hd s) \<le> length s \<and>
      list_all is_cont (take (utf8_seq_len (hd s) - 1) (tl s)) \<longleftrightarrow>
    (\<exists>c t. s = c @ t \<and> utf8_char c)"
proof
  let ?n = "utf8_seq_len (hd s)"
  assume l: "?n \<noteq> 0 \<and> ?n \<le> length s \<and> list_all is_cont (take (?n - 1) (tl s))"
  then obtain k where k: "?n = Suc k" by (cases ?n) auto
  have "utf8_char (take ?n s)"
    using l assms k by (cases s) (simp_all add: utf8_char_def)
  then show "\<exists>c t. s = c @ t \<and> utf8_char c" by (metis append_take_drop_id)
next
  assume "\<exists>c t. s = c @ t \<and> utf8_char c"
  then obtain c t where c: "s = c @ t" "utf8_char c" by blast
  then obtain b r where b: "c = b # r" by (cases c) (auto simp: utf8_char_def)
  with c show "utf8_seq_len (hd s) \<noteq> 0 \<and> utf8_seq_len (hd s) \<le> length s \<and>
      list_all is_cont (take (utf8_seq_len (hd s) - 1) (tl s))"
    by (simp add: utf8_char_def)
qed

lemma prefix_char:
  assumes "utf8_char c"
  shows "utf8_complete_prefix (c @ t) = length c + utf8_complete_prefix t"
    and "utf8_sanitize (c @ t) = c @ utf8_sanitize t"
proof -
  from assms have ne: "c @ t \<noteq> []" and cn: "c \<noteq> []" and lc: "utf8_seq_len (hd c) = length c"
    and l: "utf8_seq_len (hd (c @ t)) = length c"
    by (auto simp: utf8_char_def)
  have "\<exists>c' t'. c @ t = c' @ t' \<and> utf8_char c'" using assms by blast
  with head_char_iff [OF ne] have h: "length c \<noteq> 0" "length c \<le> length (c @ t)"
    "list_all is_cont (take (length c - 1) (tl (c @ t)))" unfolding l by blast+
  show "utf8_complete_prefix (c @ t) = length c + utf8_complete_prefix t"
    using ne h by (subst utf8_complete_prefix.simps) (simp add: lc cn Let_def)
  show "utf8_sanitize (c @ t) = c @ utf8_sanitize t"
    using ne h by (subst utf8_sanitize.simps) (simp add: lc cn Let_def)
qed

lemma prefix_no_char:
  assumes "\<nexists>c t. s = c @ t \<and> utf8_char c"
  shows "utf8_complete_prefix s = 0"
proof (cases "s = []")
  case False
  with head_char_iff [OF False] assms show ?thesis
    by (subst utf8_complete_prefix.simps) (auto simp: Let_def)
qed (simp add: utf8_complete_prefix.simps)

lemma char_unique:
  assumes "c @ t = c' @ t'" and "utf8_char c" and "utf8_char c'"
  shows "c = c' \<and> t = t'"
proof -
  from assms have "hd c = hd c'" by (cases c; cases c') (auto simp: utf8_char_def)
  with assms(2,3) have "length c = length c'" by (simp add: utf8_char_def)
  with assms(1) show ?thesis by simp
qed

lemma whole_append: "whole a \<Longrightarrow> whole b \<Longrightarrow> whole (a @ b)"
  by (induction rule: whole.induct) (auto intro: whole.intros)

lemma prefix_wf_append: "whole a \<Longrightarrow> utf8_complete_prefix (a @ b) = length a + utf8_complete_prefix b"
  by (induction rule: whole.induct) (simp_all add: prefix_char)

lemma wf_prefix_part: "whole (take (utf8_complete_prefix s) s)"
proof (induction "length s" arbitrary: s rule: less_induct)
  case less
  show ?case
  proof (cases "\<exists>c t. s = c @ t \<and> utf8_char c")
    case True
    then obtain c t where c: "s = c @ t" "utf8_char c" by blast
    then have "length t < length s" by (auto simp: utf8_char_def)
    from less [OF this] c show ?thesis by (simp add: prefix_char whole_char)
  next
    case False
    then show ?thesis by (simp add: prefix_no_char whole_Nil)
  qed
qed

lemma prefix_le: "utf8_complete_prefix s \<le> length s"
proof (induction "length s" arbitrary: s rule: less_induct)
  case less
  show ?case
  proof (cases "\<exists>c t. s = c @ t \<and> utf8_char c")
    case True
    then obtain c t where c: "s = c @ t" "utf8_char c" by blast
    then have "length t < length s" by (auto simp: utf8_char_def)
    from less [OF this] c show ?thesis by (simp add: prefix_char)
  next
    case False
    then show ?thesis by (simp add: prefix_no_char)
  qed
qed

lemma prefix_of_wf: "whole s \<Longrightarrow> utf8_complete_prefix s = length s"
  using prefix_wf_append [of s "[]"] by (simp add: utf8_complete_prefix.simps [of "[]"])

lemma sanitize_wf_id: "whole s \<Longrightarrow> utf8_sanitize s = s"
  by (induction rule: whole.induct) (simp_all add: prefix_char utf8_sanitize.simps [of "[]"])

lemma replacement_char: "utf8_char replacement"
  by code_simp

lemma sanitize_wf: "whole (utf8_sanitize s)"
proof (induction s rule: utf8_sanitize.induct)
  case (1 s)
  note r = whole_char [OF replacement_char]
  show ?case
  proof (cases "s = []")
    case True then show ?thesis by (simp add: utf8_sanitize.simps whole_Nil)
  next
    case ne: False
    let ?n = "utf8_seq_len (hd s)"
    show ?thesis
    proof (cases "?n = 0 \<or> length s < ?n \<or> \<not> list_all is_cont (take (?n - 1) (tl s))")
      case True
      then show ?thesis
        using ne "1.IH" r r [OF whole_Nil] by (subst utf8_sanitize.simps) (auto simp: Let_def)
    next
      case False
      with head_char_iff [OF ne] have "\<exists>c t. s = c @ t \<and> utf8_char c" by auto
      then obtain c t where c: "s = c @ t" "utf8_char c" by blast
      then have l: "?n = length c" by (auto simp: utf8_char_def)
      have "whole (utf8_sanitize (drop ?n s))"
        using "1.IH"(3) [OF ne refl] False by auto
      then have "whole (utf8_sanitize t)" unfolding l using c(1) by simp
      then show ?thesis using c by (simp add: prefix_char whole_char)
    qed
  qed
qed

section \<open>The streamer\<close>

text \<open>\<^verbatim>\<open>push\<close> gets the decoded bytes of all the ids so far; the state is \<^verbatim>\<open>prev_\<close>.\<close>

definition push :: "nat \<Rightarrow> bytes \<Rightarrow> nat \<times> bytes" where
  "push prev bs =
     (if length bs \<le> prev then (prev, [])
      else (let fresh = drop prev bs; k = utf8_complete_prefix fresh in (prev + k, take k fresh)))"

fun push_all :: "nat \<Rightarrow> bytes list \<Rightarrow> bytes list" where
  "push_all prev [] = []"
| "push_all prev (bs # bss) = (let (prev', piece) = push prev bs in piece # push_all prev' bss)"

text \<open>Byte strings that only grow, as the decoded ids do.\<close>

fun growing :: "bytes \<Rightarrow> bytes list \<Rightarrow> bool" where
  "growing b [] = True"
| "growing b (c # cs) = (prefix b c \<and> growing c cs)"

lemma push_step:
  assumes p: "prev = utf8_complete_prefix b" and pr: "prefix b c"
  shows "fst (push prev c) = utf8_complete_prefix c"
    and "take prev b @ snd (push prev c) = take (utf8_complete_prefix c) c"
proof -
  from pr obtain d where d: "c = b @ d" by (auto simp: prefix_def)
  have le: "prev \<le> length b" using prefix_le p by simp
  have w: "whole (take prev b)" unfolding p by (rule wf_prefix_part)
  have "c = take prev b @ (drop prev b @ d)" by (simp add: d)
  with prefix_wf_append [OF w, of "drop prev b @ d"] le
  have c: "utf8_complete_prefix c = prev + utf8_complete_prefix (drop prev b @ d)" by simp
  have tk: "take prev b = take prev c" using le by (simp add: d)
  have dc: "drop prev c = drop prev b @ d" using le by (simp add: d)
  show "fst (push prev c) = utf8_complete_prefix c"
    using c dc by (auto simp: push_def Let_def utf8_complete_prefix.simps [of "[]"])
  show "take prev b @ snd (push prev c) = take (utf8_complete_prefix c) c"
    using c dc by (auto simp: push_def Let_def tk utf8_complete_prefix.simps [of "[]"] take_add)
qed

lemma push_all_concat:
  "growing b bss \<Longrightarrow>
   take (utf8_complete_prefix b) b @ concat (push_all (utf8_complete_prefix b) bss) =
     (let e = last (b # bss) in take (utf8_complete_prefix e) e)"
proof (induction bss arbitrary: b)
  case (Cons c cs)
  let ?p = "utf8_complete_prefix b"
  from Cons.prems have "prefix b c" "growing c cs" by simp_all
  note st = push_step [OF refl this(1)]
  have "concat (push_all ?p (c # cs)) = snd (push ?p c) @ concat (push_all (utf8_complete_prefix c) cs)"
    by (simp add: case_prod_beta st(1))
  with Cons.IH [OF \<open>growing c cs\<close>] st(2) show ?case by (simp flip: append_assoc)
qed simp

text \<open>A byte that no continuation can repair.\<close>

definition malformed :: "bytes \<Rightarrow> bool" where
  "malformed s \<longleftrightarrow> s \<noteq> [] \<and>
     (utf8_seq_len (hd s) = 0 \<or> \<not> list_all is_cont (take (utf8_seq_len (hd s) - 1) (tl s)))"

lemma malformed_append: "malformed s \<Longrightarrow> malformed (s @ t)"
  by (cases s) (auto simp: malformed_def)

lemma malformed_prefix: "malformed s \<Longrightarrow> utf8_complete_prefix s = 0"
  by (subst utf8_complete_prefix.simps) (auto simp: malformed_def Let_def)

text \<open>RFC 3629: no overlong forms, no surrogates, nothing above U+10FFFF.\<close>

definition strict_char :: "bytes \<Rightarrow> bool" where
  "strict_char cs \<longleftrightarrow>
     (case map byte_val cs of
        [a] \<Rightarrow> a < 0x80
      | [a, b] \<Rightarrow> 0xC2 \<le> a \<and> a \<le> 0xDF \<and> 0x80 \<le> b \<and> b \<le> 0xBF
      | [a, b, c] \<Rightarrow> (if a = 0xE0 then 0xA0 else 0x80) \<le> b \<and> b \<le> (if a = 0xED then 0x9F else 0xBF) \<and>
          0xE0 \<le> a \<and> a \<le> 0xEF \<and> 0x80 \<le> c \<and> c \<le> 0xBF
      | [a, b, c, d] \<Rightarrow> (if a = 0xF0 then 0x90 else 0x80) \<le> b \<and> b \<le> (if a = 0xF4 then 0x8F else 0xBF) \<and>
          0xF0 \<le> a \<and> a \<le> 0xF4 \<and> 0x80 \<le> c \<and> c \<le> 0xBF \<and> 0x80 \<le> d \<and> d \<le> 0xBF
      | _ \<Rightarrow> False)"

section \<open>Properties\<close>

text \<open>C34: \<^verbatim>\<open>utf8_complete_prefix\<close> is the longest prefix made of whole characters; it does not exclude
  overlong forms: the two bytes C0 80 pass for a character although RFC 3629 has none such.\<close>

theorem complete_prefix_is_longest:
  "whole (take (utf8_complete_prefix s) s) \<and> utf8_complete_prefix s \<le> length s \<and>
   (\<forall>k. k \<le> length s \<longrightarrow> whole (take k s) \<longrightarrow> k \<le> utf8_complete_prefix s) \<and>
   utf8_complete_prefix [char_of (0xC0::nat), char_of (0x80::nat)] = 2 \<and>
   \<not> strict_char [char_of (0xC0::nat), char_of (0x80::nat)]"
proof (intro conjI allI impI)
  show "whole (take (utf8_complete_prefix s) s)" by (rule wf_prefix_part)
  show "utf8_complete_prefix s \<le> length s" by (rule prefix_le)
  show "k \<le> utf8_complete_prefix s" if "k \<le> length s" "whole (take k s)" for k
    using prefix_wf_append [OF that(2), of "drop k s"] that(1) by simp
  show "utf8_complete_prefix [char_of (0xC0::nat), char_of (0x80::nat)] = 2" by code_simp
  show "\<not> strict_char [char_of (0xC0::nat), char_of (0x80::nat)]" by code_simp
qed

theorem complete_prefix_is_longest_witness:
  "2 \<le> utf8_complete_prefix [CHR ''a'', CHR ''b'', char_of (0xE2::nat)]"
proof -
  have "utf8_char [CHR ''a'']" "utf8_char [CHR ''b'']" by code_simp+
  from whole_char [OF this(1) whole_char [OF this(2) whole_Nil]] have "whole [CHR ''a'', CHR ''b'']" by simp
  with complete_prefix_is_longest [of "[CHR ''a'', CHR ''b'', char_of (0xE2::nat)]"] show ?thesis by auto
qed

text \<open>C35: Sanitising always gives whole characters and leaves text of whole characters alone; but a
  truncated sequence ends the copy, so that the letter A behind a lone lead byte is lost.\<close>

theorem sanitize_repairs:
  "whole (utf8_sanitize s) \<and> (whole s \<longrightarrow> utf8_sanitize s = s) \<and>
   utf8_sanitize (utf8_sanitize s) = utf8_sanitize s \<and>
   utf8_sanitize [char_of (0xE2::nat), CHR ''A''] = replacement"
proof (intro conjI impI)
  show "utf8_sanitize [char_of (0xE2::nat), CHR ''A''] = replacement" by code_simp
qed (simp_all add: sanitize_wf sanitize_wf_id)

theorem sanitize_repairs_witness: "utf8_sanitize (utf8_sanitize ''x'') = utf8_sanitize ''x''"
  using sanitize_repairs [of "''x''"] by blast

text \<open>C36: However the tokens cut the bytes, the streamer's pieces together are the longest prefix of
  the decoded bytes that is made of whole characters; and once the bytes after that prefix are
  malformed, no later token makes it emit anything.\<close>

theorem streamer_emits_complete_prefix:
  assumes "growing [] bss" and "bss \<noteq> []"
  shows "concat (push_all 0 bss) = take (utf8_complete_prefix (last bss)) (last bss) \<and>
    (malformed (drop (utf8_complete_prefix (last bss)) (last bss)) \<longrightarrow>
       (\<forall>more. push (utf8_complete_prefix (last bss)) (last bss @ more) =
          (utf8_complete_prefix (last bss), [])))"
proof (intro conjI impI allI)
  have z: "utf8_complete_prefix [] = 0" by (simp add: utf8_complete_prefix.simps)
  from push_all_concat [OF assms(1)] assms(2) z
  show "concat (push_all 0 bss) = take (utf8_complete_prefix (last bss)) (last bss)" by (simp add: Let_def)
  let ?b = "last bss" and ?p = "utf8_complete_prefix (last bss)"
  fix more
  assume m: "malformed (drop ?p ?b)"
  have "drop ?p (?b @ more) = drop ?p ?b @ more" using prefix_le [of ?b] by simp
  then have "utf8_complete_prefix (drop ?p (?b @ more)) = 0"
    using malformed_prefix [OF malformed_append [OF m]] by simp
  then show "push ?p (?b @ more) = (?p, [])" by (simp add: push_def Let_def)
qed

theorem streamer_emits_complete_prefix_witness:
  "concat (push_all 0 [''a'', ''a'' @ [char_of (0xFF::nat)]]) = ''a'' \<and>
   push 1 (''a'' @ [char_of (0xFF::nat)] @ ''more'') = (1, [])"
proof -
  let ?b = "''a'' @ [char_of (0xFF::nat)]"
  have "utf8_complete_prefix ?b = 1" "malformed (drop 1 ?b)" by code_simp+
  then show ?thesis
    using streamer_emits_complete_prefix [of "[''a'', ?b]"] by simp
qed

end
