(* ===== verification/Unicode_Class.thy ===== *)
theory Unicode_Class
  imports Main
begin

text \<open>
  The Unicode classes of the tokenizer: the range tables of
  \<^verbatim>\<open>src/tokenizer/unicode_class.hpp\<close> as they stand there, and the binary search and the class
  predicates of \<^verbatim>\<open>src/tokenizer/tokenizer.cpp\<close>.
\<close>

section \<open>Tables\<close>

definition kLetterRanges :: "(nat \<times> nat) list" where
  "kLetterRanges =
   [(65, 90), (97, 122), (170, 170), (181, 181), (186, 186), (192, 214), (216, 246), (248, 705),
    (710, 721), (736, 740), (748, 748), (750, 750), (880, 884), (886, 887), (890, 893),
    (895, 895), (902, 902), (904, 906), (908, 908), (910, 929), (931, 1013), (1015, 1153),
    (1162, 1327), (1329, 1366), (1369, 1369), (1376, 1416), (1488, 1514), (1519, 1522),
    (1568, 1610), (1646, 1647), (1649, 1747), (1749, 1749), (1765, 1766), (1774, 1775),
    (1786, 1788), (1791, 1791), (1808, 1808), (1810, 1839), (1869, 1957), (1969, 1969),
    (1994, 2026), (2036, 2037), (2042, 2042), (2048, 2069), (2074, 2074), (2084, 2084),
    (2088, 2088), (2112, 2136), (2144, 2154), (2160, 2183), (2185, 2190), (2208, 2249),
    (2308, 2361), (2365, 2365), (2384, 2384), (2392, 2401), (2417, 2432), (2437, 2444),
    (2447, 2448), (2451, 2472), (2474, 2480), (2482, 2482), (2486, 2489), (2493, 2493),
    (2510, 2510), (2524, 2525), (2527, 2529), (2544, 2545), (2556, 2556), (2565, 2570),
    (2575, 2576), (2579, 2600), (2602, 2608), (2610, 2611), (2613, 2614), (2616, 2617),
    (2649, 2652), (2654, 2654), (2674, 2676), (2693, 2701), (2703, 2705), (2707, 2728),
    (2730, 2736), (2738, 2739), (2741, 2745), (2749, 2749), (2768, 2768), (2784, 2785),
    (2809, 2809), (2821, 2828), (2831, 2832), (2835, 2856), (2858, 2864), (2866, 2867),
    (2869, 2873), (2877, 2877), (2908, 2909), (2911, 2913), (2929, 2929), (2947, 2947),
    (2949, 2954), (2958, 2960), (2962, 2965), (2969, 2970), (2972, 2972), (2974, 2975),
    (2979, 2980), (2984, 2986), (2990, 3001), (3024, 3024), (3077, 3084), (3086, 3088),
    (3090, 3112), (3114, 3129), (3133, 3133), (3160, 3162), (3165, 3165), (3168, 3169),
    (3200, 3200), (3205, 3212), (3214, 3216), (3218, 3240), (3242, 3251), (3253, 3257),
    (3261, 3261), (3293, 3294), (3296, 3297), (3313, 3314), (3332, 3340), (3342, 3344),
    (3346, 3386), (3389, 3389), (3406, 3406), (3412, 3414), (3423, 3425), (3450, 3455),
    (3461, 3478), (3482, 3505), (3507, 3515), (3517, 3517), (3520, 3526), (3585, 3632),
    (3634, 3635), (3648, 3654), (3713, 3714), (3716, 3716), (3718, 3722), (3724, 3747),
    (3749, 3749), (3751, 3760), (3762, 3763), (3773, 3773), (3776, 3780), (3782, 3782),
    (3804, 3807), (3840, 3840), (3904, 3911), (3913, 3948), (3976, 3980), (4096, 4138),
    (4159, 4159), (4176, 4181), (4186, 4189), (4193, 4193), (4197, 4198), (4206, 4208),
    (4213, 4225), (4238, 4238), (4256, 4293), (4295, 4295), (4301, 4301), (4304, 4346),
    (4348, 4680), (4682, 4685), (4688, 4694), (4696, 4696), (4698, 4701), (4704, 4744),
    (4746, 4749), (4752, 4784), (4786, 4789), (4792, 4798), (4800, 4800), (4802, 4805),
    (4808, 4822), (4824, 4880), (4882, 4885), (4888, 4954), (4992, 5007), (5024, 5109),
    (5112, 5117), (5121, 5740), (5743, 5759), (5761, 5786), (5792, 5866), (5873, 5880),
    (5888, 5905), (5919, 5937), (5952, 5969), (5984, 5996), (5998, 6000), (6016, 6067),
    (6103, 6103), (6108, 6108), (6176, 6264), (6272, 6276), (6279, 6312), (6314, 6314),
    (6320, 6389), (6400, 6430), (6480, 6509), (6512, 6516), (6528, 6571), (6576, 6601),
    (6656, 6678), (6688, 6740), (6823, 6823), (6917, 6963), (6981, 6988), (7043, 7072),
    (7086, 7087), (7098, 7141), (7168, 7203), (7245, 7247), (7258, 7293), (7296, 7304),
    (7312, 7354), (7357, 7359), (7401, 7404), (7406, 7411), (7413, 7414), (7418, 7418),
    (7424, 7615), (7680, 7957), (7960, 7965), (7968, 8005), (8008, 8013), (8016, 8023),
    (8025, 8025), (8027, 8027), (8029, 8029), (8031, 8061), (8064, 8116), (8118, 8124),
    (8126, 8126), (8130, 8132), (8134, 8140), (8144, 8147), (8150, 8155), (8160, 8172),
    (8178, 8180), (8182, 8188), (8305, 8305), (8319, 8319), (8336, 8348), (8450, 8450),
    (8455, 8455), (8458, 8467), (8469, 8469), (8473, 8477), (8484, 8484), (8486, 8486),
    (8488, 8488), (8490, 8493), (8495, 8505), (8508, 8511), (8517, 8521), (8526, 8526),
    (8579, 8580), (11264, 11492), (11499, 11502), (11506, 11507), (11520, 11557),
    (11559, 11559), (11565, 11565), (11568, 11623), (11631, 11631), (11648, 11670),
    (11680, 11686), (11688, 11694), (11696, 11702), (11704, 11710), (11712, 11718),
    (11720, 11726), (11728, 11734), (11736, 11742), (11823, 11823), (12293, 12294),
    (12337, 12341), (12347, 12348), (12353, 12438), (12445, 12447), (12449, 12538),
    (12540, 12543), (12549, 12591), (12593, 12686), (12704, 12735), (12784, 12799),
    (13312, 19903), (19968, 42124), (42192, 42237), (42240, 42508), (42512, 42527),
    (42538, 42539), (42560, 42606), (42623, 42653), (42656, 42725), (42775, 42783),
    (42786, 42888), (42891, 42954), (42960, 42961), (42963, 42963), (42965, 42969),
    (42994, 43009), (43011, 43013), (43015, 43018), (43020, 43042), (43072, 43123),
    (43138, 43187), (43250, 43255), (43259, 43259), (43261, 43262), (43274, 43301),
    (43312, 43334), (43360, 43388), (43396, 43442), (43471, 43471), (43488, 43492),
    (43494, 43503), (43514, 43518), (43520, 43560), (43584, 43586), (43588, 43595),
    (43616, 43638), (43642, 43642), (43646, 43695), (43697, 43697), (43701, 43702),
    (43705, 43709), (43712, 43712), (43714, 43714), (43739, 43741), (43744, 43754),
    (43762, 43764), (43777, 43782), (43785, 43790), (43793, 43798), (43808, 43814),
    (43816, 43822), (43824, 43866), (43868, 43881), (43888, 44002), (44032, 55203),
    (55216, 55238), (55243, 55291), (63744, 64109), (64112, 64217), (64256, 64262),
    (64275, 64279), (64285, 64285), (64287, 64296), (64298, 64310), (64312, 64316),
    (64318, 64318), (64320, 64321), (64323, 64324), (64326, 64433), (64467, 64829),
    (64848, 64911), (64914, 64967), (65008, 65019), (65136, 65140), (65142, 65276),
    (65313, 65338), (65345, 65370), (65382, 65470), (65474, 65479), (65482, 65487),
    (65490, 65495), (65498, 65500), (65536, 65547), (65549, 65574), (65576, 65594),
    (65596, 65597), (65599, 65613), (65616, 65629), (65664, 65786), (66176, 66204),
    (66208, 66256), (66304, 66335), (66349, 66368), (66370, 66377), (66384, 66421),
    (66432, 66461), (66464, 66499), (66504, 66511), (66560, 66717), (66736, 66771),
    (66776, 66811), (66816, 66855), (66864, 66915), (66928, 66938), (66940, 66954),
    (66956, 66962), (66964, 66965), (66967, 66977), (66979, 66993), (66995, 67001),
    (67003, 67004), (67072, 67382), (67392, 67413), (67424, 67431), (67456, 67461),
    (67463, 67504), (67506, 67514), (67584, 67589), (67592, 67592), (67594, 67637),
    (67639, 67640), (67644, 67644), (67647, 67669), (67680, 67702), (67712, 67742),
    (67808, 67826), (67828, 67829), (67840, 67861), (67872, 67897), (67968, 68023),
    (68030, 68031), (68096, 68096), (68112, 68115), (68117, 68119), (68121, 68149),
    (68192, 68220), (68224, 68252), (68288, 68295), (68297, 68324), (68352, 68405),
    (68416, 68437), (68448, 68466), (68480, 68497), (68608, 68680), (68736, 68786),
    (68800, 68850), (68864, 68899), (69248, 69289), (69296, 69297), (69376, 69404),
    (69415, 69415), (69424, 69445), (69488, 69505), (69552, 69572), (69600, 69622),
    (69635, 69687), (69745, 69746), (69749, 69749), (69763, 69807), (69840, 69864),
    (69891, 69926), (69956, 69956), (69959, 69959), (69968, 70002), (70006, 70006),
    (70019, 70066), (70081, 70084), (70106, 70106), (70108, 70108), (70144, 70161),
    (70163, 70187), (70207, 70208), (70272, 70278), (70280, 70280), (70282, 70285),
    (70287, 70301), (70303, 70312), (70320, 70366), (70405, 70412), (70415, 70416),
    (70419, 70440), (70442, 70448), (70450, 70451), (70453, 70457), (70461, 70461),
    (70480, 70480), (70493, 70497), (70656, 70708), (70727, 70730), (70751, 70753),
    (70784, 70831), (70852, 70853), (70855, 70855), (71040, 71086), (71128, 71131),
    (71168, 71215), (71236, 71236), (71296, 71338), (71352, 71352), (71424, 71450),
    (71488, 71494), (71680, 71723), (71840, 71903), (71935, 71942), (71945, 71945),
    (71948, 71955), (71957, 71958), (71960, 71983), (71999, 71999), (72001, 72001),
    (72096, 72103), (72106, 72144), (72161, 72161), (72163, 72163), (72192, 72192),
    (72203, 72242), (72250, 72250), (72272, 72272), (72284, 72329), (72349, 72349),
    (72368, 72440), (72704, 72712), (72714, 72750), (72768, 72768), (72818, 72847),
    (72960, 72966), (72968, 72969), (72971, 73008), (73030, 73030), (73056, 73061),
    (73063, 73064), (73066, 73097), (73112, 73112), (73440, 73458), (73474, 73474),
    (73476, 73488), (73490, 73523), (73648, 73648), (73728, 74649), (74880, 75075),
    (77712, 77808), (77824, 78895), (78913, 78918), (82944, 83526), (92160, 92728),
    (92736, 92766), (92784, 92862), (92880, 92909), (92928, 92975), (92992, 92995),
    (93027, 93047), (93053, 93071), (93760, 93823), (93952, 94026), (94032, 94032),
    (94099, 94111), (94176, 94177), (94179, 94179), (94208, 100343), (100352, 101589),
    (101632, 101640), (110576, 110579), (110581, 110587), (110589, 110590), (110592, 110882),
    (110898, 110898), (110928, 110930), (110933, 110933), (110948, 110951), (110960, 111355),
    (113664, 113770), (113776, 113788), (113792, 113800), (113808, 113817), (119808, 119892),
    (119894, 119964), (119966, 119967), (119970, 119970), (119973, 119974), (119977, 119980),
    (119982, 119993), (119995, 119995), (119997, 120003), (120005, 120069), (120071, 120074),
    (120077, 120084), (120086, 120092), (120094, 120121), (120123, 120126), (120128, 120132),
    (120134, 120134), (120138, 120144), (120146, 120485), (120488, 120512), (120514, 120538),
    (120540, 120570), (120572, 120596), (120598, 120628), (120630, 120654), (120656, 120686),
    (120688, 120712), (120714, 120744), (120746, 120770), (120772, 120779), (122624, 122654),
    (122661, 122666), (122928, 122989), (123136, 123180), (123191, 123197), (123214, 123214),
    (123536, 123565), (123584, 123627), (124112, 124139), (124896, 124902), (124904, 124907),
    (124909, 124910), (124912, 124926), (124928, 125124), (125184, 125251), (125259, 125259),
    (126464, 126467), (126469, 126495), (126497, 126498), (126500, 126500), (126503, 126503),
    (126505, 126514), (126516, 126519), (126521, 126521), (126523, 126523), (126530, 126530),
    (126535, 126535), (126537, 126537), (126539, 126539), (126541, 126543), (126545, 126546),
    (126548, 126548), (126551, 126551), (126553, 126553), (126555, 126555), (126557, 126557),
    (126559, 126559), (126561, 126562), (126564, 126564), (126567, 126570), (126572, 126578),
    (126580, 126583), (126585, 126588), (126590, 126590), (126592, 126601), (126603, 126619),
    (126625, 126627), (126629, 126633), (126635, 126651), (131072, 173791), (173824, 177977),
    (177984, 178205), (178208, 183969), (183984, 191456), (194560, 195101), (196608, 201546),
    (201552, 205743)]"

definition kNumberRanges :: "(nat \<times> nat) list" where
  "kNumberRanges =
   [(48, 57), (178, 179), (185, 185), (188, 190), (1632, 1641), (1776, 1785), (1984, 1993),
    (2406, 2415), (2534, 2543), (2548, 2553), (2662, 2671), (2790, 2799), (2918, 2927),
    (2930, 2935), (3046, 3058), (3174, 3183), (3192, 3198), (3302, 3311), (3416, 3422),
    (3430, 3448), (3558, 3567), (3664, 3673), (3792, 3801), (3872, 3891), (4160, 4169),
    (4240, 4249), (4969, 4988), (5870, 5872), (6112, 6121), (6128, 6137), (6160, 6169),
    (6470, 6479), (6608, 6618), (6784, 6793), (6800, 6809), (6992, 7001), (7088, 7097),
    (7232, 7241), (7248, 7257), (8304, 8304), (8308, 8313), (8320, 8329), (8528, 8578),
    (8581, 8585), (9312, 9371), (9450, 9471), (10102, 10131), (11517, 11517), (12295, 12295),
    (12321, 12329), (12344, 12346), (12690, 12693), (12832, 12841), (12872, 12879),
    (12881, 12895), (12928, 12937), (12977, 12991), (42528, 42537), (42726, 42735),
    (43056, 43061), (43216, 43225), (43264, 43273), (43472, 43481), (43504, 43513),
    (43600, 43609), (44016, 44025), (65296, 65305), (65799, 65843), (65856, 65912),
    (65930, 65931), (66273, 66299), (66336, 66339), (66369, 66369), (66378, 66378),
    (66513, 66517), (66720, 66729), (67672, 67679), (67705, 67711), (67751, 67759),
    (67835, 67839), (67862, 67867), (68028, 68029), (68032, 68047), (68050, 68095),
    (68160, 68168), (68221, 68222), (68253, 68255), (68331, 68335), (68440, 68447),
    (68472, 68479), (68521, 68527), (68858, 68863), (68912, 68921), (69216, 69246),
    (69405, 69414), (69457, 69460), (69573, 69579), (69714, 69743), (69872, 69881),
    (69942, 69951), (70096, 70105), (70113, 70132), (70384, 70393), (70736, 70745),
    (70864, 70873), (71248, 71257), (71360, 71369), (71472, 71483), (71904, 71922),
    (72016, 72025), (72784, 72812), (73040, 73049), (73120, 73129), (73552, 73561),
    (73664, 73684), (74752, 74862), (92768, 92777), (92864, 92873), (93008, 93017),
    (93019, 93025), (93824, 93846), (119488, 119507), (119520, 119539), (119648, 119672),
    (120782, 120831), (123200, 123209), (123632, 123641), (124144, 124153), (125127, 125135),
    (125264, 125273), (126065, 126123), (126125, 126127), (126129, 126132), (126209, 126253),
    (126255, 126269), (127232, 127244), (130032, 130041)]"

section \<open>Search\<close>

function in_ranges_loop :: "nat \<Rightarrow> (nat \<times> nat) list \<Rightarrow> int \<Rightarrow> int \<Rightarrow> bool" where
  "in_ranges_loop cp r lo hi =
     (if lo \<le> hi then
        (let mid = (lo + hi) div 2 in
         if cp < fst (r ! nat mid) then in_ranges_loop cp r lo (mid - 1)
         else if snd (r ! nat mid) < cp then in_ranges_loop cp r (mid + 1) hi
         else True)
      else False)"
  by pat_completeness auto
termination
  by (relation "measure (\<lambda>(cp, r, lo, hi). nat (hi - lo + 1))") auto

declare in_ranges_loop.simps [simp del]

definition in_ranges :: "nat \<Rightarrow> (nat \<times> nat) list \<Rightarrow> bool" where
  "in_ranges cp r = in_ranges_loop cp r 0 (int (length r) - 1)"

definition is_L :: "nat \<Rightarrow> bool" where
  "is_L cp = (if cp < 128 then (65 \<le> cp \<and> cp \<le> 90) \<or> (97 \<le> cp \<and> cp \<le> 122)
              else in_ranges cp kLetterRanges)"

definition is_N :: "nat \<Rightarrow> bool" where
  "is_N cp = (if cp < 128 then 48 \<le> cp \<and> cp \<le> 57 else in_ranges cp kNumberRanges)"

definition is_nl :: "nat \<Rightarrow> bool" where
  "is_nl cp \<longleftrightarrow> cp = 13 \<or> cp = 10"

definition is_ws_cp :: "nat \<Rightarrow> bool" where
  "is_ws_cp cp \<longleftrightarrow> cp \<in> {0x20, 0x09, 0x0A, 0x0D, 0x0B, 0x0C, 0x85, 0xA0, 0x1680, 0x2028, 0x2029, 0x202F,
     0x205F, 0x3000} \<or> 0x2000 \<le> cp \<and> cp \<le> 0x200A"

section \<open>Sorted tables\<close>

fun ranges_ok :: "(nat \<times> nat) list \<Rightarrow> bool" where
  "ranges_ok [] = True"
| "ranges_ok [(a, b)] = (a \<le> b)"
| "ranges_ok ((a, b) # (c, d) # rs) = (a \<le> b \<and> b < c \<and> ranges_ok ((c, d) # rs))"

lemma ranges_ok_Cons: "ranges_ok ((a, b) # rs) \<Longrightarrow> a \<le> b \<and> ranges_ok rs \<and> (\<forall>x \<in> set rs. b < fst x)"
proof (induction rs arbitrary: a b)
  case (Cons x rs)
  obtain c d where x: "x = (c, d)" by fastforce
  with Cons.prems have h: "a \<le> b" "b < c" "ranges_ok ((c, d) # rs)" by simp_all
  from Cons.IH [of c d] h x show ?case by auto
qed simp

lemma ranges_ok_nth:
  "ranges_ok r \<Longrightarrow> i < j \<Longrightarrow> j < length r \<Longrightarrow> snd (r ! i) < fst (r ! j)"
proof (induction r arbitrary: i j)
  case (Cons x r)
  obtain a b where x: "x = (a, b)" by fastforce
  note h = ranges_ok_Cons [OF Cons.prems(1) [unfolded x]]
  from Cons.prems(2) obtain j' where j: "j = Suc j'" by (cases j) auto
  show ?case
  proof (cases i)
    case 0
    from j Cons.prems(3) have "r ! j' \<in> set r" by simp
    with h show ?thesis by (simp add: 0 j x)
  next
    case (Suc i')
    with Cons j h show ?thesis by simp
  qed
qed simp

lemma ranges_ok_le: "ranges_ok r \<Longrightarrow> i < length r \<Longrightarrow> fst (r ! i) \<le> snd (r ! i)"
proof (induction r arbitrary: i)
  case (Cons x r)
  obtain a b where x: "x = (a, b)" by fastforce
  from ranges_ok_Cons [OF Cons.prems(1) [unfolded x]] Cons show ?case by (cases i) (auto simp: x)
qed simp

definition in_range :: "nat \<Rightarrow> nat \<times> nat \<Rightarrow> bool" where
  "in_range cp r \<longleftrightarrow> fst r \<le> cp \<and> cp \<le> snd r"

lemma in_ranges_loop_iff:
  assumes ok: "ranges_ok r" and "0 \<le> lo" and "hi < int (length r)"
  shows "in_ranges_loop cp r lo hi \<longleftrightarrow> (\<exists>i. lo \<le> int i \<and> int i \<le> hi \<and> in_range cp (r ! i))"
  using assms(2,3)
proof (induction "nat (hi - lo + 1)" arbitrary: lo hi rule: less_induct)
  case less
  show ?case
  proof (cases "lo \<le> hi")
    case False
    then show ?thesis by (subst in_ranges_loop.simps) auto
  next
    case True
    let ?mid = "(lo + hi) div 2"
    have m: "lo \<le> ?mid" "?mid \<le> hi" "0 \<le> ?mid" using True less.prems by auto
    define k where "k = nat ?mid"
    have k: "int k = ?mid" "k < length r" using m less.prems by (auto simp: k_def)
    have ord: "snd (r ! i) < fst (r ! j)" if "i < j" "int j \<le> hi" for i j
      using ranges_ok_nth [OF ok that(1)] that(2) less.prems by simp
    show ?thesis
    proof (cases "cp < fst (r ! k)")
      case lt: True
      have "in_ranges_loop cp r lo hi = in_ranges_loop cp r lo (?mid - 1)"
        using True lt by (subst in_ranges_loop.simps) (simp add: Let_def k_def)
      also have "\<dots> = (\<exists>i. lo \<le> int i \<and> int i \<le> ?mid - 1 \<and> in_range cp (r ! i))"
        by (rule less.hyps) (use True less.prems m in auto)
      also have "\<dots> = (\<exists>i. lo \<le> int i \<and> int i \<le> hi \<and> in_range cp (r ! i))"
      proof -
        have "int i \<le> ?mid - 1" if "int i \<le> hi" "in_range cp (r ! i)" for i
        proof (rule ccontr)
          assume "\<not> int i \<le> ?mid - 1"
          then have "k \<le> i" using k by simp
          then have "fst (r ! k) \<le> fst (r ! i)"
            using ord [of k i] that(1) ranges_ok_le [OF ok k(2)] by (cases "k = i") auto
          with lt that(2) show False by (simp add: in_range_def)
        qed
        with m show ?thesis by (intro ex_cong1) fastforce
      qed
      finally show ?thesis .
    next
      case ge: False
      show ?thesis
      proof (cases "snd (r ! k) < cp")
        case gt: True
        have "in_ranges_loop cp r lo hi = in_ranges_loop cp r (?mid + 1) hi"
          using True ge gt by (subst in_ranges_loop.simps) (simp add: Let_def k_def)
        also have "\<dots> = (\<exists>i. ?mid + 1 \<le> int i \<and> int i \<le> hi \<and> in_range cp (r ! i))"
          by (rule less.hyps) (use True less.prems m in auto)
        also have "\<dots> = (\<exists>i. lo \<le> int i \<and> int i \<le> hi \<and> in_range cp (r ! i))"
        proof -
          have "?mid + 1 \<le> int i" if "int i \<le> hi" "in_range cp (r ! i)" for i
          proof (rule ccontr)
            assume "\<not> ?mid + 1 \<le> int i"
            then have "i \<le> k" using k by simp
            then have "snd (r ! i) \<le> snd (r ! k)"
              using ord [of i k] k m ranges_ok_le [OF ok k(2)] by (cases "k = i") auto
            with gt that(2) show False by (simp add: in_range_def)
          qed
          with m show ?thesis by (intro ex_cong1) fastforce
        qed
        finally show ?thesis .
      next
        case False
        have "in_ranges_loop cp r lo hi"
          using True ge False by (subst in_ranges_loop.simps) (simp add: Let_def k_def)
        moreover have "in_range cp (r ! k)" using ge False by (simp add: in_range_def)
        moreover have "lo \<le> int k \<and> int k \<le> hi" using m k by simp
        ultimately show ?thesis by blast
      qed
    qed
  qed
qed

lemma in_ranges_iff: "ranges_ok r \<Longrightarrow> in_ranges cp r \<longleftrightarrow> (\<exists>x \<in> set r. in_range cp x)"
proof -
  assume ok: "ranges_ok r"
  have "in_ranges cp r \<longleftrightarrow> (\<exists>i. 0 \<le> int i \<and> int i \<le> int (length r) - 1 \<and> in_range cp (r ! i))"
    unfolding in_ranges_def by (rule in_ranges_loop_iff [OF ok]) simp_all
  also have "\<dots> \<longleftrightarrow> (\<exists>i < length r. in_range cp (r ! i))" by (auto intro!: ex_cong1)
  also have "\<dots> \<longleftrightarrow> (\<exists>x \<in> set r. in_range cp x)" by (metis in_set_conv_nth)
  finally show ?thesis .
qed

lemma kLetterRanges_ok: "ranges_ok kLetterRanges"
  unfolding kLetterRanges_def by (simp only: ranges_ok.simps) simp

lemma kNumberRanges_ok: "ranges_ok kNumberRanges"
  unfolding kNumberRanges_def by (simp only: ranges_ok.simps) simp

text \<open>Two code points that are neither letter nor number: a lone continuation byte and the wide
  space.\<close>

fun outside :: "nat \<Rightarrow> (nat \<times> nat) list \<Rightarrow> bool" where
  "outside cp [] = True"
| "outside cp ((a, b) # rs) = ((cp < a \<or> b < cp) \<and> outside cp rs)"

lemma outside_iff: "ranges_ok r \<Longrightarrow> outside cp r \<Longrightarrow> \<not> in_ranges cp r"
proof -
  have "outside cp r \<longleftrightarrow> \<not> (\<exists>x \<in> set r. in_range cp x)"
    by (induction cp r rule: outside.induct) (auto simp: in_range_def)
  then show "ranges_ok r \<Longrightarrow> outside cp r \<Longrightarrow> \<not> in_ranges cp r" by (simp add: in_ranges_iff)
qed

lemma outside_letters: "outside 0x80 kLetterRanges" "outside 0x3000 kLetterRanges"
  unfolding kLetterRanges_def by (simp_all only: outside.simps) simp_all

lemma outside_numbers: "outside 0x80 kNumberRanges" "outside 0x3000 kNumberRanges"
  unfolding kNumberRanges_def by (simp_all only: outside.simps) simp_all

lemma no_class [simp]:
  "\<not> is_L 0x80" "\<not> is_N 0x80" "\<not> is_L 0x3000" "\<not> is_N 0x3000"
  using outside_letters [THEN outside_iff [OF kLetterRanges_ok]]
    outside_numbers [THEN outside_iff [OF kNumberRanges_ok]]
  by (simp_all add: is_L_def is_N_def)

text \<open>C37: The binary search is exact on the tables as they stand: above ASCII, a code point is
  classified as a letter (a number) exactly when one of the listed ranges contains it; the
  shortcut for ASCII agrees with the tables.\<close>

theorem class_search_exact:
  "(is_L cp \<longleftrightarrow> (\<exists>r \<in> set kLetterRanges. fst r \<le> cp \<and> cp \<le> snd r)) \<and>
   (is_N cp \<longleftrightarrow> (\<exists>r \<in> set kNumberRanges. fst r \<le> cp \<and> cp \<le> snd r))"
proof -
  have L: "in_ranges cp kLetterRanges \<longleftrightarrow> (\<exists>r \<in> set kLetterRanges. fst r \<le> cp \<and> cp \<le> snd r)"
    by (simp add: in_ranges_iff [OF kLetterRanges_ok] in_range_def)
  have N: "in_ranges cp kNumberRanges \<longleftrightarrow> (\<exists>r \<in> set kNumberRanges. fst r \<le> cp \<and> cp \<le> snd r)"
    by (simp add: in_ranges_iff [OF kNumberRanges_ok] in_range_def)
  have tL: "kLetterRanges = (65, 90) # (97, 122) # drop 2 kLetterRanges" by (simp add: kLetterRanges_def)
  have tN: "kNumberRanges = (48, 57) # drop 1 kNumberRanges" by (simp add: kNumberRanges_def)
  have hiL: "128 \<le> fst r" if "r \<in> set (drop 2 kLetterRanges)" for r
  proof -
    have "ranges_ok (drop 2 kLetterRanges)" "fst (hd (drop 2 kLetterRanges)) = 170"
      "drop 2 kLetterRanges \<noteq> []"
      using kLetterRanges_ok ranges_ok_Cons tL by (metis, simp_all add: kLetterRanges_def)
    then obtain h t where ht: "drop 2 kLetterRanges = (170, h) # t" "ranges_ok ((170, h) # t)"
      by (metis list.collapse prod.collapse)
    from ranges_ok_Cons [OF ht(2)] that show ?thesis unfolding ht(1) by fastforce
  qed
  have hiN: "128 \<le> fst r" if "r \<in> set (drop 1 kNumberRanges)" for r
  proof -
    have "ranges_ok (drop 1 kNumberRanges)" "fst (hd (drop 1 kNumberRanges)) = 178"
      "drop 1 kNumberRanges \<noteq> []"
      using kNumberRanges_ok ranges_ok_Cons tN by (metis, simp_all add: kNumberRanges_def)
    then obtain h t where ht: "drop 1 kNumberRanges = (178, h) # t" "ranges_ok ((178, h) # t)"
      by (metis list.collapse prod.collapse)
    from ranges_ok_Cons [OF ht(2)] that show ?thesis unfolding ht(1) by fastforce
  qed
  show ?thesis
  proof (cases "cp < 128")
    case True
    have "(\<exists>r \<in> set kLetterRanges. fst r \<le> cp \<and> cp \<le> snd r) \<longleftrightarrow> (65 \<le> cp \<and> cp \<le> 90) \<or> (97 \<le> cp \<and> cp \<le> 122)"
      using hiL True by (subst tL) fastforce
    moreover have "(\<exists>r \<in> set kNumberRanges. fst r \<le> cp \<and> cp \<le> snd r) \<longleftrightarrow> 48 \<le> cp \<and> cp \<le> 57"
      using hiN True by (subst tN) fastforce
    ultimately show ?thesis using True by (simp add: is_L_def is_N_def)
  next
    case False
    with L N show ?thesis by (simp add: is_L_def is_N_def)
  qed
qed

end
