(* ===== verification/Tokenizer.thy ===== *)
theory Tokenizer
  imports Main Helios_Prelude Json Unicode_Class "HOL-Library.Sublist"
begin

text \<open>
  The pretokenizer (\<^verbatim>\<open>src/tokenizer/tokenizer.cpp\<close>): the byte alphabet, the decoding of code
  points and the cutting of text into pieces.  Positions in the text are modelled by the suffix
  that starts there.
\<close>

unbundle bit_operations_syntax

section \<open>The byte alphabet\<close>

definition printable :: "nat \<Rightarrow> bool" where
  "printable b \<longleftrightarrow> 33 \<le> b \<and> b \<le> 126 \<or> 161 \<le> b \<and> b \<le> 172 \<or> 174 \<le> b \<and> b \<le> 255"

text \<open>The code point of a byte: its own when printable, else the next one from 256 on.\<close>

definition byte_cp :: "nat \<Rightarrow> nat" where
  "byte_cp b = (if printable b then b
     else 256 + length (filter (\<lambda>x. \<not> printable x) [0..<b]))"

definition enc_cp :: "nat \<Rightarrow> bytes" where
  "enc_cp cp =
     (if cp < 0x80 then [char_of cp]
      else if cp < 0x800 then [char_of (0xC0 OR drop_bit 6 cp), char_of (0x80 OR (cp AND 0x3F))]
      else [char_of (0xE0 OR drop_bit 12 cp), char_of (0x80 OR (drop_bit 6 cp AND 0x3F)),
            char_of (0x80 OR (cp AND 0x3F))])"

definition b2s :: "nat \<Rightarrow> bytes" where
  "b2s b = enc_cp (byte_cp b)"

definition s2b :: "bytes \<Rightarrow> nat option" where
  "s2b s = find (\<lambda>b. b2s b = s) [0..<256]"

section \<open>Code points\<close>

definition dec_cp :: "bytes \<Rightarrow> nat \<times> nat" where
  "dec_cp s =
     (let c = byte_val (s ! 0); n = length s in
      if c < 0x80 then (1, c)
      else if c AND 0xE0 = 0xC0 \<and> 1 < n
      then (2, push_bit 6 (c AND 0x1F) OR (byte_val (s ! 1) AND 0x3F))
      else if c AND 0xF0 = 0xE0 \<and> 2 < n
      then (3, push_bit 12 (c AND 0x0F) OR push_bit 6 (byte_val (s ! 1) AND 0x3F)
               OR (byte_val (s ! 2) AND 0x3F))
      else if c AND 0xF8 = 0xF0 \<and> 3 < n
      then (4, push_bit 18 (c AND 0x07) OR push_bit 12 (byte_val (s ! 1) AND 0x3F)
               OR push_bit 6 (byte_val (s ! 2) AND 0x3F) OR (byte_val (s ! 3) AND 0x3F))
      else (1, c))"

lemma dec_cp_len: "s \<noteq> [] \<Longrightarrow> 0 < fst (dec_cp s) \<and> fst (dec_cp s) \<le> length s"
  by (cases s; cases "tl s") (auto simp: dec_cp_def Let_def Suc_le_eq)

lemma dec_cp_drop: "s \<noteq> [] \<Longrightarrow> (l, c) = dec_cp s \<Longrightarrow> length s - l < length s"
  using dec_cp_len [of s] by (metis diff_less fst_conv length_greater_0_conv)

text \<open>\<^verbatim>\<open>cp_at\<close>: nothing, of length 0, behind the end.\<close>

definition cp_at :: "bytes \<Rightarrow> nat \<Rightarrow> nat \<times> nat" where
  "cp_at s k = (if k < length s then dec_cp (drop k s) else (0, 0))"

section \<open>The pretokenizer\<close>

text \<open>The length of the longest run of code points with a property, at most \<open>m\<close> of them.\<close>

function span :: "(nat \<Rightarrow> bool) \<Rightarrow> bytes \<Rightarrow> nat" where
  "span P s =
     (if s = [] then 0
      else (let (l, c) = dec_cp s in if P c then l + span P (drop l s) else 0))"
  by pat_completeness auto
termination
  by (relation "measure (\<lambda>(P, s). length s)") (auto dest: dec_cp_drop)

declare span.simps [simp del]

fun span_n :: "nat \<Rightarrow> (nat \<Rightarrow> bool) \<Rightarrow> bytes \<Rightarrow> nat" where
  "span_n 0 P s = 0"
| "span_n (Suc m) P s =
     (if s = [] then 0
      else (let (l, c) = dec_cp s in if P c then l + span_n m P (drop l s) else 0))"

function ws_scan :: "nat \<Rightarrow> nat \<Rightarrow> bytes \<Rightarrow> nat \<times> nat" where
  "ws_scan pos last_nl s =
     (if s = [] then (pos, last_nl)
      else (let (l, c) = dec_cp s in
        if \<not> is_ws_cp c then (pos, last_nl)
        else ws_scan (pos + l) (if is_nl c then pos + l else last_nl) (drop l s)))"
  by pat_completeness auto
termination
  by (relation "measure (\<lambda>(pos, last_nl, s). length s)") (auto dest: dec_cp_drop)

declare ws_scan.simps [simp del]

definition to_lower :: "char \<Rightarrow> char" where
  "to_lower c = (if 65 \<le> byte_val c \<and> byte_val c \<le> 90 then char_of (byte_val c + 32) else c)"

definition contraction_len :: "bytes \<Rightarrow> nat" where
  "contraction_len s =
     fold (\<lambda>x best. if length x \<le> length s \<and> map to_lower (take (length x) s) = x \<and> best < length x
                    then length x else best)
       [''s'', ''t'', ''re'', ''ve'', ''m'', ''ll'', ''d''] 0"

definition piece_len :: "bytes \<Rightarrow> nat" where
  "piece_len s =
     (let n = length s; (l0, c0) = cp_at s 0; (l1, c1) = cp_at s l0 in
      if c0 = 39 \<and> 0 < contraction_len (drop l0 s) then l0 + contraction_len (drop l0 s)
      else if \<not> is_L c0 \<and> \<not> is_N c0 \<and> \<not> is_nl c0 \<and> l1 \<noteq> 0 \<and> is_L c1
      then l0 + l1 + span is_L (drop (l0 + l1) s)
      else if is_L c0 then l0 + span is_L (drop l0 s)
      else if is_N c0 then span_n 3 is_N s
      else (let k = (if c0 = 32 then 1 else 0);
                run = span (\<lambda>c. \<not> is_ws_cp c \<and> \<not> is_L c \<and> \<not> is_N c) (drop k s) in
        if 0 < run then k + run + span is_nl (drop (k + run) s)
        else if is_ws_cp c0 then
          (let (e, last_nl) = ws_scan 0 0 s in
           if 0 < last_nl then last_nl
           else if e = n then e
           else if 2 \<le> e then e - 1
           else e)
        else l0))"

text \<open>The runs stay inside the text, so the pretokenizer always advances.\<close>

lemma span_le: "span P s \<le> length s"
proof (induction P s rule: span.induct)
  case (1 P s)
  obtain l c where d: "dec_cp s = (l, c)" by fastforce
  show ?case
  proof (cases "s = []")
    case False
    with dec_cp_len [OF False] d 1 show ?thesis by (subst span.simps) fastforce
  qed (simp add: span.simps)
qed

lemma span_n_le: "span_n m P s \<le> length s"
proof (induction m P s rule: span_n.induct)
  case (2 m P s)
  obtain l c where d: "dec_cp s = (l, c)" by fastforce
  show ?case
  proof (cases "s = []")
    case False
    with dec_cp_len [OF False] d 2 show ?thesis by fastforce
  qed simp
qed simp

lemma ws_scan_le:
  "pos \<le> fst (ws_scan pos last_nl s) \<and> fst (ws_scan pos last_nl s) \<le> pos + length s \<and>
   (last_nl \<le> pos \<longrightarrow> snd (ws_scan pos last_nl s) \<le> fst (ws_scan pos last_nl s))"
proof (induction pos last_nl s rule: ws_scan.induct)
  case (1 pos last_nl s)
  obtain l c where d: "dec_cp s = (l, c)" by fastforce
  show ?case
  proof (cases "s = [] \<or> \<not> is_ws_cp c")
    case True
    with d show ?thesis by (subst (1 2 3 4) ws_scan.simps) auto
  next
    case False
    let ?q = "if is_nl c then pos + l else last_nl"
    from False d have w: "ws_scan pos last_nl s = ws_scan (pos + l) ?q (drop l s)"
      by (subst ws_scan.simps) auto
    have l: "l \<le> length s" using dec_cp_len [of s] d False by simp
    from False d 1 have ih: "pos + l \<le> fst (ws_scan (pos + l) ?q (drop l s)) \<and>
        fst (ws_scan (pos + l) ?q (drop l s)) \<le> pos + l + length (drop l s) \<and>
       (?q \<le> pos + l \<longrightarrow> snd (ws_scan (pos + l) ?q (drop l s)) \<le> fst (ws_scan (pos + l) ?q (drop l s)))"
      by auto
    have q: "last_nl \<le> pos \<Longrightarrow> ?q \<le> pos + l" by simp
    show ?thesis unfolding w
    proof (intro conjI impI)
      show "pos \<le> fst (ws_scan (pos + l) ?q (drop l s))" using ih by linarith
      show "fst (ws_scan (pos + l) ?q (drop l s)) \<le> pos + length s" using ih l by simp
      show "last_nl \<le> pos \<Longrightarrow> snd (ws_scan (pos + l) ?q (drop l s)) \<le> fst (ws_scan (pos + l) ?q (drop l s))"
        using ih q by blast
    qed
  qed
qed

lemma contraction_le: "contraction_len s \<le> length s"
proof -
  have "fold (\<lambda>x best. if length x \<le> length s \<and> map to_lower (take (length x) s) = x \<and> best < length x
                    then length x else best) xs b \<le> max b (length s)" for xs and b
  proof (induction xs arbitrary: b)
    case (Cons a xs)
    from Cons [of b] Cons [of "length a"] show ?case by (auto simp: le_max_iff_disj)
  qed simp
  from this [of _ 0] show ?thesis by (simp add: contraction_len_def)
qed

lemma piece_len_pos:
  assumes "s \<noteq> []"
  shows "0 < piece_len s \<and> piece_len s \<le> length s"
proof -
  obtain l0 c0 where d0: "cp_at s 0 = (l0, c0)" by fastforce
  obtain l1 c1 where d1: "cp_at s l0 = (l1, c1)" by fastforce
  from dec_cp_len [OF assms] d0 assms have l0: "0 < l0" "l0 \<le> length s" by (auto simp: cp_at_def)
  have l1: "l0 + l1 \<le> length s"
    using dec_cp_len [of "drop l0 s"] d1 l0 by (auto simp: cp_at_def split: if_splits)
  obtain e q where w: "ws_scan 0 0 s = (e, q)" by fastforce
  from ws_scan_le [of 0 0 s] w have e: "e \<le> length s" "q \<le> e" by simp_all
  have ws1: "0 < e" if "is_ws_cp c0"
  proof -
    have "dec_cp s = (l0, c0)" using d0 assms by (simp add: cp_at_def)
    with that assms w ws_scan_le [of l0 "if is_nl c0 then l0 else 0" "drop l0 s"] l0 show ?thesis
      by (subst (asm) ws_scan.simps) (auto split: if_splits)
  qed
  have n1: "0 < span_n 3 is_N s" if "is_N c0"
    using that d0 assms l0 by (auto simp: cp_at_def numeral_3_eq_3)
  let ?k = "if c0 = 32 then 1 else 0 :: nat"
  let ?run = "span (\<lambda>c. \<not> is_ws_cp c \<and> \<not> is_L c \<and> \<not> is_N c) (drop ?k s)"
  have k: "?k + ?run \<le> length s"
    using span_le [of "\<lambda>c. \<not> is_ws_cp c \<and> \<not> is_L c \<and> \<not> is_N c" "drop ?k s"] assms
    by (cases s) auto
  have a1: "l0 + contraction_len (drop l0 s) \<le> length s" using contraction_le [of "drop l0 s"] l0 by simp
  have a2: "l0 + l1 + span is_L (drop (l0 + l1) s) \<le> length s"
    using span_le [of is_L "drop (l0 + l1) s"] l1 by simp
  have a3: "l0 + span is_L (drop l0 s) \<le> length s" using span_le [of is_L "drop l0 s"] l0 by simp
  have a4: "?k + ?run + span is_nl (drop (?k + ?run) s) \<le> length s"
    using span_le [of is_nl "drop (?k + ?run) s"] k by simp
  show ?thesis
    unfolding piece_len_def d0 d1 w Let_def prod.case
    using l0 l1 e ws1 n1 a1 a2 a3 a4 span_n_le [of 3 is_N s]
    by (auto split: if_splits)
qed

function pretokenize_from :: "nat \<Rightarrow> bytes \<Rightarrow> (nat \<times> nat) list" where
  "pretokenize_from i s =
     (if s = [] then []
      else (i, i + piece_len s) # pretokenize_from (i + piece_len s) (drop (piece_len s) s))"
  by pat_completeness auto
termination
  by (relation "measure (\<lambda>(i, s). length s)") (auto simp: piece_len_pos)

declare pretokenize_from.simps [simp del]

definition pretokenize :: "bytes \<Rightarrow> (nat \<times> nat) list" where
  "pretokenize t = pretokenize_from 0 t"

section \<open>Properties\<close>

text \<open>Consecutive non-empty pieces from \<open>i\<close> to \<open>n\<close>.\<close>

fun tiles :: "nat \<Rightarrow> nat \<Rightarrow> (nat \<times> nat) list \<Rightarrow> bool" where
  "tiles i n [] \<longleftrightarrow> i = n"
| "tiles i n ((a, b) # ps) \<longleftrightarrow> a = i \<and> a < b \<and> b \<le> n \<and> tiles b n ps"

lemma pretokenize_from_tiles: "tiles i (i + length s) (pretokenize_from i s)"
proof (induction i s rule: pretokenize_from.induct)
  case (1 i s)
  show ?case
  proof (cases "s = []")
    case False
    from piece_len_pos [OF False] 1 [OF False] show ?thesis
      by (subst pretokenize_from.simps) (simp add: False)
  qed (simp add: pretokenize_from.simps)
qed

lemma tiles_concat:
  "tiles i n ps \<Longrightarrow> n = length t \<Longrightarrow> concat (map (\<lambda>(a, b). take (b - a) (drop a t)) ps) = drop i t"
proof (induction i n ps rule: tiles.induct)
  case (2 i n a b ps)
  then have "concat (map (\<lambda>(a, b). take (b - a) (drop a t)) ps) = drop b t" "a < b" "a = i" by simp_all
  moreover from this have "drop b t = drop (b - a) (drop a t)" by simp
  ultimately show ?case by (simp del: drop_drop)
qed simp

lemma pretokenize_concat:
  "concat (map (\<lambda>(a, b). take (b - a) (drop a t)) (pretokenize t)) = t"
  using tiles_concat [OF _ refl, of 0 t] pretokenize_from_tiles [of 0 t] by (simp add: pretokenize_def)

text \<open>U+3000, the ideographic space: three bytes, one whitespace code point.\<close>

definition wide_space :: bytes where
  "wide_space = [char_of (0xE3::nat), char_of (0x80::nat), char_of (0x80::nat)]"

lemma wide_cps:
  "dec_cp (wide_space @ ''1'') = (3, 0x3000)"
  "dec_cp (drop 2 (wide_space @ ''1'')) = (1, 0x80)"
  "dec_cp ''1'' = (1, 49)"
  "drop 3 (wide_space @ ''1'') = ''1''" "length (wide_space @ ''1'') = 4" "length wide_space = 3"
  by code_simp+

lemma ascii_one [simp]: "\<not> is_L 49" "is_N 49" "\<not> is_ws_cp 49" "\<not> is_nl 49"
  by (simp_all add: is_L_def is_N_def is_ws_cp_def is_nl_def)

lemma wide_pieces:
  "piece_len (wide_space @ ''1'') = 2"
  "piece_len (drop 2 (wide_space @ ''1'')) = 1"
  "piece_len ''1'' = 1"
proof -
  let ?s = "wide_space @ ''1''"
  define t where "t = drop 2 (wide_space @ ''1'')"
  note wide_cps = wide_cps [folded t_def]
  have ne: "?s \<noteq> []" "t \<noteq> []" "drop 1 t = ''1''" "length t = 2" unfolding t_def by code_simp+
  have ws: "is_ws_cp 0x3000" "\<not> is_nl 0x3000" "\<not> is_ws_cp 0x80" "\<not> is_nl 0x80"
    by (simp_all add: is_ws_cp_def is_nl_def)
  have c: "cp_at ?s 0 = (3, 0x3000)" "cp_at ?s 3 = (1, 49)" "cp_at t 0 = (1, 0x80)" "cp_at t 1 = (1, 49)"
    "cp_at ''1'' 0 = (1, 49)" "cp_at ''1'' 1 = (0, 0)"
    using wide_cps ne by (simp_all only: cp_at_def) simp_all
  have sp: "span P ?s = 0" if "\<not> P 0x3000" for P
    using that wide_cps ne by (subst span.simps) simp
  have sp1: "span P ''1'' = 0" if "\<not> P 49" for P
    using that wide_cps by (subst span.simps) simp
  have spt: "span P t = 1" if "P 0x80" "\<not> P 49" for P
    using that wide_cps ne sp1 by (subst span.simps) simp
  have w: "ws_scan 0 0 ?s = (3, 0)"
    using wide_cps ne ws by (subst ws_scan.simps, simp, subst ws_scan.simps) simp
  show "piece_len ?s = 2"
    by (simp add: piece_len_def c ws sp w wide_cps(6) Let_def)
  show "piece_len (drop 2 (wide_space @ ''1'')) = 1"
    unfolding t_def [symmetric]
    using ne sp1 [of is_nl] c(4) by (simp add: piece_len_def c ws spt Let_def)
  show "piece_len ''1'' = 1"
    using wide_cps by (simp add: piece_len_def c Let_def numeral_3_eq_3)
qed

lemma wide_pretokenized: "pretokenize (wide_space @ ''1'') = [(0, 2), (2, 3), (3, 4)]"
proof -
  have ne: "wide_space @ ''1'' \<noteq> []" "drop 2 (wide_space @ ''1'') \<noteq> []"
    "drop 1 (drop 2 (wide_space @ ''1'')) = ''1''" by code_simp+
  show ?thesis unfolding pretokenize_def
    apply (subst pretokenize_from.simps)
    apply (simp only: ne wide_pieces if_False)
    apply (subst pretokenize_from.simps)
    apply (simp only: ne wide_pieces if_False)
    apply (subst pretokenize_from.simps)
    apply (simp add: wide_pieces)
    apply (simp add: pretokenize_from.simps)
    done
qed

text \<open>C38: The pretokenizer cuts every text into consecutive non-empty pieces that cover it, so nothing
  is lost or seen twice; but before a non-blank, the run of blanks gives up its last byte and not
  its last character, so one wide space before a digit is cut into two pieces inside the character.\<close>

theorem pretokenize_tiles:
  "tiles 0 (length t) (pretokenize t) \<and>
   concat (map (\<lambda>(a, b). take (b - a) (drop a t)) (pretokenize t)) = t \<and>
   pretokenize (wide_space @ ''1'') = [(0, 2), (2, 3), (3, 4)]"
proof (intro conjI)
  show "tiles 0 (length t) (pretokenize t)"
    using pretokenize_from_tiles [of 0 t] by (simp add: pretokenize_def)
  show "concat (map (\<lambda>(a, b). take (b - a) (drop a t)) (pretokenize t)) = t" by (rule pretokenize_concat)
  show "pretokenize (wide_space @ ''1'') = [(0, 2), (2, 3), (3, 4)]" by (rule wide_pretokenized)
qed

end
