(* ===== verification/Bpe.thy ===== *)
theory Bpe
  imports Tokenizer Json "HOL-Library.Monad_Syntax"
begin

text \<open>
  The tokenizer itself (\<^verbatim>\<open>src/tokenizer/tokenizer.cpp\<close>, class \<^verbatim>\<open>Tokenizer\<close>): loading, the merge
  loop of a piece with its byte fallback, \<^verbatim>\<open>encode\<close> with the added tokens, and \<^verbatim>\<open>decode\<close>.
  The memo table of \<^verbatim>\<open>bpe_piece\<close> only repeats earlier results and is left out.  A hash map is a
  partial map; the pair key of the merge table is the two symbols with a byte 01 between
  them, as in the source.
\<close>

record Tokenizer =
  tok_to_id :: "bytes \<rightharpoonup> token"
  id_to_tok :: "bytes list"
  merge_rank :: "bytes \<rightharpoonup> int"
  added :: "(bytes \<times> token) list"
  added_map :: "bytes \<rightharpoonup> token"
  eos :: token

definition pair_key :: "bytes \<Rightarrow> bytes \<Rightarrow> bytes" where
  "pair_key a b = a @ [CHR 0x01] @ b"

section \<open>Loading\<close>

text \<open>\<^verbatim>\<open>get<int>\<close> converts numbers and booleans and throws on anything else; a negative id would make the
  table's size wrap around, and the allocation throws.\<close>

fun get_id :: "json \<Rightarrow> nat option" where
  "get_id (JInt i) = (if 0 \<le> i then Some (nat i) else None)"
| "get_id (JFloat r) = (if - 1 < r then Some (nat \<lfloor>r\<rfloor>) else None)"
| "get_id (JBool b) = Some (if b then 1 else 0)"
| "get_id _ = None"

text \<open>A range-for over a value, and the iteration with keys, which throws on a non-object.\<close>

fun elements :: "json \<Rightarrow> json list" where
  "elements (JArr js) = js"
| "elements (JObj ms) = map snd ms"
| "elements JNull = []"
| "elements j = [j]"

definition keyed :: "json \<Rightarrow> (bytes \<times> json) list option" where
  "keyed j = (if is_object j \<or> elements j = [] then Some (members j) else None)"

fun vocab_ids :: "(bytes \<times> json) list \<Rightarrow> (bytes \<times> nat) list option" where
  "vocab_ids [] = Some []"
| "vocab_ids ((s, j) # ms) =
     (case (get_id j, vocab_ids ms) of (Some i, Some r) \<Rightarrow> Some ((s, i) # r) | _ \<Rightarrow> None)"

definition load_vocab :: "(bytes \<times> nat) list \<Rightarrow> Tokenizer \<Rightarrow> Tokenizer" where
  "load_vocab v tk =
     fold (\<lambda>(s, i) tk. tk\<lparr>tok_to_id := (tok_to_id tk)(s \<mapsto> int i), id_to_tok := (id_to_tok tk)[i := s]\<rparr>) v
       (tk\<lparr>id_to_tok := replicate (Suc (fold max (map snd v) 0)) []\<rparr>)"

text \<open>A merge is a pair of symbols, or one string cut at its first space; with no space both parts are
  the whole string.\<close>

fun merge_pair :: "json \<Rightarrow> (bytes \<times> bytes) option" where
  "merge_pair (JArr (JStr a # JStr b # _)) = Some (a, b)"
| "merge_pair (JStr s) =
     (case find_str '' '' s of Some sp \<Rightarrow> Some (take sp s, drop (Suc sp) s) | None \<Rightarrow> Some (s, s))"
| "merge_pair _ = None"

fun load_merges :: "json list \<Rightarrow> int \<Rightarrow> (bytes \<rightharpoonup> int) \<Rightarrow> (bytes \<rightharpoonup> int) option" where
  "load_merges [] rank m = Some m"
| "load_merges (j # js) rank m =
     (case merge_pair j of
        Some (a, b) \<Rightarrow> load_merges js (rank + 1) (m(pair_key a b \<mapsto> rank))
      | None \<Rightarrow> None)"

definition resize_to :: "nat \<Rightarrow> bytes list \<Rightarrow> bytes list" where
  "resize_to n xs = (if length xs \<le> n then xs @ replicate (Suc n - length xs) [] else xs)"

fun load_added :: "json list \<Rightarrow> Tokenizer \<Rightarrow> Tokenizer option" where
  "load_added [] tk = Some tk"
| "load_added (j # js) tk =
     (case (str_field ''content'' j, Option.bind (field ''id'' j) get_id) of
        (Some c, Some i) \<Rightarrow>
          load_added js (tk\<lparr>added := added tk @ [(c, int i)], added_map := (added_map tk)(c \<mapsto> int i),
            id_to_tok := (resize_to i (id_to_tok tk))[i := c]\<rparr>)
      | _ \<Rightarrow> None)"

text \<open>\<^verbatim>\<open>std::sort\<close> by falling length leaves the order of equally long entries open; a stable sort is one
  of the orders it may choose.\<close>

definition sort_added :: "(bytes \<times> token) list \<Rightarrow> (bytes \<times> token) list" where
  "sort_added xs = sort_key (\<lambda>(c, i). - int (length c)) xs"

definition empty_tokenizer :: Tokenizer where
  "empty_tokenizer = \<lparr>tok_to_id = (\<lambda>_. None), id_to_tok = [], merge_rank = (\<lambda>_. None), added = [],
     added_map = (\<lambda>_. None), eos = 0\<rparr>"

text \<open>The parsed \<^verbatim>\<open>tokenizer.json\<close>, read in the order of the source; \<open>None\<close> where \<^verbatim>\<open>at\<close> or \<^verbatim>\<open>get\<close>
  throws.\<close>

definition load :: "json \<Rightarrow> Tokenizer option" where
  "load j = do {
     model \<leftarrow> field ''model'' j;
     vocab \<leftarrow> field ''vocab'' model;
     ms \<leftarrow> keyed vocab;
     v \<leftarrow> vocab_ids ms;
     merges \<leftarrow> field ''merges'' model;
     m \<leftarrow> load_merges (elements merges) 0 (\<lambda>_. None);
     let tk = (load_vocab v empty_tokenizer)\<lparr>merge_rank := m\<rparr>;
     tk \<leftarrow> (case field ''added_tokens'' j of None \<Rightarrow> Some tk
            | Some a \<Rightarrow> map_option (\<lambda>tk. tk\<lparr>added := sort_added (added tk)\<rparr>) (load_added (elements a) tk));
     Some (tk\<lparr>eos := (case added_map tk ''<|endoftext|>'' of Some i \<Rightarrow> i | None \<Rightarrow> 0)\<rparr>)
   }"

definition special_id :: "Tokenizer \<Rightarrow> bytes \<Rightarrow> token" where
  "special_id tk s = (case added_map tk s of Some i \<Rightarrow> i | None \<Rightarrow> - 1)"

section \<open>Byte-pair merges\<close>

text \<open>The first pair of least rank: index and rank, or \<open>-1\<close> when no pair is in the table.\<close>

definition INT32_MAX :: int where "INT32_MAX = 2 ^ 31 - 1"

fun best_scan :: "Tokenizer \<Rightarrow> nat \<Rightarrow> bytes list \<Rightarrow> int \<times> int \<Rightarrow> int \<times> int" where
  "best_scan tk i (a # b # ss) (best, best_rank) =
     best_scan tk (Suc i) (b # ss)
       (case merge_rank tk (pair_key a b) of
          Some r \<Rightarrow> if r < best_rank then (int i, r) else (best, best_rank)
        | None \<Rightarrow> (best, best_rank))"
| "best_scan tk i ss br = br"

lemma best_scan_range:
  "fst (best_scan tk i ss br) = fst br \<or>
   (int i \<le> fst (best_scan tk i ss br) \<and> fst (best_scan tk i ss br) + 1 < int i + int (length ss))"
proof (induction tk i ss br rule: best_scan.induct)
  case (1 tk i a b ss best best_rank)
  then show ?case by (auto split: option.splits if_splits)
qed simp_all

definition merge_at :: "nat \<Rightarrow> 'a list list \<Rightarrow> 'a list list" where
  "merge_at k ss = take k ss @ (ss ! k @ ss ! Suc k) # drop (k + 2) ss"

function merge_loop :: "Tokenizer \<Rightarrow> bytes list \<Rightarrow> bytes list" where
  "merge_loop tk ss =
     (if length ss \<le> 1 then ss
      else let best = fst (best_scan tk 0 ss (- 1, INT32_MAX)) in
        if best < 0 then ss else merge_loop tk (merge_at (nat best) ss))"
  by pat_completeness auto
termination
proof (relation "measure (\<lambda>(tk, ss). length ss)", simp)
  fix tk and ss :: "bytes list" and x
  assume "\<not> length ss \<le> 1" "x = fst (best_scan tk 0 ss (- 1, INT32_MAX))" "\<not> x < 0"
  with best_scan_range [of tk 0 ss "(- 1, INT32_MAX)"]
  show "((tk, merge_at (nat x) ss), (tk, ss)) \<in> measure (\<lambda>(tk, ss). length ss)"
    by (auto simp: merge_at_def)
qed

declare merge_loop.simps [simp del]

text \<open>A symbol outside the vocabulary falls apart into its byte symbols; a byte symbol with no id of
  its own is dropped.\<close>

function byte_fallback :: "Tokenizer \<Rightarrow> bytes \<Rightarrow> token list" where
  "byte_fallback tk sy =
     (if sy = [] then []
      else let l = fst (dec_cp sy) in
        (case s2b (take l sy) of
           Some b \<Rightarrow> (case tok_to_id tk (b2s b) of Some i \<Rightarrow> [i] | None \<Rightarrow> [])
         | None \<Rightarrow> []) @ byte_fallback tk (drop l sy))"
  by pat_completeness auto
termination
  by (relation "measure (\<lambda>(tk, sy). length sy)") (auto simp: dec_cp_len)

declare byte_fallback.simps [simp del]

definition sym_ids :: "Tokenizer \<Rightarrow> bytes \<Rightarrow> token list" where
  "sym_ids tk sy = (case tok_to_id tk sy of Some i \<Rightarrow> [i] | None \<Rightarrow> byte_fallback tk sy)"

definition bpe_piece :: "Tokenizer \<Rightarrow> bytes \<Rightarrow> token list" where
  "bpe_piece tk piece =
     concat (map (sym_ids tk) (merge_loop tk (map (\<lambda>c. b2s (byte_val c)) piece)))"

section \<open>Encoding\<close>

fun match_added :: "(bytes \<times> token) list \<Rightarrow> bytes \<Rightarrow> token \<times> nat \<Rightarrow> token \<times> nat" where
  "match_added [] s (m, l) = (m, l)"
| "match_added ((c, i) # as) s (m, l) =
     (if length c \<le> l then (m, l)
      else if length c \<le> length s \<and> take (length c) s = c then match_added as s (i, length c)
      else match_added as s (m, l))"

lemma match_added_progress:
  "0 < l \<or> m < 0 \<Longrightarrow> 0 \<le> fst (match_added as s (m, l)) \<Longrightarrow> 0 < snd (match_added as s (m, l))"
proof (induction as s "(m, l)" arbitrary: m l rule: match_added.induct)
  case (2 c i as s m l)
  have "c \<noteq> [] \<or> length c \<le> l" by auto
  with 2 show ?case by (cases "length c \<le> l") (auto split: if_splits)
qed simp

text \<open>The text between two added tokens, piece by piece.\<close>

definition encode_seg :: "Tokenizer \<Rightarrow> bytes \<Rightarrow> token list" where
  "encode_seg tk seg = concat (map (\<lambda>(a, b). bpe_piece tk (take (b - a) (drop a seg))) (pretokenize seg))"

text \<open>\<open>seg\<close> is the text from \<^verbatim>\<open>seg_start\<close> to the position \<^verbatim>\<open>i\<close>, \<open>s\<close> the text from there on.\<close>

function encode_from :: "Tokenizer \<Rightarrow> bytes \<Rightarrow> bytes \<Rightarrow> token list" where
  "encode_from tk seg s =
     (if s = [] then encode_seg tk seg
      else let (m, l) = match_added (added tk) s (- 1, 0) in
        if 0 \<le> m then encode_seg tk seg @ m # encode_from tk [] (drop l s)
        else encode_from tk (seg @ [hd s]) (tl s))"
  by pat_completeness auto
termination
proof (relation "measure (\<lambda>(tk, seg, s). length s)")
  fix tk :: Tokenizer and seg s :: bytes and x m l
  assume "s \<noteq> []" "x = match_added (added tk) s (- 1, 0)" "(m, l) = x" "0 \<le> m"
  with match_added_progress [of 0 "- 1" "added tk" s]
  show "((tk, [], drop l s), (tk, seg, s)) \<in> measure (\<lambda>(tk, seg, s). length s)"
    by (cases "match_added (added tk) s (- 1, 0)") simp
qed simp_all

declare encode_from.simps [simp del]

definition encode :: "Tokenizer \<Rightarrow> bytes \<Rightarrow> token list" where
  "encode tk t = encode_from tk [] t"

section \<open>Decoding\<close>

function decode_sym :: "bytes \<Rightarrow> bytes" where
  "decode_sym sy =
     (if sy = [] then []
      else let l = fst (dec_cp sy) in
        (case s2b (take l sy) of Some b \<Rightarrow> [char_of b] | None \<Rightarrow> take l sy) @ decode_sym (drop l sy))"
  by pat_completeness auto
termination
  by (relation "measure length") (auto simp: dec_cp_len)

declare decode_sym.simps [simp del]

definition decode_id :: "Tokenizer \<Rightarrow> bool \<Rightarrow> token \<Rightarrow> bytes" where
  "decode_id tk keep_special i =
     (if i < 0 \<or> int (length (id_to_tok tk)) \<le> i then []
      else let t = id_to_tok tk ! nat i in
        if added_map tk t \<noteq> None then (if keep_special then t else []) else decode_sym t)"

definition decode_tokens :: "Tokenizer \<Rightarrow> token list \<Rightarrow> bool \<Rightarrow> bytes" where
  "decode_tokens tk ids keep_special = concat (map (decode_id tk keep_special) ids)"

section \<open>The byte alphabet is a code\<close>

unbundle bit_operations_syntax

lemma six_bits: "\<forall>r \<in> set [0..<64]. (0x80::nat) OR r = 0x80 + r \<and> (0x80 + r) AND 0x3F = r"
  by code_simp

lemma five_bits: "\<forall>q \<in> set [0..<32]. (0xC0::nat) OR q = 0xC0 + q \<and> (0xC0 + q) AND 0xE0 = 0xC0 \<and> (0xC0 + q) AND 0x1F = q"
  by code_simp

lemma low6: "cp AND 0x3F = take_bit 6 (cp::nat)"
  by (simp only: take_bit_eq_mask) (simp add: mask_eq_exp_minus_1)

lemma split6: "push_bit 6 (drop_bit 6 cp) OR take_bit 6 cp = (cp::nat)"
  by (rule bit_eqI) (auto simp: bit_simps)

lemma dec_enc:
  assumes "cp < 0x800"
  shows "dec_cp (enc_cp cp @ r) = (length (enc_cp cp), cp)"
proof (cases "cp < 0x80")
  case True
  then show ?thesis by (simp add: enc_cp_def dec_cp_def Let_def ex_byte)
next
  case False
  define q where "q = drop_bit 6 cp"
  define m where "m = cp AND 0x3F"
  have "cp div 64 < 32" using assms by simp
  then have q: "q \<in> set [0..<32]" by (simp add: q_def drop_bit_eq_div)
  have "m = cp mod 64" by (simp add: m_def low6 take_bit_eq_mod)
  then have m: "m \<in> set [0..<64]" by simp
  have e: "enc_cp cp = [char_of (0xC0 + q), char_of (0x80 + m)]"
    using False assms five_bits q six_bits m by (simp add: enc_cp_def q_def [symmetric] m_def [symmetric])
  have v: "byte_val (char_of (0xC0 + q)) = 0xC0 + q" "byte_val (char_of (0x80 + m)) = 0x80 + m"
    using q m by (simp_all add: ex_byte)
  have f: "(0xC0 + q) AND 0xE0 = 0xC0" "(0xC0 + q) AND 0x1F = q" "(0x80 + m) AND 0x3F = m"
    using five_bits six_bits q m by blast+
  have "push_bit 6 q OR m = cp" using split6 by (simp only: q_def m_def low6)
  then show ?thesis
    using v f by (simp add: e dec_cp_def Let_def)
qed

lemma byte_cp_less: "b < 256 \<Longrightarrow> byte_cp b < 0x800"
proof -
  assume "b < 256"
  moreover have "length (filter (\<lambda>x. \<not> printable x) [0..<b]) \<le> b"
    using length_filter_le [of "\<lambda>x. \<not> printable x" "[0..<b]"] by simp
  ultimately show ?thesis by (simp add: byte_cp_def)
qed

lemma byte_cp_low: "b < 256 \<Longrightarrow> byte_cp b < 256 \<longleftrightarrow> printable b"
  by (simp add: byte_cp_def)

lemma byte_cp_mono:
  assumes "b < c" and "\<not> printable b" and "\<not> printable c"
  shows "byte_cp b < byte_cp c"
proof -
  have "[0..<c] = [0..<b] @ b # [Suc b..<c]"
    using assms(1) upt_add_eq_append [of 0 b "c - b"] upt_conv_Cons [of b c] by simp
  with assms(2,3) show ?thesis by (simp add: byte_cp_def)
qed

lemma byte_cp_inj: "b < 256 \<Longrightarrow> c < 256 \<Longrightarrow> byte_cp b = byte_cp c \<Longrightarrow> b = c"
proof -
  assume b: "b < 256" and c: "c < 256" and eq: "byte_cp b = byte_cp c"
  from byte_cp_low [OF b] byte_cp_low [OF c] eq have p: "printable b = printable c" by simp
  show "b = c"
  proof (cases "printable b")
    case True
    with p eq show ?thesis by (simp add: byte_cp_def)
  next
    case False
    with p eq byte_cp_mono [of b c] byte_cp_mono [of c b] show ?thesis
      by (cases rule: linorder_cases [of b c]) auto
  qed
qed

lemma dec_b2s: "b < 256 \<Longrightarrow> dec_cp (b2s b @ r) = (length (b2s b), byte_cp b)"
  by (simp add: b2s_def dec_enc byte_cp_less)

lemma b2s_inj: "b < 256 \<Longrightarrow> c < 256 \<Longrightarrow> b2s b = b2s c \<Longrightarrow> b = c"
  using dec_b2s [of b "[]"] dec_b2s [of c "[]"] byte_cp_inj by fastforce

lemma b2s_nonempty: "b2s b \<noteq> []"
  by (simp add: b2s_def enc_cp_def)

lemma s2b_Some: "s2b s = Some b \<longleftrightarrow> b < 256 \<and> b2s b = s"
proof
  assume "s2b s = Some b"
  then show "b < 256 \<and> b2s b = s" by (auto simp: s2b_def find_Some_iff)
next
  assume b: "b < 256 \<and> b2s b = s"
  show "s2b s = Some b"
  proof (cases "s2b s")
    case None
    with b show ?thesis by (auto simp: s2b_def find_None_iff)
  next
    case (Some c)
    then have "c < 256 \<and> b2s c = s" by (auto simp: s2b_def find_Some_iff)
    with b Some b2s_inj show ?thesis by metis
  qed
qed

lemma s2b_b2s [simp]: "b < 256 \<Longrightarrow> s2b (b2s b) = Some b"
  by (simp add: s2b_Some)

section \<open>Symbols stand for bytes\<close>

definition sym :: "bytes \<Rightarrow> bytes" where
  "sym bs = concat (map (\<lambda>c. b2s (byte_val c)) bs)"

lemma sym_simps [simp]: "sym [] = []" "sym (c # bs) = b2s (byte_val c) @ sym bs"
  "sym (bs @ cs) = sym bs @ sym cs"
  by (simp_all add: sym_def)

lemma decode_sym_b2s: "b < 256 \<Longrightarrow> decode_sym (b2s b @ r) = char_of b # decode_sym r"
  by (subst decode_sym.simps) (simp add: dec_b2s b2s_nonempty Let_def)

lemma decode_sym_sym: "decode_sym (sym bs) = bs"
  by (induction bs) (simp_all add: decode_sym.simps [of "[]"] decode_sym_b2s)

lemma byte_fallback_b2s:
  "b < 256 \<Longrightarrow> byte_fallback tk (b2s b @ r) =
     (case tok_to_id tk (b2s b) of Some i \<Rightarrow> [i] | None \<Rightarrow> []) @ byte_fallback tk r"
  by (subst byte_fallback.simps) (simp add: dec_b2s b2s_nonempty Let_def)

lemma merge_at_split:
  assumes "Suc k < length ss"
  shows "ss = take k ss @ ss ! k # ss ! Suc k # drop (k + 2) ss"
proof -
  from assms have "drop k ss = ss ! k # ss ! Suc k # drop (k + 2) ss"
    by (metis Cons_nth_drop_Suc Suc_lessD add_2_eq_Suc')
  then show ?thesis by (metis append_take_drop_id)
qed

lemma merge_at_sym: "Suc k < length bss \<Longrightarrow> merge_at k (map sym bss) = map sym (merge_at k bss)"
  by (simp add: merge_at_def take_map drop_map)

lemma merge_at_concat: "Suc k < length bss \<Longrightarrow> concat (merge_at k bss) = concat bss"
proof -
  assume "Suc k < length bss"
  from arg_cong [OF merge_at_split [OF this], of concat] show ?thesis by (simp add: merge_at_def)
qed

lemma merge_loop_sym: "\<exists>bss'. merge_loop tk (map sym bss) = map sym bss' \<and> concat bss' = concat bss"
proof (induction "length bss" arbitrary: bss rule: less_induct)
  case less
  let ?best = "fst (best_scan tk 0 (map sym bss) (- 1, INT32_MAX))"
  show ?case
  proof (cases "length bss \<le> 1 \<or> ?best < 0")
    case True
    then have "merge_loop tk (map sym bss) = map sym bss" by (subst merge_loop.simps) (auto simp: Let_def)
    then show ?thesis by blast
  next
    case False
    define k where "k = nat ?best"
    have k: "Suc k < length bss" "\<not> length bss \<le> 1"
      using False best_scan_range [of tk 0 "map sym bss" "(- 1, INT32_MAX)"] by (auto simp: k_def)
    have "merge_loop tk (map sym bss) = merge_loop tk (merge_at k (map sym bss))"
      using False by (subst merge_loop.simps) (simp add: Let_def k_def)
    also have "\<dots> = merge_loop tk (map sym (merge_at k bss))" by (simp add: merge_at_sym k)
    finally have e: "merge_loop tk (map sym bss) = merge_loop tk (map sym (merge_at k bss))" .
    have "length (merge_at k bss) < length bss" using k by (simp add: merge_at_def)
    from less [OF this] e merge_at_concat [OF k(1)] show ?thesis by simp
  qed
qed

section \<open>Well-formed tokenizers\<close>

text \<open>The tables agree: an id of the vocabulary reads back as its symbol, every byte symbol has an id,
  vocabulary and added tokens are apart, and the added tokens are sorted by falling length.\<close>

definition tok_ok :: "Tokenizer \<Rightarrow> bool" where
  "tok_ok tk \<longleftrightarrow>
     (\<forall>s i. tok_to_id tk s = Some i \<longrightarrow>
        0 \<le> i \<and> i < int (length (id_to_tok tk)) \<and> id_to_tok tk ! nat i = s \<and> added_map tk s = None) \<and>
     (\<forall>b < 256. tok_to_id tk (b2s b) \<noteq> None) \<and>
     (\<forall>(c, i) \<in> set (added tk). c \<noteq> [] \<and> 0 \<le> i \<and> i < int (length (id_to_tok tk)) \<and>
        id_to_tok tk ! nat i = c \<and> added_map tk c \<noteq> None) \<and>
     sorted (map (\<lambda>(c, i). - int (length c)) (added tk))"

lemma decode_append [simp]: "decode_tokens tk (xs @ ys) k = decode_tokens tk xs k @ decode_tokens tk ys k"
  by (simp add: decode_tokens_def)

lemma decode_Nil [simp]: "decode_tokens tk [] k = []"
  by (simp add: decode_tokens_def)

lemma decode_Cons: "decode_tokens tk (x # xs) k = decode_id tk k x @ decode_tokens tk xs k"
  by (simp add: decode_tokens_def)

lemma tok_vocab: "tok_ok tk \<Longrightarrow> tok_to_id tk s = Some i \<Longrightarrow>
  0 \<le> i \<and> i < int (length (id_to_tok tk)) \<and> id_to_tok tk ! nat i = s \<and> added_map tk s = None"
  unfolding tok_ok_def by blast

lemma tok_added: "tok_ok tk \<Longrightarrow> (c, i) \<in> set (added tk) \<Longrightarrow>
  c \<noteq> [] \<and> 0 \<le> i \<and> i < int (length (id_to_tok tk)) \<and> id_to_tok tk ! nat i = c \<and> added_map tk c \<noteq> None"
  unfolding tok_ok_def by blast

lemma decode_vocab: "tok_ok tk \<Longrightarrow> tok_to_id tk s = Some i \<Longrightarrow> decode_id tk k i = decode_sym s"
  using tok_vocab [of tk s i] by (simp add: decode_id_def Let_def)

lemma decode_added: "tok_ok tk \<Longrightarrow> (c, i) \<in> set (added tk) \<Longrightarrow> decode_id tk True i = c"
  using tok_added [of tk c i] by (simp add: decode_id_def Let_def)

lemma decode_fallback: "tok_ok tk \<Longrightarrow> decode_tokens tk (byte_fallback tk (sym bs)) k = bs"
proof (induction bs)
  case Nil
  then show ?case by (simp add: byte_fallback.simps [of tk "[]"])
next
  case (Cons c bs)
  from Cons.prems have "tok_to_id tk (b2s (byte_val c)) \<noteq> None" by (simp add: tok_ok_def)
  then obtain i where i: "tok_to_id tk (b2s (byte_val c)) = Some i" by blast
  from decode_vocab [OF Cons.prems i] decode_sym_b2s [of "byte_val c" "[]"]
  have "decode_id tk k i = [c]" by (simp add: decode_sym.simps [of "[]"])
  with Cons i show ?case by (simp add: byte_fallback_b2s decode_Cons)
qed

lemma decode_sym_ids: "tok_ok tk \<Longrightarrow> decode_tokens tk (sym_ids tk (sym bs)) k = bs"
  by (auto simp: sym_ids_def decode_fallback decode_Cons decode_vocab decode_sym_sym split: option.splits)

lemma decode_syms:
  "tok_ok tk \<Longrightarrow> decode_tokens tk (concat (map (sym_ids tk) (map sym bss))) k = concat bss"
  by (induction bss) (simp_all add: decode_sym_ids)

lemma decode_piece: "tok_ok tk \<Longrightarrow> decode_tokens tk (bpe_piece tk piece) k = piece"
proof -
  assume ok: "tok_ok tk"
  have "map (\<lambda>c. b2s (byte_val c)) piece = map sym (map (\<lambda>c. [c]) piece)" by simp
  with merge_loop_sym [of tk "map (\<lambda>c. [c]) piece"] obtain bss where
    b: "merge_loop tk (map (\<lambda>c. b2s (byte_val c)) piece) = map sym bss" and
    c: "concat bss = concat (map (\<lambda>c. [c]) piece)"
    by (metis (no_types))
  have "concat (map (\<lambda>c. [c]) piece) = piece" by (induction piece) simp_all
  with decode_syms [OF ok, of bss k] show ?thesis unfolding bpe_piece_def b using c by simp
qed

lemma decode_concat: "decode_tokens tk (concat xss) k = concat (map (\<lambda>xs. decode_tokens tk xs k) xss)"
  by (induction xss) simp_all

lemma decode_seg: "tok_ok tk \<Longrightarrow> decode_tokens tk (encode_seg tk seg) k = seg"
  using pretokenize_concat [of seg]
  by (simp add: encode_seg_def decode_concat decode_piece case_prod_unfold comp_def)

lemma match_added_hit:
  "0 \<le> fst (match_added as s (m, l)) \<Longrightarrow> m < 0 \<or> (take l s, m) \<in> set bs \<Longrightarrow> set as \<subseteq> set bs \<Longrightarrow>
   (take (snd (match_added as s (m, l))) s, fst (match_added as s (m, l))) \<in> set bs"
  by (induction as s "(m, l)" arbitrary: m l rule: match_added.induct) (auto split: if_splits)

lemma decode_encode_from: "tok_ok tk \<Longrightarrow> decode_tokens tk (encode_from tk seg s) True = seg @ s"
proof (induction tk seg s rule: encode_from.induct)
  case (1 tk seg s)
  obtain m l where ml: "match_added (added tk) s (- 1, 0) = (m, l)" by fastforce
  consider "s = []" | "s \<noteq> []" "0 \<le> m" | "s \<noteq> []" "m < 0" by fastforce
  then show ?case
  proof cases
    case 1
    with "1.prems" show ?thesis by (subst encode_from.simps) (simp add: decode_seg)
  next
    case 2
    from match_added_hit [of "added tk" s "- 1" 0 "added tk"] ml 2 have "(take l s, m) \<in> set (added tk)" by simp
    from decode_added [OF "1.prems" this] have "decode_id tk True m = take l s" .
    moreover have "decode_tokens tk (encode_from tk [] (drop l s)) True = drop l s"
      using "1.IH"(1) [OF 2(1) ml [symmetric] refl 2(2) "1.prems"] by simp
    ultimately show ?thesis
      using 2 ml "1.prems" by (subst encode_from.simps) (simp add: decode_seg decode_Cons)
  next
    case 3
    have "decode_tokens tk (encode_from tk (seg @ [hd s]) (tl s)) True = seg @ s"
      using "1.IH"(2) [OF 3(1) ml [symmetric] refl _ "1.prems"] 3 by simp
    with 3 ml show ?thesis by (subst encode_from.simps) simp
  qed
qed

text \<open>The scan over the added tokens stops early, yet no longer match is missed.\<close>

lemma match_added_longest:
  "sorted (map (\<lambda>(c, i). - int (length c)) as) \<Longrightarrow> (c, i) \<in> set as \<Longrightarrow> take (length c) s = c \<Longrightarrow>
   length c \<le> snd (match_added as s (m, l))"
proof (induction as s "(m, l)" arbitrary: m l rule: match_added.induct)
  case (2 c' i' as s m l)
  have mono: "l \<le> snd (match_added as s (m, l))" for as m l
    by (induction as s "(m, l)" arbitrary: m l rule: match_added.induct) auto
  have le: "length c \<le> length c'" using 2 by fastforce
  show ?case
  proof (cases "length c' \<le> l")
    case True
    with le show ?thesis by simp
  next
    case False
    have len: "length c \<le> length s" using 2(5) by (metis length_take min.cobounded1)
    show ?thesis
    proof (cases "length c' \<le> length s \<and> take (length c') s = c'")
      case True
      with False le mono [of "length c'" as i'] show ?thesis by simp
    next
      case no: False
      with len 2(5) 2(4) have "(c, i) \<in> set as" by auto
      with 2 False no show ?thesis by auto
    qed
  qed
qed simp

lemma match_added_ids:
  "\<forall>(c, i) \<in> set as. 0 \<le> i \<Longrightarrow> match_added as s (m, l) = (m, l) \<or> 0 \<le> fst (match_added as s (m, l))"
proof (induction as s "(m, l)" arbitrary: m l rule: match_added.induct)
  case (2 c i as s m l)
  from 2(3) have i: "0 \<le> i" "\<forall>(c, i) \<in> set as. 0 \<le> i" by auto
  show ?case
  proof (cases "length c \<le> l")
    case False
    show ?thesis
    proof (cases "length c \<le> length s \<and> take (length c) s = c")
      case True
      from 2(1) [OF False True i(2)] i(1) False True show ?thesis by auto
    next
      case no: False
      from 2(2) [OF False no i(2)] False no show ?thesis by auto
    qed
  qed simp
qed simp

lemma match_added_len: "l \<le> length s \<Longrightarrow> snd (match_added as s (m, l)) \<le> length s"
  by (induction as s "(m, l)" arbitrary: m l rule: match_added.induct) simp_all

lemma encode_at_added:
  assumes ok: "tok_ok tk" and c: "(c, i) \<in> set (added tk)" and t: "take (length c) t = c"
  obtains c' i' where "(c', i') \<in> set (added tk)" "length c \<le> length c'" "take (length c') t = c'"
    "encode tk t = i' # encode tk (drop (length c') t)"
proof -
  obtain m l where ml: "match_added (added tk) t (- 1, 0) = (m, l)" by fastforce
  have "sorted (map (\<lambda>(c, i). - int (length c)) (added tk))" using ok by (simp add: tok_ok_def)
  from match_added_longest [OF this c t, of "- 1" 0] ml have l: "length c \<le> l" by simp
  moreover from tok_added [OF ok c] have "c \<noteq> []" by blast
  ultimately have l0: "0 < l" by (metis gr0I le_zero_eq length_0_conv)
  have "\<forall>(c, i) \<in> set (added tk). 0 \<le> i" using tok_added [OF ok] by blast
  from match_added_ids [OF this, of t "- 1" 0] ml l0 have m: "0 \<le> m" by auto
  from match_added_hit [of "added tk" t "- 1" 0 "added tk"] ml m
  have hit: "(take l t, m) \<in> set (added tk)" by simp
  from match_added_len [of 0 t "added tk" "- 1"] ml have "l \<le> length t" by simp
  then have lt: "length (take l t) = l" by simp
  have "t \<noteq> []" using t \<open>c \<noteq> []\<close> by auto
  with ml m have e: "encode tk t = m # encode tk (drop l t)"
    unfolding encode_def by (subst encode_from.simps) (simp add: encode_seg_def pretokenize_def pretokenize_from.simps)
  from that [OF hit] lt l e show thesis by simp
qed


text \<open>A tokenizer with the 256 byte symbols and one added token.\<close>

definition byte_tokenizer :: Tokenizer where
  "byte_tokenizer = \<lparr>tok_to_id = (\<lambda>s. map_option int (s2b s)), id_to_tok = map b2s [0..<256] @ [''<|user|>''],
     merge_rank = [pair_key ''h'' ''i'' \<mapsto> 0], added = [(''<|user|>'', 256)],
     added_map = [''<|user|>'' \<mapsto> 256], eos = 0\<rparr>"

lemma length_b2s: "b < 256 \<Longrightarrow> length (b2s b) \<le> 2"
  using byte_cp_less [of b] by (simp add: b2s_def enc_cp_def)

lemma byte_tokenizer_ok: "tok_ok byte_tokenizer"
proof -
  have "b2s b \<noteq> ''<|user|>''" if "b < 256" for b
    using length_b2s [OF that] by auto
  then show ?thesis
    by (auto simp: tok_ok_def byte_tokenizer_def s2b_Some nth_append)
qed


end
