(* ===== verification/Request.thy ===== *)
theory Request
  imports Complex_Main Helios_Prelude Json Output_Parser Chat_Template Vision Base64 Sampler
begin

text \<open>
  The request side of the HTTP server (\<^verbatim>\<open>src/engine/server.cpp\<close>): options, authorisation, the
  sampling parameters and the chat request read from the JSON body, the image embeddings fetched
  through the cache, and the places their tokens get in the prompt.  A body is refused with a
  message (\<open>Refused\<close>) or makes the JSON library throw (\<open>Thrown\<close>); an HTTP error carries its status.
\<close>

section \<open>Options\<close>

record ServerOpts =
  so_api_key :: bytes
  so_default_max_tokens :: int
  so_default_effort :: bytes
  so_n_threads :: int

definition g_opts :: ServerOpts where
  "g_opts = \<lparr>so_api_key = [], so_default_max_tokens = 32768, so_default_effort = ''high'', so_n_threads = 4\<rparr>"

definition effort_ok :: "bytes \<Rightarrow> bool" where
  "effort_ok e \<longleftrightarrow> e = ''low'' \<or> e = ''high'' \<or> e = ''max''"

definition run_server_opts :: "ServerOpts \<Rightarrow> bytes \<Rightarrow> int \<Rightarrow> int \<Rightarrow> bytes \<Rightarrow> ServerOpts" where
  "run_server_opts o0 api_key n_threads default_max effort =
     (let o1 = o0\<lparr>so_api_key := api_key, so_n_threads := n_threads\<rparr>;
          o2 = (if default_max > 0 then o1\<lparr>so_default_max_tokens := default_max\<rparr> else o1)
      in if effort_ok effort then o2\<lparr>so_default_effort := effort\<rparr> else o2)"

definition authorized :: "ServerOpts \<Rightarrow> bytes option \<Rightarrow> bool" where
  "authorized opts hdr =
     (if so_api_key opts = [] then True
      else case hdr of None \<Rightarrow> False | Some h \<Rightarrow> h = ''Bearer '' @ so_api_key opts)"

section \<open>Numbers in the body\<close>

text \<open>\<^verbatim>\<open>get<int>\<close> and \<^verbatim>\<open>get<float>\<close> convert every number and boolean; \<^verbatim>\<open>value\<close> throws on a body that is no
  object and on a member of another type.  Integers are taken as mathematical ones and floats as
  elements of an ordered field.\<close>

fun int_of :: "json \<Rightarrow> int option" where
  "int_of (JInt i) = Some i"
| "int_of (JFloat r) = Some (if 0 \<le> r then \<lfloor>r\<rfloor> else \<lceil>r\<rceil>)"
| "int_of (JBool b) = Some (if b then 1 else 0)"
| "int_of _ = None"

fun num_of :: "json \<Rightarrow> ('f :: linordered_field) option" where
  "num_of (JInt i) = Some (of_int i)"
| "num_of (JFloat r) = Some (of_rat r)"
| "num_of (JBool b) = Some (if b then 1 else 0)"
| "num_of _ = None"

definition value_with :: "(json \<Rightarrow> 'a option) \<Rightarrow> bytes \<Rightarrow> 'a \<Rightarrow> json \<Rightarrow> chat_error + 'a" where
  "value_with get k dflt j =
     (if \<not> is_object j then Inl Thrown
      else case field k j of
        None \<Rightarrow> Inr dflt
      | Some v \<Rightarrow> (case get v of None \<Rightarrow> Inl Thrown | Some x \<Rightarrow> Inr x))"

fun str_of :: "json \<Rightarrow> bytes option" where
  "str_of (JStr s) = Some s"
| "str_of _ = None"

fun bool_of :: "json \<Rightarrow> bool option" where
  "bool_of (JBool b) = Some b"
| "bool_of _ = None"

definition number_field :: "bytes \<Rightarrow> json \<Rightarrow> int option" where
  "number_field k j = (case field k j of
     Some v \<Rightarrow> if is_number v then int_of v else None | None \<Rightarrow> None)"

section \<open>Sampling parameters\<close>

definition GenParams_new :: "('f :: linordered_field) GenParams" where
  "GenParams_new = \<lparr>max_tokens = 256, temperature = 7 / 10, top_k = 40, top_p = 95 / 100, min_p = 0,
     rep_penalty = 1, rep_window = 256, seed = 0, greedy = False, ignore_eos = False, stop_strings = []\<rparr>"

definition stops_of :: "json \<Rightarrow> bytes list" where
  "stops_of body = (case field ''stop'' body of
     Some (JStr s) \<Rightarrow> [s]
   | Some (JArr vs) \<Rightarrow> List.map_filter str_of vs
   | _ \<Rightarrow> [])"

definition parse_common ::
  "ServerOpts \<Rightarrow> json \<Rightarrow> 'f GenParams \<Rightarrow> chat_error + ('f :: linordered_field) GenParams" where
  "parse_common opts body p =
     (let mt = (case number_field ''max_tokens'' body of Some n \<Rightarrow> n | None \<Rightarrow> so_default_max_tokens opts);
          mt = (if mt \<le> 0 then so_default_max_tokens opts else mt) in
      bind_sum (value_with num_of ''temperature'' (7 / 10) body) (\<lambda>t.
      bind_sum (value_with num_of ''top_p'' (95 / 100) body) (\<lambda>tp.
      bind_sum (value_with int_of ''top_k'' 40 body) (\<lambda>tk.
      bind_sum (value_with num_of ''min_p'' 0 body) (\<lambda>mp.
      bind_sum (value_with num_of ''repetition_penalty'' 1 body) (\<lambda>rp.
        if (case number_field ''n'' body of Some n \<Rightarrow> n > 1 | None \<Rightarrow> False)
        then Inl (Refused ''n > 1 is not supported'')
        else Inr (p\<lparr>max_tokens := mt, temperature := t, top_p := tp, top_k := tk, min_p := mp,
               rep_penalty := rp, greedy := t \<le> 1 / 100,
               stop_strings := stop_strings p @ stops_of body\<rparr>)))))))"

section \<open>The chat request\<close>

record 'f ChatRequest =
  cr_image_urls :: "bytes list"
  cr_images :: "ImageEmbedding list"
  cr_msgs :: "ChatMsg list"
  cr_tools :: json
  cr_effort :: bytes
  cr_thinking :: bool
  cr_tools_off :: bool
  cr_gen :: "'f GenParams"
  cr_stream :: bool

definition ChatRequest_new :: "('f :: linordered_field) ChatRequest" where
  "ChatRequest_new = \<lparr>cr_image_urls = [], cr_images = [], cr_msgs = [], cr_tools = JArr [],
     cr_effort = ''high'', cr_thinking = True, cr_tools_off = False, cr_gen = GenParams_new,
     cr_stream = False\<rparr>"

definition parse_call :: "JsonLib \<Rightarrow> json \<Rightarrow> chat_error + ToolCall" where
  "parse_call J tc =
     bind_sum (value_with str_of ''id'' [] tc) (\<lambda>i.
       case field ''function'' tc of
         None \<Rightarrow> Inr \<lparr>tc_id = i, tc_name = [], tc_arguments = []\<rparr>
       | Some f \<Rightarrow> bind_sum (value_with str_of ''name'' [] f) (\<lambda>n.
           let a = (case field ''arguments'' f of Some a \<Rightarrow> a | None \<Rightarrow> JStr []) in
           Inr \<lparr>tc_id = i, tc_name = n, tc_arguments = (if is_string a then get_str a else js_dump J a)\<rparr>))"

fun parse_calls :: "JsonLib \<Rightarrow> json list \<Rightarrow> chat_error + ToolCall list" where
  "parse_calls J [] = Inr []"
| "parse_calls J (tc # tcs) =
     bind_sum (parse_call J tc) (\<lambda>c. bind_sum (parse_calls J tcs) (\<lambda>cs. Inr (c # cs)))"

definition parse_message ::
  "JsonLib \<Rightarrow> json \<Rightarrow> bytes list \<Rightarrow> chat_error + ChatMsg \<times> bytes list" where
  "parse_message J m urls =
     bind_sum (value_with str_of ''role'' ''user'' m) (\<lambda>r.
     bind_sum (chat_content_text (case field ''content'' m of Some c \<Rightarrow> c | None \<Rightarrow> JStr []) (Some urls))
       (\<lambda>(c, urls').
     bind_sum (case field ''tool_calls'' m of Some (JArr tcs) \<Rightarrow> parse_calls J tcs | _ \<Rightarrow> Inr [])
       (\<lambda>calls.
        Inr (\<lparr>m_role = r, m_content = c,
              m_reasoning = (case str_field ''reasoning_content'' m of Some s \<Rightarrow> s | None \<Rightarrow> []),
              m_tool_calls = calls,
              m_tool_call_id = (case str_field ''tool_call_id'' m of Some s \<Rightarrow> s | None \<Rightarrow> [])\<rparr>,
             case urls' of Some us \<Rightarrow> us | None \<Rightarrow> []))))"

fun parse_messages ::
  "JsonLib \<Rightarrow> json list \<Rightarrow> bytes list \<Rightarrow> chat_error + ChatMsg list \<times> bytes list" where
  "parse_messages J [] urls = Inr ([], urls)"
| "parse_messages J (m # ms) urls =
     bind_sum (parse_message J m urls) (\<lambda>(msg, urls).
     bind_sum (parse_messages J ms urls) (\<lambda>(msgs, urls). Inr (msg # msgs, urls)))"

text \<open>The effort of the request, with the server's default where the value is unknown; the template
  arguments come after that check.\<close>

definition checked_effort :: "ServerOpts \<Rightarrow> json \<Rightarrow> bytes" where
  "checked_effort opts body =
     (let e = (case str_field ''reasoning_effort'' body of Some s \<Rightarrow> s | None \<Rightarrow> so_default_effort opts)
      in if e \<noteq> ''low'' \<and> e \<noteq> ''high'' \<and> e \<noteq> ''max'' then so_default_effort opts else e)"

definition kwargs :: "json \<Rightarrow> json option" where
  "kwargs body = (case field ''chat_template_kwargs'' body of
     Some kw \<Rightarrow> if is_object kw then Some kw else None | None \<Rightarrow> None)"

definition or_else :: "'a option \<Rightarrow> 'a \<Rightarrow> 'a" where
  "or_else v d = (case v of Some x \<Rightarrow> x | None \<Rightarrow> d)"

definition request_effort :: "ServerOpts \<Rightarrow> json \<Rightarrow> bytes" where
  "request_effort opts body =
     or_else (Option.bind (kwargs body) (str_field ''reasoning_effort'')) (checked_effort opts body)"

definition request_thinking :: "json \<Rightarrow> bool" where
  "request_thinking body =
     or_else (bool_field ''thinking'' body)
     (or_else (bool_field ''enable_thinking'' body)
     (or_else (Option.bind (kwargs body) (bool_field ''thinking''))
     (or_else (Option.bind (kwargs body) (bool_field ''enable_thinking'')) True)))"

definition parse_chat :: "JsonLib \<Rightarrow> ServerOpts \<Rightarrow> json \<Rightarrow> chat_error + ('f :: linordered_field) ChatRequest" where
  "parse_chat J opts body =
     (case field ''messages'' body of
        Some (JArr ms) \<Rightarrow>
          bind_sum (parse_messages J ms []) (\<lambda>(msgs, urls).
            let tools = (case field ''tools'' body of Some (JArr ts) \<Rightarrow> JArr ts | _ \<Rightarrow> JArr []);
                off = (tools = JArr [] \<or> str_field ''tool_choice'' body = Some ''none'') in
            bind_sum (parse_common opts body GenParams_new) (\<lambda>g.
              Inr (ChatRequest_new\<lparr>cr_image_urls := urls, cr_msgs := msgs, cr_tools := tools,
                cr_tools_off := off, cr_effort := request_effort opts body,
                cr_thinking := request_thinking body, cr_gen := g\<rparr>)))
      | _ \<Rightarrow> Inl (Refused ''messages is required''))"

section \<open>Images\<close>

datatype http_error = Http nat bytes | Uncaught

definition of_chat_error :: "chat_error \<Rightarrow> http_error" where
  "of_chat_error e = (case e of Refused s \<Rightarrow> Http 400 s | Thrown \<Rightarrow> Uncaught)"

definition image_tokens :: "int \<Rightarrow> bytes" where
  "image_tokens rows = ''<|begin_of_image|>'' @ concat (replicate (nat rows) ''<|image|>'') @ ''<|end_of_image|>''"

text \<open>The first message that holds the marker gets the tokens in its place.\<close>

fun fill_marker :: "bytes \<Rightarrow> bytes \<Rightarrow> ChatMsg list \<Rightarrow> ChatMsg list option" where
  "fill_marker marker tokens [] = None"
| "fill_marker marker tokens (m # ms) =
     (case find_str marker (m_content m) of
        Some pos \<Rightarrow> Some (m\<lparr>m_content := take pos (m_content m) @ tokens @ drop (pos + length marker) (m_content m)\<rparr> # ms)
      | None \<Rightarrow> map_option ((#) m) (fill_marker marker tokens ms))"

text \<open>One image through the cache; the encoder process is a parameter.\<close>

definition get_image ::
  "(bytes \<Rightarrow> string + ImageEmbedding) \<Rightarrow> bytes \<Rightarrow> ImageEmbeddingCache \<Rightarrow>
   (http_error + ImageEmbedding) \<times> ImageEmbeddingCache" where
  "get_image encoder url cache =
     (case image_cache_get cache url of
        (Some im, cache) \<Rightarrow> (Inr im, cache)
      | (None, cache) \<Rightarrow>
          (case encode_image_url encoder url of
             Inl err \<Rightarrow> (Inl (Http 400 err), cache)
           | Inr im \<Rightarrow> (Inr im, image_cache_put cache url im)))"

fun fetch_images ::
  "(bytes \<Rightarrow> string + ImageEmbedding) \<Rightarrow> nat \<Rightarrow> bytes list \<Rightarrow> ChatMsg list \<Rightarrow> ImageEmbedding list \<Rightarrow>
   ImageEmbeddingCache \<Rightarrow> (http_error + ChatMsg list \<times> ImageEmbedding list) \<times> ImageEmbeddingCache" where
  "fetch_images encoder i [] msgs images cache = (Inr (msgs, images), cache)"
| "fetch_images encoder i (url # urls) msgs images cache =
     (case get_image encoder url cache of
        (Inl e, cache) \<Rightarrow> (Inl e, cache)
      | (Inr im, cache) \<Rightarrow>
          (case fill_marker (image_marker i) (image_tokens (im_rows im)) msgs of
             None \<Rightarrow> (Inl (Http 400 ''image placeholder missing''), cache)
           | Some msgs \<Rightarrow> fetch_images encoder (Suc i) urls msgs (images @ [im]) cache))"

text \<open>The places of the image tokens in the prompt: skip to the next image token, then one token per
  row.\<close>

fun take_rows :: "token \<Rightarrow> token list \<Rightarrow> nat \<Rightarrow> nat \<Rightarrow> nat option" where
  "take_rows image_id prompt 0 cursor = Some cursor"
| "take_rows image_id prompt (Suc k) cursor =
     (if cursor \<ge> length prompt \<or> prompt ! cursor \<noteq> image_id then None
      else take_rows image_id prompt k (Suc cursor))"

definition skip_to :: "token \<Rightarrow> token list \<Rightarrow> nat \<Rightarrow> nat" where
  "skip_to image_id prompt cursor =
     cursor + length (takeWhile (\<lambda>t. t \<noteq> image_id) (drop cursor prompt))"

fun place_images ::
  "token \<Rightarrow> token list \<Rightarrow> nat \<Rightarrow> ImageEmbedding list \<Rightarrow> http_error + ImageEmbedding list" where
  "place_images image_id prompt cursor [] = Inr []"
| "place_images image_id prompt cursor (im # ims) =
     (let start = skip_to image_id prompt cursor in
      case take_rows image_id prompt (nat (im_rows im)) start of
        None \<Rightarrow> Inl (Http 400 ''image tokens and embeddings differ'')
      | Some cursor \<Rightarrow>
          bind_sum (place_images image_id prompt cursor ims)
            (\<lambda>ims. Inr (im\<lparr>im_start := int start\<rparr> # ims)))"

section \<open>What a request may set\<close>

lemma parse_common_ok:
  "parse_common opts body p = Inr g \<Longrightarrow> 0 < so_default_max_tokens opts \<Longrightarrow> 0 < max_tokens g"
  by (auto simp: parse_common_def Let_def bind_sum_Inr split: if_splits)

lemma parse_messages_length: "parse_messages J ms urls = Inr (msgs, us) \<Longrightarrow> length msgs = length ms"
  by (induction ms arbitrary: urls msgs us) (auto simp: bind_sum_Inr split: prod.splits)

lemma parse_chat_Inr:
  assumes "parse_chat J opts body = Inr req"
  shows "\<exists>ms urls. field ''messages'' body = Some (JArr ms) \<and> parse_messages J ms [] = Inr (cr_msgs req, urls) \<and>
    cr_image_urls req = urls \<and> cr_effort req = request_effort opts body \<and> parse_common opts body GenParams_new = Inr (cr_gen req)"
  using assms
  by (auto simp: parse_chat_def bind_sum_Inr Let_def split: option.splits json.splits prod.splits)

lemma checked_effort_ok: "effort_ok (so_default_effort opts) \<Longrightarrow> effort_ok (checked_effort opts body)"
  by (simp add: checked_effort_def effort_ok_def Let_def)

lemma run_server_opts_ok:
  "effort_ok (so_default_effort o0) \<Longrightarrow> 0 < so_default_max_tokens o0 \<Longrightarrow>
   effort_ok (so_default_effort (run_server_opts o0 k n m e)) \<and> 0 < so_default_max_tokens (run_server_opts o0 k n m e)"
  by (simp add: run_server_opts_def Let_def)

lemma g_opts_ok: "effort_ok (so_default_effort g_opts) \<and> 0 < so_default_max_tokens g_opts"
  by (simp add: g_opts_def effort_ok_def)

section \<open>Placing the images\<close>

lemma take_rows_Some:
  "take_rows i prompt k c = Some c' \<Longrightarrow>
   c' = c + k \<and> (0 < k \<longrightarrow> c + k \<le> length prompt) \<and> (\<forall>j < k. prompt ! (c + j) = i)"
proof (induction i prompt k c rule: take_rows.induct)
  case (2 i prompt k c)
  then have a: "c < length prompt" "prompt ! c = i" "take_rows i prompt k (Suc c) = Some c'"
    by (auto split: if_splits)
  with 2 have ih: "c' = Suc c + k" "0 < k \<longrightarrow> Suc c + k \<le> length prompt" "\<forall>j < k. prompt ! (Suc c + j) = i"
    by auto
  show ?case
  proof (intro conjI allI impI)
    show "c' = c + Suc k" using ih by simp
    show "c + Suc k \<le> length prompt" using ih a by (cases k) auto
    show "prompt ! (c + j) = i" if "j < Suc k" for j
      using that a ih(3) by (cases j) auto
  qed
qed simp

definition placed :: "token \<Rightarrow> token list \<Rightarrow> nat \<Rightarrow> ImageEmbedding list \<Rightarrow> bool" where
  "placed i prompt c ims \<longleftrightarrow> (\<forall>im \<in> set ims. int c \<le> im_start im \<and>
     im_start im + im_rows im \<le> int (length prompt) \<and>
     (\<forall>j < nat (im_rows im). prompt ! (nat (im_start im) + j) = i))"

lemma skip_to_le: "c \<le> skip_to i prompt c"
  by (simp add: skip_to_def)

lemma place_images_ok:
  "place_images i prompt c ims = Inr ims' \<Longrightarrow> \<forall>im \<in> set ims. 0 < im_rows im \<Longrightarrow>
   map (\<lambda>im. im\<lparr>im_start := 0\<rparr>) ims' = map (\<lambda>im. im\<lparr>im_start := 0\<rparr>) ims \<and>
   placed i prompt c ims' \<and> images_disjoint ims'"
proof (induction i prompt c ims arbitrary: ims' rule: place_images.induct)
  case (1 i prompt c)
  then show ?case by (simp add: placed_def images_disjoint_def)
next
  case (2 i prompt c im ims)
  let ?s = "skip_to i prompt c"
  from "2.prems"(1) obtain c' rest where
    t: "take_rows i prompt (nat (im_rows im)) ?s = Some c'" and
    r: "place_images i prompt c' ims = Inr rest" and e: "ims' = im\<lparr>im_start := int ?s\<rparr> # rest"
    by (auto simp: Let_def bind_sum_Inr split: option.splits)
  from "2.IH" [OF refl t r] "2.prems"(2) have ih:
    "map (\<lambda>im. im\<lparr>im_start := 0\<rparr>) rest = map (\<lambda>im. im\<lparr>im_start := 0\<rparr>) ims"
    "placed i prompt c' rest" "images_disjoint rest" by auto
  from "2.prems"(2) have rows: "0 < im_rows im" by simp
  note tr = take_rows_Some [OF t]
  from tr rows have c': "int c' = int ?s + im_rows im" "int c' \<le> int (length prompt)" by auto
  have "placed i prompt c ims'"
    using ih(2) tr c' skip_to_le [of c i prompt] rows unfolding placed_def e by force
  moreover have "images_disjoint ims'"
    using ih(2,3) c' unfolding images_disjoint_def e placed_def by force
  ultimately show ?case using ih(1) e by simp
qed

section \<open>Properties\<close>

text \<open>C39: A request that is read gets a positive token budget, one message per message sent, and a
  known reasoning effort, provided its template arguments leave the effort alone; an effort named there is
  taken unchecked, and an unknown one, such as a typo, gets the prompt of the most expensive level,
  which the check was written to prevent.\<close>

theorem request_checked:
  assumes "parse_chat J (run_server_opts g_opts key n m e) body = Inr (req :: ('f :: linordered_field) ChatRequest)"
  shows "0 < max_tokens (cr_gen req) \<and>
    (\<exists>ms. field ''messages'' body = Some (JArr ms) \<and> length (cr_msgs req) = length ms) \<and>
    (case Option.bind (kwargs body) (str_field ''reasoning_effort'') of
       None \<Rightarrow> effort_ok (cr_effort req)
     | Some x \<Rightarrow> cr_effort req = x \<and>
         (effort_ok x \<or> render_chat J (cr_msgs req) (cr_tools req) x True th =
            render_chat J (cr_msgs req) (cr_tools req) ''max'' True th))"
proof (intro conjI)
  let ?o = "run_server_opts g_opts key n m e"
  have o: "effort_ok (so_default_effort ?o)" "0 < so_default_max_tokens ?o"
    using run_server_opts_ok g_opts_ok by blast+
  from parse_chat_Inr [OF assms] obtain ms urls where
    ms: "field ''messages'' body = Some (JArr ms)" "parse_messages J ms [] = Inr (cr_msgs req, urls)" and
    eff: "cr_effort req = request_effort ?o body" and
    pc: "parse_common ?o body GenParams_new = Inr (cr_gen req)"
    by blast
  show "0 < max_tokens (cr_gen req)" by (rule parse_common_ok [OF pc o(2)])
  show "\<exists>ms. field ''messages'' body = Some (JArr ms) \<and> length (cr_msgs req) = length ms"
    using ms parse_messages_length by blast
  show "case Option.bind (kwargs body) (str_field ''reasoning_effort'') of
       None \<Rightarrow> effort_ok (cr_effort req)
     | Some x \<Rightarrow> cr_effort req = x \<and>
         (effort_ok x \<or> render_chat J (cr_msgs req) (cr_tools req) x True th =
            render_chat J (cr_msgs req) (cr_tools req) ''max'' True th)"
    using checked_effort_ok [OF o(1)]
    by (auto simp: eff request_effort_def or_else_def render_chat_def effort_ok_def split: option.splits)
qed

definition demo_body :: json where
  "demo_body = JObj [(''messages'', JArr [JObj [(''role'', JStr ''user''), (''content'', JStr ''hi'')]]),
     (''chat_template_kwargs'', JObj [(''reasoning_effort'', JStr ''hihg'')])]"

lemma demo_body_parses:
  "parse_chat demo_lib (run_server_opts g_opts [] 4 0 []) demo_body =
     Inr (ChatRequest_new\<lparr>cr_msgs := [\<lparr>m_role = ''user'', m_content = ''hi'', m_reasoning = [], m_tool_calls = [],
       m_tool_call_id = []\<rparr>], cr_tools_off := True, cr_effort := ''hihg'',
       cr_gen := (GenParams_new :: rat GenParams)\<lparr>max_tokens := 32768\<rparr>\<rparr>)"
  by (simp add: parse_chat_def demo_body_def field_def parse_message_def value_with_def chat_content_text_def
    str_field_def Let_def parse_common_def number_field_def stops_of_def run_server_opts_def g_opts_def
    effort_ok_def request_effort_def kwargs_def or_else_def request_thinking_def bool_field_def
    ChatRequest_new_def GenParams_new_def)

theorem request_checked_witness:
  "render_chat demo_lib [\<lparr>m_role = ''user'', m_content = ''hi'', m_reasoning = [], m_tool_calls = [],
       m_tool_call_id = []\<rparr>] (JArr []) ''hihg'' True True =
   render_chat demo_lib [\<lparr>m_role = ''user'', m_content = ''hi'', m_reasoning = [], m_tool_calls = [],
       m_tool_call_id = []\<rparr>] (JArr []) ''max'' True True"
proof -
  have "Option.bind (kwargs demo_body) (str_field ''reasoning_effort'') = Some ''hihg''" "\<not> effort_ok ''hihg''"
    by (simp_all add: kwargs_def demo_body_def field_def str_field_def effort_ok_def)
  with request_checked [OF demo_body_parses, of True] show ?thesis
    by (simp add: ChatRequest_new_def)
qed

end
