(* ===== verification/Whole_Output.thy ===== *)
theory Whole_Output
  imports Output_Parser Utf8
begin

text \<open>
  The output parser and UTF-8: every tag is ASCII, so cutting text of whole characters at tags, or where
  the parser holds text back, leaves whole characters.  What the parser collects from the
  streamer's text is therefore never a broken character.
\<close>

section \<open>Whole characters through the parser\<close>

definition ascii :: "char \<Rightarrow> bool" where
  "ascii c \<longleftrightarrow> byte_val c < 128"

lemma ascii_not_cont: "ascii c \<Longrightarrow> \<not> is_cont c"
proof
  assume a: "ascii c" and "is_cont c"
  have t: "\<forall>b \<in> set [0..<128]. and b 0xC0 \<noteq> (0x80::nat)" by code_simp
  from a have "byte_val c \<in> set [0..<128]" by (simp add: ascii_def)
  with t have "and (byte_val c) 0xC0 \<noteq> 0x80" by blast
  with \<open>is_cont c\<close> show False by (simp add: is_cont_def)
qed

lemma ascii_char: "ascii c \<Longrightarrow> utf8_char (c # t) \<longleftrightarrow> t = []"
  by (auto simp: ascii_def utf8_char_def utf8_seq_len_def Let_def)

lemma whole_Cons_ascii: "ascii c \<Longrightarrow> whole (c # t) \<longleftrightarrow> whole t"
proof
  assume a: "ascii c" and "whole (c # t)"
  from this(2) show "whole t"
  proof cases
    case (whole_char ch s)
    then obtain r where "ch = c # r" by (cases ch) (auto simp: utf8_char_def)
    with whole_char a show ?thesis by (simp add: ascii_char)
  qed
next
  assume a: "ascii c" and "whole t"
  with whole_char [of "[c]" t] show "whole (c # t)" by (simp add: ascii_char)
qed

lemma whole_ascii: "list_all ascii m \<Longrightarrow> whole (m @ t) \<longleftrightarrow> whole t"
  by (induction m) (simp_all add: whole_Cons_ascii)

lemma whole_split:
  assumes "whole (a @ x)" and "x = [] \<or> ascii (hd x)"
  shows "whole a \<and> whole x"
  using assms(1)
proof (induction "length a" arbitrary: a rule: less_induct)
  case less
  show ?case
  proof (cases "a = []")
    case True
    with less.prems show ?thesis by (simp add: whole_Nil)
  next
    case False
    from less.prems show ?thesis
    proof cases
      case whole_Nil
      with False show ?thesis by simp
    next
      case (whole_char ch s)
      have ne: "ch \<noteq> []" and cont: "list_all is_cont (tl ch)" using whole_char(2) by (auto simp: utf8_char_def)
      have "length ch \<le> length a"
      proof (rule ccontr)
        assume long: "\<not> length ch \<le> length a"
        with whole_char(1) have "ch = a @ take (length ch - length a) x"
          by (metis append_eq_append_conv_if linear take_append take_all append_eq_conv_conj)
        moreover from long calculation have "take (length ch - length a) x \<noteq> []" "x \<noteq> []" by auto
        moreover from this have "hd x \<in> set (take (length ch - length a) x)" by (cases x) (auto simp: take_Cons')
        ultimately have "hd x \<in> set (tl ch)" using False by (cases a) (simp, metis Un_iff append_Cons list.sel(3) set_append)
        with cont have "is_cont (hd x)" by (simp add: list_all_iff)
        with assms(2) \<open>x \<noteq> []\<close> show False using ascii_not_cont by blast
      qed
      with whole_char(1) obtain a' where a: "a = ch @ a'" "s = a' @ x"
        by (metis append_eq_append_conv_if append_take_drop_id)
      have "length a' < length a" using a(1) ne by simp
      from less.hyps [OF this] whole_char(3) a(2) have "whole a' \<and> whole x" by simp
      with a(1) whole_char(2) show ?thesis by (simp add: whole.whole_char)
    qed
  qed
qed

lemma marks_ascii: "m \<in> set hold_marks \<Longrightarrow> list_all ascii m"
  unfolding hold_marks_def tag_defs by (auto simp: ascii_def)

lemma whole_at_mark:
  assumes w: "whole s" and m: "m \<in> set hold_marks" and f: "find_str m s = Some f"
  shows "whole (take f s)" and "whole (drop (f + length m) s)"
proof -
  from find_str_decomp [OF f] have s: "s = take f s @ m @ drop (f + length m) s" by blast
  from hold_marks_shape [OF m] marks_ascii [OF m] have "ascii (hd (m @ drop (f + length m) s))"
    by (cases m) auto
  with whole_split [of "take f s" "m @ drop (f + length m) s"] w s
  have "whole (take f s) \<and> whole (m @ drop (f + length m) s)" by metis
  then show "whole (take f s)" "whole (drop (f + length m) s)"
    using whole_ascii [OF marks_ascii [OF m]] by blast+
qed

lemma whole_at_limit:
  assumes w: "whole s" and l: "l = length s \<or> l = length s - holdback_len s"
  shows "whole (take l s)" and "whole (drop l s)"
proof -
  have "drop l s = [] \<or> ascii (hd (drop l s))"
  proof (cases "holdback_len s = 0 \<or> l = length s")
    case False
    with holdback_is [of hold_marks s] have "is_hold hold_marks s (holdback_len s)" by (simp add: holdback_len_def)
    with l False obtain m where m: "m \<in> set hold_marks" "drop l s = take (holdback_len s) m" by (auto simp: is_hold_def)
    with marks_ascii [OF m(1)] hold_marks_shape [OF m(1)] show ?thesis
      by (cases m) (auto simp: take_Cons' split: if_splits)
  qed (use l in auto)
  with whole_split [of "take l s" "drop l s"] w show "whole (take l s)" "whole (drop l s)" by simp_all
qed

definition whole_state :: "OutputParser \<Rightarrow> bool" where
  "whole_state p \<longleftrightarrow> whole (p_buf p) \<and> whole (po_content (p_out p)) \<and> whole (po_reasoning (p_out p))"

lemma whole_emit_text: "whole_state p \<Longrightarrow> whole t \<Longrightarrow> whole_state (emit_text t p)"
  by (simp add: whole_state_def emit_text_def whole_append)

lemma whole_emit_tool: "whole_state p \<Longrightarrow> whole_state (emit_tool J p)"
  by (simp add: whole_state_def emit_tool_def Let_def)

lemma whole_drain: "whole_state p \<Longrightarrow> whole_state (drain J fl p)"
proof (induction "length (p_buf p)" arbitrary: p rule: less_induct)
  case less
  let ?s = "p_buf p" and ?l = "length (p_buf p) - (if fl then 0 else holdback_len (p_buf p))"
  have ws: "whole ?s" using less.prems by (simp add: whole_state_def)
  have lim: "whole (take ?l ?s)" "whole (drop ?l ?s)" by (rule whole_at_limit [OF ws], simp)+
  have buf: "whole_state (p\<lparr>p_buf := b\<rparr>)" "whole_state (p\<lparr>p_tool_body := y, p_buf := b\<rparr>)" if "whole b" for b y
    using that less.prems by (simp_all add: whole_state_def)
  show ?case
  proof (cases "?s = []")
    case True
    with less.prems show ?thesis by simp
  next
    case ne: False
    show ?thesis
    proof (cases "p_in_tool p")
      case True
      show ?thesis
      proof (cases "find_str kToolEnd ?s")
        case None
        then have "drain J fl p = p\<lparr>p_tool_body := p_tool_body p @ take ?l ?s, p_buf := drop ?l ?s\<rparr>"
          using ne True by (simp only: drain.simps [of J fl p] Let_def if_False if_True option.case)
        with buf(2) [OF lim(2)] show ?thesis by simp
      next
        case (Some e)
        let ?p = "emit_tool J (p\<lparr>p_tool_body := p_tool_body p @ take e ?s, p_buf := drop (e + length kToolEnd) ?s\<rparr>)"
        have "length (p_buf ?p) < length ?s" using mark_bound(3) [OF Some] by (simp add: tag_defs)
        moreover have "whole_state ?p"
          by (rule whole_emit_tool, rule buf, rule whole_at_mark [OF ws kToolEnd_mark Some])
        ultimately show ?thesis using less.hyps [of ?p] by (simp add: drain_tool_Some [OF True Some])
      qed
    next
      case False
      show ?thesis
      proof (cases "find_mark text_marks ?l ?s")
        case None
        then have "drain J fl p = emit_text (take ?l ?s) (p\<lparr>p_buf := drop ?l ?s\<rparr>)"
          using ne False by (simp only: drain.simps [of J fl p] Let_def if_False option.case)
        with whole_emit_text [OF buf(1) [OF lim(2)] lim(1)] show ?thesis by simp
      next
        case (Some fm)
        obtain f m where fm: "fm = (f, m)" by fastforce
        note mem = find_mark_mem [OF Some [unfolded fm]]
        have m: "m \<in> set hold_marks" using mem(1) text_marks_sub by blast
        let ?p = "emit_text (take f ?s) (p\<lparr>p_buf := drop (f + length m) ?s\<rparr>)"
        have w: "whole_state ?p"
          by (rule whole_emit_text [OF buf(1)]) (rule whole_at_mark [OF ws m mem(2)])+
        have len: "length (p_buf ?p) < length ?s"
          using mark_bound(3) [OF mem(2)] hold_marks_shape [OF m] by simp
        have dp: "drain J fl p = (if m = kThinkEnd then drain J fl (?p\<lparr>p_in_think := False\<rparr>)
            else if m = kToolBegin then drain J fl (?p\<lparr>p_in_tool := True, p_tool_body := []\<rparr>)
            else emit_stop ?p)"
          using ne False Some fm by (simp only: drain.simps [of J fl p] Let_def if_False option.case prod.case)
        have "whole_state (?p\<lparr>p_in_think := False\<rparr>)" "whole_state (?p\<lparr>p_in_tool := True, p_tool_body := []\<rparr>)"
          "whole_state (emit_stop ?p)"
          using w by (simp_all add: whole_state_def emit_stop_def whole_Nil)
        moreover have "whole_state (drain J fl (?p\<lparr>p_in_think := False\<rparr>))"
          "whole_state (drain J fl (?p\<lparr>p_in_tool := True, p_tool_body := []\<rparr>))"
          using calculation(1,2) len by (intro less.hyps; simp)+
        ultimately
        show ?thesis unfolding dp by (simp only: split: if_split) blast
      qed
    qed
  qed
qed

lemma whole_parse_output:
  assumes "whole t"
  shows "whole (po_content (parse_output J t th))" and "whole (po_reasoning (parse_output J t th))"
proof -
  let ?p = "fst (feed J (OutputParser_new th) t)"
  have "whole_state ((OutputParser_new th)\<lparr>p_pending := [], p_buf := t\<rparr>)"
    using assms by (simp add: whole_state_def OutputParser_new_def whole_Nil)
  from whole_drain [OF this, of J False] have "whole_state ?p"
    by (simp add: feed_def Let_def OutputParser_new_def)
  then have "whole_state (?p\<lparr>p_pending := []\<rparr>)" by (simp add: whole_state_def)
  from whole_drain [OF this, of J True] whole_emit_tool [of _ J]
  have "whole_state (fst (finish J ?p))" by (simp add: finish_def Let_def)
  then show "whole (po_content (parse_output J t th))" "whole (po_reasoning (parse_output J t th))"
    by (simp_all add: whole_state_def parse_output_def)
qed

end
