(* ===== verification/Server.thy ===== *)
theory Server
  imports Request Bpe Whole_Output Runner
begin

text \<open>
  The generation side of the HTTP server (\<^verbatim>\<open>src/engine/server.cpp\<close>): the callback that turns the
  runner's tokens into text, deltas and stop decisions, the outcome of a generation, the SSE
  writer, and the two request handlers.  A client is a state \<open>'c\<close> with an \<open>emit\<close> function; \<open>None\<close>
  is the non-streaming case.  The chunked provider, which httplib runs after the handler, is run
  where the handler installs it; requests are handled one after the other, as \<^verbatim>\<open>gen_mu\<close> makes them
  for everything that touches the runner.  Parsing and printing of JSON, ids and clock times are
  parameters.
\<close>

section \<open>The generation driver\<close>

record 'c GenState =
  gs_ids :: "token list"
  gs_count :: nat
  gs_parser :: OutputParser
  gs_prev :: nat
  gs_visible :: bytes
  gs_stop_hit :: bool
  gs_client :: 'c

type_synonym 'c emitter = "(Delta \<Rightarrow> 'c \<Rightarrow> bool \<times> 'c) option"

definition GenState_new :: "bool \<Rightarrow> 'c \<Rightarrow> 'c GenState" where
  "GenState_new thinking c = \<lparr>gs_ids = [], gs_count = 0, gs_parser = OutputParser_new thinking, gs_prev = 0,
     gs_visible = [], gs_stop_hit = False, gs_client = c\<rparr>"

definition call_emit :: "'c emitter \<Rightarrow> Delta \<Rightarrow> 'c GenState \<Rightarrow> bool \<times> 'c GenState" where
  "call_emit emit d g =
     (case emit of None \<Rightarrow> (True, g)
      | Some e \<Rightarrow> (case e d (gs_client g) of (ok, c) \<Rightarrow> (ok, g\<lparr>gs_client := c\<rparr>)))"

definition ends_with :: "bytes \<Rightarrow> bytes \<Rightarrow> bool" where
  "ends_with s t \<longleftrightarrow> t \<noteq> [] \<and> length t \<le> length s \<and> drop (length s - length t) s = t"

fun deltas_loop :: "'c emitter \<Rightarrow> bytes list \<Rightarrow> Delta list \<Rightarrow> 'c GenState \<Rightarrow> bool \<times> 'c GenState" where
  "deltas_loop emit stops [] g = (True, g)"
| "deltas_loop emit stops (d # ds) g =
     (if d_stop d then (False, snd (call_emit emit d (g\<lparr>gs_stop_hit := True\<rparr>)))
      else let g = (if d_content d \<noteq> [] then g\<lparr>gs_visible := gs_visible g @ d_content d\<rparr> else g) in
        if d_content d \<noteq> [] \<and> list_ex (ends_with (gs_visible g)) stops
        then (False, g\<lparr>gs_stop_hit := True\<rparr>)
        else (case call_emit emit d g of
                (ok, g) \<Rightarrow> if ok then deltas_loop emit stops ds g else (False, g)))"

definition on_tok ::
  "JsonLib \<Rightarrow> Tokenizer \<Rightarrow> 'c emitter \<Rightarrow> bytes list \<Rightarrow> token \<Rightarrow> 'c GenState \<Rightarrow> bool \<times> 'c GenState" where
  "on_tok J tk emit stops tok g =
     (let g = g\<lparr>gs_ids := gs_ids g @ [tok], gs_count := gs_count g + 1\<rparr>;
          (prev, piece) = push (gs_prev g) (decode_tokens tk (gs_ids g) True);
          g = g\<lparr>gs_prev := prev\<rparr>
      in if piece = [] then (True, g)
         else let (parser, deltas) = feed J (gs_parser g) piece
              in deltas_loop emit stops deltas (g\<lparr>gs_parser := parser\<rparr>))"

text \<open>The runner's callback is a function of the tokens so far: the state of the lambda after them.\<close>

definition driver ::
  "JsonLib \<Rightarrow> Tokenizer \<Rightarrow> 'c emitter \<Rightarrow> bytes list \<Rightarrow> 'c GenState \<Rightarrow> token list \<Rightarrow> 'c GenState" where
  "driver J tk emit stops g toks = foldl (\<lambda>g tok. snd (on_tok J tk emit stops tok g)) g toks"

definition callback ::
  "JsonLib \<Rightarrow> Tokenizer \<Rightarrow> 'c emitter \<Rightarrow> bytes list \<Rightarrow> 'c GenState \<Rightarrow> token list \<Rightarrow> bool" where
  "callback J tk emit stops g toks =
     fst (on_tok J tk emit stops (last toks) (driver J tk emit stops g (butlast toks)))"

record GenOutcome =
  go_reasoning :: bytes
  go_content :: bytes
  go_tool_calls :: "ToolCall list"
  go_completion_tokens :: nat
  go_hit_stop :: bool

fun emit_rest :: "'c emitter \<Rightarrow> Delta list \<Rightarrow> 'c GenState \<Rightarrow> 'c GenState" where
  "emit_rest emit [] g = g"
| "emit_rest emit (d # ds) g = emit_rest emit ds (snd (call_emit emit d g))"

definition wind_up :: "JsonLib \<Rightarrow> 'c emitter \<Rightarrow> 'c GenState \<Rightarrow> GenOutcome \<times> 'c" where
  "wind_up J emit g =
     (let (parser, rest) = finish J (gs_parser g);
          g = emit_rest emit rest g;
          parsed = p_out parser
      in (\<lparr>go_reasoning = utf8_sanitize (po_reasoning parsed), go_content = utf8_sanitize (po_content parsed),
           go_tool_calls = po_tool_calls parsed, go_completion_tokens = gs_count g,
           go_hit_stop = gs_stop_hit g\<rparr>, gs_client g))"

definition server_generate ::
  "JsonLib \<Rightarrow> Tokenizer \<Rightarrow> ('v, 'e, 'f :: linordered_field) Engine \<Rightarrow> token list \<Rightarrow> 'f ChatRequest \<Rightarrow>
   'c emitter \<Rightarrow> 'c \<Rightarrow> ('v, 'e, 'f) Runner \<Rightarrow>
   ((gen_error + GenOutcome \<times> 'c) \<times> ('v, 'e, 'f) Runner) option" where
  "server_generate J tk E prompt req emit c r =
     (let stops = stop_strings (cr_gen req); g = GenState_new (cr_thinking req) c
      in case generate E (cr_gen req) (callback J tk emit stops g) prompt (cr_images req) r of
           None \<Rightarrow> None
         | Some (Inl e, r) \<Rightarrow> Some (Inl e, r)
         | Some (Inr toks, r) \<Rightarrow> Some (Inr (wind_up J emit (driver J tk emit stops g toks)), r))"

section \<open>Replies\<close>

definition finish_reason :: "('v, 'e, 'f) Runner \<Rightarrow> nat \<Rightarrow> int \<Rightarrow> bytes" where
  "finish_reason r completion_tokens max_toks =
     (if int completion_tokens \<ge> max_toks then ''length''
      else if c_cap (rn_caches r) > 0 \<and> rn_pos r \<ge> c_cap (rn_caches r) then ''length''
      else ''stop'')"

definition finish_of :: "('v, 'e, 'f) Runner \<Rightarrow> GenOutcome \<Rightarrow> int \<Rightarrow> bytes" where
  "finish_of r out max_toks =
     (if go_tool_calls out \<noteq> [] then ''tool_calls''
      else if go_hit_stop out then ''stop''
      else finish_reason r (go_completion_tokens out) max_toks)"

definition kModelId :: bytes where "kModelId = ''glm-5.3-flash-exl3''"

definition error_body :: "bytes \<Rightarrow> json" where
  "error_body msg = JObj [(''error'', JObj [(''message'', JStr msg), (''type'', JStr ''invalid_request_error''),
     (''param'', JNull), (''code'', JNull)])]"

definition call_json :: "ToolCall \<Rightarrow> json" where
  "call_json tc = JObj [(''id'', JStr (tc_id tc)), (''type'', JStr ''function''),
     (''function'', JObj [(''name'', JStr (tc_name tc)), (''arguments'', JStr (tc_arguments tc))])]"

definition usage_json :: "nat \<Rightarrow> nat \<Rightarrow> nat \<Rightarrow> json" where
  "usage_json prompt_tokens cached completion =
     JObj [(''prompt_tokens'', JInt (int prompt_tokens)),
       (''prompt_tokens_details'', JObj [(''cached_tokens'', JInt (int cached))]),
       (''completion_tokens'', JInt (int completion)),
       (''total_tokens'', JInt (int prompt_tokens + int completion))]"

definition message_json :: "GenOutcome \<Rightarrow> json" where
  "message_json out = JObj ([(''role'', JStr ''assistant''), (''content'', JStr (go_content out))] @
     (if go_reasoning out \<noteq> [] then [(''reasoning_content'', JStr (go_reasoning out))] else []) @
     (if go_tool_calls out \<noteq> [] then [(''tool_calls'', JArr (map call_json (go_tool_calls out)))] else []))"

definition completion_json :: "bytes \<Rightarrow> int \<Rightarrow> GenOutcome \<Rightarrow> bytes \<Rightarrow> json \<Rightarrow> json" where
  "completion_json chat_id created out fin usage =
     JObj [(''id'', JStr chat_id), (''object'', JStr ''chat.completion''), (''created'', JInt created),
       (''model'', JStr kModelId),
       (''choices'', JArr [JObj [(''index'', JInt 0), (''message'', message_json out), (''logprobs'', JNull),
          (''finish_reason'', JStr fin)]]),
       (''usage'', usage)]"

section \<open>The SSE writer\<close>

text \<open>The events written so far; \<open>sink evs ev\<close> says whether the client takes the next one.\<close>

record Sse =
  sse_alive :: bool
  sse_tool_index :: int
  sse_events :: "json list"

definition chunk_json :: "(bytes \<times> json) list \<Rightarrow> json \<Rightarrow> json \<Rightarrow> json" where
  "chunk_json base delta fin = JObj (base @
     [(''choices'', JArr [JObj [(''index'', JInt 0), (''delta'', delta), (''finish_reason'', fin)]])])"

definition base_json :: "bytes \<Rightarrow> int \<Rightarrow> (bytes \<times> json) list" where
  "base_json chat_id created = [(''id'', JStr chat_id), (''object'', JStr ''chat.completion.chunk''),
     (''created'', JInt created), (''model'', JStr kModelId)]"

definition send :: "(json list \<Rightarrow> json \<Rightarrow> bool) \<Rightarrow> json \<Rightarrow> Sse \<Rightarrow> Sse" where
  "send sink ev s =
     (if sink (sse_events s) ev then s\<lparr>sse_alive := True, sse_events := sse_events s @ [ev]\<rparr>
      else s\<lparr>sse_alive := False\<rparr>)"

definition tool_begin_json :: "int \<Rightarrow> Delta \<Rightarrow> json" where
  "tool_begin_json i d = JObj [(''tool_calls'', JArr [JObj [(''index'', JInt i), (''id'', JStr (d_tool_call_id d)),
     (''type'', JStr ''function''),
     (''function'', JObj [(''name'', JStr (d_tool_name d)), (''arguments'', JStr [])])]])]"

definition tool_args_json :: "int \<Rightarrow> Delta \<Rightarrow> json" where
  "tool_args_json i d = JObj [(''tool_calls'', JArr [JObj [(''index'', JInt i),
     (''function'', JObj [(''arguments'', JStr (d_tool_args_fragment d))])]])]"

definition sse_text :: "(json list \<Rightarrow> json \<Rightarrow> bool) \<Rightarrow> (bytes \<times> json) list \<Rightarrow> bytes \<Rightarrow> bytes \<Rightarrow> Sse \<Rightarrow> Sse" where
  "sse_text sink base key t s =
     (if t \<noteq> [] then send sink (chunk_json base (JObj [(key, JStr t)]) JNull) s else s)"

definition sse_tool :: "(json list \<Rightarrow> json \<Rightarrow> bool) \<Rightarrow> (bytes \<times> json) list \<Rightarrow> Delta \<Rightarrow> Sse \<Rightarrow> Sse" where
  "sse_tool sink base d s =
     (let s = s\<lparr>sse_tool_index := sse_tool_index s + 1\<rparr>;
          s = send sink (chunk_json base (tool_begin_json (sse_tool_index s) d) JNull) s
      in if d_tool_args_fragment d \<noteq> [] \<and> sse_alive s
         then send sink (chunk_json base (tool_args_json (sse_tool_index s) d) JNull) s else s)"

definition sse_emit ::
  "(json list \<Rightarrow> json \<Rightarrow> bool) \<Rightarrow> (bytes \<times> json) list \<Rightarrow> Delta \<Rightarrow> Sse \<Rightarrow> bool \<times> Sse" where
  "sse_emit sink base d s =
     (if \<not> sse_alive s then (False, s)
      else let s = sse_text sink base ''reasoning_content'' (d_reasoning d) s;
               s = sse_text sink base ''content'' (d_content d) s;
               s = (if d_tool_begin d then sse_tool sink base d s else s)
           in (sse_alive s, s))"

definition sse_first :: "(bytes \<times> json) list \<Rightarrow> json" where
  "sse_first base = chunk_json base (JObj [(''role'', JStr ''assistant'')]) JNull"

definition sse_usage :: "(bytes \<times> json) list \<Rightarrow> json \<Rightarrow> json" where
  "sse_usage base usage = JObj (base @ [(''choices'', JArr []), (''usage'', usage)])"

text \<open>After the generation: the finish reason, the usage when wanted, and whether \<^verbatim>\<open>[DONE]\<close> is written.\<close>

definition sse_close ::
  "(json list \<Rightarrow> json \<Rightarrow> bool) \<Rightarrow> (bytes \<times> json) list \<Rightarrow> bytes \<Rightarrow> json option \<Rightarrow> Sse \<Rightarrow> bool \<times> Sse" where
  "sse_close sink base fin usage s =
     (let s = (if sse_alive s then send sink (chunk_json base (JObj []) (JStr fin)) s else s);
          s = (case usage of Some u \<Rightarrow> if sse_alive s then send sink (sse_usage base u) s else s | None \<Rightarrow> s)
      in (sse_alive s, s))"

section \<open>The handlers\<close>

datatype response =
    Failed nat json
  | Crashed
  | Reply json
  | Stream "json list" bool

record ('v, 'e, 'f) Server =
  sv_runner :: "('v, 'e, 'f) Runner"
  sv_cache :: ImageEmbeddingCache
  sv_served :: nat

text \<open>What the handlers use and do not change.\<close>

record ('v, 'e, 'f) Setup =
  se_json :: JsonLib
  se_tok :: Tokenizer
  se_engine :: "('v, 'e, 'f) Engine"
  se_encoder :: "bytes \<Rightarrow> string + ImageEmbedding"
  se_vision :: bool
  se_opts :: ServerOpts

definition fail_with :: "http_error \<Rightarrow> response" where
  "fail_with e = (case e of Http n s \<Rightarrow> Failed n (error_body s) | Uncaught \<Rightarrow> Crashed)"

text \<open>The part of \<^verbatim>\<open>chat_handler\<close> before the generation: request, prompt and cache, or the error.\<close>

definition prepare_images ::
  "('v, 'e, 'f) Setup \<Rightarrow> 'f ChatRequest \<Rightarrow> ImageEmbeddingCache \<Rightarrow>
   (http_error + ('f :: linordered_field) ChatRequest) \<times> ImageEmbeddingCache" where
  "prepare_images S req cache =
     (if cr_image_urls req = [] then (Inr req, cache)
      else if \<not> se_vision S then (Inl (Http 400 ''this checkpoint has no supported dense vision tower''), cache)
      else case fetch_images (se_encoder S) 0 (cr_image_urls req) (cr_msgs req) [] cache of
             (Inl e, cache) \<Rightarrow> (Inl e, cache)
           | (Inr (msgs, images), cache) \<Rightarrow> (Inr (req\<lparr>cr_msgs := msgs, cr_images := images\<rparr>), cache))"

definition build_prompt ::
  "('v, 'e, 'f) Setup \<Rightarrow> nat \<Rightarrow> 'f ChatRequest \<Rightarrow> http_error + ('f :: linordered_field) ChatRequest \<times> token list" where
  "build_prompt S cap req =
     (case render_chat (se_json S) (cr_msgs req) (if cr_tools_off req then JArr [] else cr_tools req)
             (cr_effort req) True (cr_thinking req) of
        None \<Rightarrow> Inl Uncaught
      | Some t \<Rightarrow>
          let prompt = encode (se_tok S) t in
          if cr_images req = [] then Inr (req, prompt)
          else if length prompt \<ge> cap then Inl (Http 400 ''image prompt exceeds context capacity'')
          else (case encode (se_tok S) ''<|image|>'' of
                  [] \<Rightarrow> Inl Uncaught
                | image_id # _ \<Rightarrow>
                    bind_sum (place_images image_id prompt 0 (cr_images req))
                      (\<lambda>images. Inr (req\<lparr>cr_images := images\<rparr>, prompt))))"

definition want_usage :: "json \<Rightarrow> chat_error + bool" where
  "want_usage body = (case field ''stream_options'' body of
     Some so \<Rightarrow> if is_object so then value_with bool_of ''include_usage'' False so else Inr False
   | None \<Rightarrow> Inr False)"

text \<open>\<^verbatim>\<open>parse_common\<close> runs a second time on the same body, with the stop strings cleared: it cannot fail
  there when it did not fail in \<^verbatim>\<open>parse_chat\<close>.\<close>

definition read_chat ::
  "('v, 'e, 'f) Setup \<Rightarrow> bytes option \<Rightarrow> bytes \<Rightarrow>
   http_error + json \<times> ('f :: linordered_field) ChatRequest" where
  "read_chat S hdr body_text =
     (if \<not> authorized (se_opts S) hdr then Inl (Http 401 ''invalid api key'')
      else case js_parse (se_json S) body_text of
        None \<Rightarrow> Inl (Http 400 ''could not parse JSON body'')
      | Some body \<Rightarrow>
         (case parse_chat (se_json S) (se_opts S) body of
            Inl e \<Rightarrow> Inl (of_chat_error e) | Inr req \<Rightarrow> Inr (body, req)))"

definition read_options ::
  "('v, 'e, 'f) Setup \<Rightarrow> json \<Rightarrow> ('f :: linordered_field) ChatRequest \<Rightarrow> chat_error + 'f ChatRequest \<times> bool" where
  "read_options S body req =
     bind_sum (parse_common (se_opts S) body ((cr_gen req)\<lparr>stop_strings := []\<rparr>)) (\<lambda>g.
     bind_sum (value_with bool_of ''stream'' False body) (\<lambda>stream.
     bind_sum (want_usage body) (\<lambda>u. Inr (req\<lparr>cr_gen := g, cr_stream := stream\<rparr>, u))))"

definition prepare_chat ::
  "('v, 'e, 'f) Setup \<Rightarrow> nat \<Rightarrow> bytes option \<Rightarrow> bytes \<Rightarrow> ImageEmbeddingCache \<Rightarrow>
   (http_error + ('f :: linordered_field) ChatRequest \<times> token list \<times> bool) \<times> ImageEmbeddingCache" where
  "prepare_chat S cap hdr body_text cache =
     (case read_chat S hdr body_text of
        Inl e \<Rightarrow> (Inl e, cache)
      | Inr (body, req) \<Rightarrow>
          (case prepare_images S req cache of
             (Inl e, cache) \<Rightarrow> (Inl e, cache)
           | (Inr req, cache) \<Rightarrow>
               (case read_options S body req of
                  Inl e \<Rightarrow> (Inl (of_chat_error e), cache)
                | Inr (req, usage) \<Rightarrow>
                    (bind_sum (build_prompt S cap req) (\<lambda>(req, prompt). Inr (req, prompt, usage)), cache))))"

text \<open>The two ways to answer; a rejected generation throws through the handler.\<close>

definition answer_json ::
  "('v, 'e, 'f :: linordered_field) Setup \<Rightarrow> bytes \<Rightarrow> int \<Rightarrow> 'f ChatRequest \<Rightarrow> token list \<Rightarrow>
   ('v, 'e, 'f) Server \<Rightarrow> (response \<times> ('v, 'e, 'f) Server) option" where
  "answer_json S chat_id created req prompt sv =
     (case server_generate (se_json S) (se_tok S) (se_engine S) prompt req None () (sv_runner sv) of
        None \<Rightarrow> None
      | Some (Inl e, r) \<Rightarrow> Some (Crashed, sv\<lparr>sv_runner := r\<rparr>)
      | Some (Inr (out, _), r) \<Rightarrow>
          Some (Reply (completion_json chat_id created out (finish_of r out (max_tokens (cr_gen req)))
                  (usage_json (length prompt) (rn_resume r) (go_completion_tokens out))),
                sv\<lparr>sv_runner := r, sv_served := sv_served sv + 1\<rparr>))"

definition answer_sse ::
  "('v, 'e, 'f :: linordered_field) Setup \<Rightarrow> (json list \<Rightarrow> json \<Rightarrow> bool) \<Rightarrow> bytes \<Rightarrow> int \<Rightarrow> 'f ChatRequest \<Rightarrow>
   token list \<Rightarrow> bool \<Rightarrow> ('v, 'e, 'f) Server \<Rightarrow> (response \<times> ('v, 'e, 'f) Server) option" where
  "answer_sse S sink chat_id created req prompt usage sv =
     (let base = base_json chat_id created;
          s = send sink (sse_first base) \<lparr>sse_alive = True, sse_tool_index = - 1, sse_events = []\<rparr>
      in if \<not> sse_alive s then Some (Stream (sse_events s) False, sv)
         else case server_generate (se_json S) (se_tok S) (se_engine S) prompt req (Some (sse_emit sink base)) s
                     (sv_runner sv) of
             None \<Rightarrow> None
           | Some (Inl e, r) \<Rightarrow> Some (Crashed, sv\<lparr>sv_runner := r\<rparr>)
           | Some (Inr (out, s), r) \<Rightarrow>
               let u = usage_json (length prompt) (rn_resume r) (go_completion_tokens out);
                   (done_sent, s) = sse_close sink base (finish_of r out (max_tokens (cr_gen req)))
                       (if usage then Some u else None) s
               in Some (Stream (sse_events s) done_sent, sv\<lparr>sv_runner := r, sv_served := sv_served sv + 1\<rparr>))"

definition chat_handler ::
  "('v, 'e, 'f :: linordered_field) Setup \<Rightarrow> (json list \<Rightarrow> json \<Rightarrow> bool) \<Rightarrow> bytes \<Rightarrow> int \<Rightarrow> bytes option \<Rightarrow> bytes \<Rightarrow>
   ('v, 'e, 'f) Server \<Rightarrow> (response \<times> ('v, 'e, 'f) Server) option" where
  "chat_handler S sink chat_id created hdr body_text sv =
     (case prepare_chat S (c_cap (rn_caches (sv_runner sv))) hdr body_text (sv_cache sv) of
        (Inl e, cache) \<Rightarrow> Some (fail_with e, sv\<lparr>sv_cache := cache\<rparr>)
      | (Inr (req, prompt, usage), cache) \<Rightarrow>
          if cr_stream req then answer_sse S sink chat_id created req prompt usage (sv\<lparr>sv_cache := cache\<rparr>)
          else answer_json S chat_id created req prompt (sv\<lparr>sv_cache := cache\<rparr>))"

text \<open>\<^verbatim>\<open>/v1/completions\<close>: no template, no stop strings, no cancelling; the callback only feeds.\<close>

definition prompt_text :: "json \<Rightarrow> bytes" where
  "prompt_text body = (case field ''prompt'' body of
     Some (JStr s) \<Rightarrow> s | Some (JArr (JStr s # _)) \<Rightarrow> s | _ \<Rightarrow> [])"

definition text_tok :: "JsonLib \<Rightarrow> Tokenizer \<Rightarrow> unit GenState \<Rightarrow> token \<Rightarrow> unit GenState" where
  "text_tok J tk g tok =
     (let g = g\<lparr>gs_ids := gs_ids g @ [tok]\<rparr>;
          (prev, piece) = push (gs_prev g) (decode_tokens tk (gs_ids g) True);
          g = g\<lparr>gs_prev := prev\<rparr>
      in if piece = [] then g else g\<lparr>gs_parser := fst (feed J (gs_parser g) piece)\<rparr>)"

definition text_json :: "bytes \<Rightarrow> int \<Rightarrow> bytes \<Rightarrow> bytes \<Rightarrow> json \<Rightarrow> json" where
  "text_json cmpl_id created t fin usage =
     JObj [(''id'', JStr cmpl_id), (''object'', JStr ''text_completion''), (''created'', JInt created),
       (''model'', JStr kModelId),
       (''choices'', JArr [JObj [(''index'', JInt 0), (''text'', JStr t), (''finish_reason'', JStr fin)]]),
       (''usage'', usage)]"

definition text_generate ::
  "('v, 'e, 'f :: linordered_field) Setup \<Rightarrow> bytes \<Rightarrow> int \<Rightarrow> 'f GenParams \<Rightarrow> token list \<Rightarrow>
   ('v, 'e, 'f) Server \<Rightarrow> (response \<times> ('v, 'e, 'f) Server) option" where
  "text_generate S cmpl_id created p prompt sv =
     (case generate (se_engine S) p (\<lambda>_. True) prompt [] (sv_runner sv) of
        None \<Rightarrow> None
      | Some (Inl e, r) \<Rightarrow> Some (Crashed, sv\<lparr>sv_runner := r\<rparr>)
      | Some (Inr toks, r) \<Rightarrow>
          let g = foldl (text_tok (se_json S) (se_tok S)) (GenState_new False ()) toks;
              parsed = p_out (fst (finish (se_json S) (gs_parser g)));
              n = length (gs_ids g)
          in Some (Reply (text_json cmpl_id created (po_content parsed) (finish_reason r n (max_tokens p))
                     (usage_json (length prompt) (rn_resume r) n)),
                   sv\<lparr>sv_runner := r, sv_served := sv_served sv + 1\<rparr>))"

definition text_handler ::
  "('v, 'e, 'f :: linordered_field) Setup \<Rightarrow> bytes \<Rightarrow> int \<Rightarrow> bytes option \<Rightarrow> bytes \<Rightarrow>
   ('v, 'e, 'f) Server \<Rightarrow> (response \<times> ('v, 'e, 'f) Server) option" where
  "text_handler S cmpl_id created hdr body_text sv =
     (if \<not> authorized (se_opts S) hdr then Some (fail_with (Http 401 ''invalid api key''), sv)
      else case js_parse (se_json S) body_text of
        None \<Rightarrow> Some (fail_with (Http 400 ''could not parse JSON body''), sv)
      | Some body \<Rightarrow>
         (case parse_common (se_opts S) body GenParams_new of
            Inl e \<Rightarrow> Some (fail_with (of_chat_error e), sv)
          | Inr p \<Rightarrow> text_generate S cmpl_id created p (encode (se_tok S) (prompt_text body)) sv))"

text \<open>\<^verbatim>\<open>/v1/models\<close>.\<close>

definition models_json :: "ServerOpts \<Rightarrow> int \<Rightarrow> bool \<Rightarrow> json" where
  "models_json opts ctx_cap vision =
     JObj [(''object'', JStr ''list''),
       (''data'', JArr [JObj [(''id'', JStr kModelId), (''object'', JStr ''model''), (''created'', JInt 0),
          (''owned_by'', JStr ''helios''), (''root'', JStr kModelId),
          (''max_tokens'', JInt (so_default_max_tokens opts)), (''context_length'', JInt ctx_cap),
          (''supports_vision'', JBool vision),
          (''capabilities'', JArr (map JStr ([''completion'', ''function_calling'', ''reasoning''] @
             (if vision then [''vision''] else [])))),
          (''reasoning_effort'', JStr (so_default_effort opts))]])]"

section \<open>The driver and the decoded bytes\<close>

definition driven :: "JsonLib \<Rightarrow> Tokenizer \<Rightarrow> bool \<Rightarrow> token list \<Rightarrow> 'c GenState \<Rightarrow> bool" where
  "driven J tk th toks g \<longleftrightarrow> gs_ids g = toks \<and> gs_count g = length toks \<and>
     gs_prev g = utf8_complete_prefix (decode_tokens tk toks True) \<and>
     (\<exists>pieces. gs_parser g = feed_all J (OutputParser_new th) pieces \<and>
        concat pieces = take (gs_prev g) (decode_tokens tk toks True))"

lemma call_emit_fields [simp]:
  "gs_ids (snd (call_emit emit d g)) = gs_ids g" "gs_count (snd (call_emit emit d g)) = gs_count g"
  "gs_prev (snd (call_emit emit d g)) = gs_prev g" "gs_parser (snd (call_emit emit d g)) = gs_parser g"
  "gs_stop_hit (snd (call_emit emit d g)) = gs_stop_hit g"
  by (simp_all add: call_emit_def split: option.splits prod.splits)

lemma deltas_loop_fields:
  "gs_ids (snd (deltas_loop emit stops ds g)) = gs_ids g \<and> gs_count (snd (deltas_loop emit stops ds g)) = gs_count g \<and>
   gs_prev (snd (deltas_loop emit stops ds g)) = gs_prev g \<and> gs_parser (snd (deltas_loop emit stops ds g)) = gs_parser g"
proof (induction ds arbitrary: g)
  case (Cons d ds)
  let ?g = "if d_content d \<noteq> [] then g\<lparr>gs_visible := gs_visible g @ d_content d\<rparr> else g"
  obtain ok g' where c: "call_emit emit d ?g = (ok, g')" by fastforce
  have "gs_ids g' = gs_ids g" "gs_count g' = gs_count g" "gs_prev g' = gs_prev g" "gs_parser g' = gs_parser g"
    using call_emit_fields [of emit d ?g] c by auto
  then show ?case using Cons.IH [of g'] c by (simp add: Let_def)
qed simp

lemma driven_new: "driven J tk th [] (GenState_new th c)"
  by (auto simp: driven_def GenState_new_def feed_all_def utf8_complete_prefix.simps [of "[]"] intro: exI [of _ "[]"])

lemma driven_step:
  assumes "driven J tk th toks g"
  shows "driven J tk th (toks @ [tok]) (snd (on_tok J tk emit stops tok g))"
proof -
  let ?b = "decode_tokens tk toks True" and ?c = "decode_tokens tk (toks @ [tok]) True"
  let ?g = "g\<lparr>gs_ids := toks @ [tok], gs_count := Suc (length toks)\<rparr>"
  from assms obtain pieces where
    g: "gs_ids g = toks" "gs_count g = length toks" "gs_prev g = utf8_complete_prefix ?b"
    "gs_parser g = feed_all J (OutputParser_new th) pieces" "concat pieces = take (gs_prev g) ?b"
    by (auto simp: driven_def)
  obtain prev piece where pp: "push (gs_prev g) ?c = (prev, piece)" by fastforce
  have "prefix ?b ?c" by simp
  from push_step [OF g(3) this] pp have prev: "prev = utf8_complete_prefix ?c"
    and cat: "take (gs_prev g) ?b @ piece = take prev ?c" by simp_all
  show ?thesis
  proof (cases "piece = []")
    case True
    then have "snd (on_tok J tk emit stops tok g) = ?g\<lparr>gs_prev := prev\<rparr>"
      using g(1,2) pp by (simp add: on_tok_def Let_def)
    with True g(4,5) prev cat show ?thesis by (auto simp: driven_def intro: exI [of _ pieces])
  next
    case False
    obtain p ds where f: "feed J (gs_parser g) piece = (p, ds)" by fastforce
    let ?h = "?g\<lparr>gs_prev := prev, gs_parser := p\<rparr>"
    define h where "h = snd (deltas_loop emit stops ds ?h)"
    have step: "snd (on_tok J tk emit stops tok g) = h"
      using False g(1,2) pp f by (simp add: on_tok_def Let_def h_def)
    have parser: "p = feed_all J (OutputParser_new th) (pieces @ [piece])"
      using f g(4) by (simp add: feed_all_def)
    have pre: "concat (pieces @ [piece]) = take prev ?c" using g(5) cat by simp
    have "gs_ids h = toks @ [tok]" "gs_count h = Suc (length toks)" "gs_prev h = prev" "gs_parser h = p"
      using deltas_loop_fields [of emit stops ds ?h] by (simp_all add: h_def)
    with parser pre prev show ?thesis
      unfolding driven_def step by (intro conjI exI [of _ "pieces @ [piece]"]) simp_all
  qed
qed

lemma driven_driver: "driven J tk th toks (driver J tk emit stops (GenState_new th c) toks)"
proof (induction toks rule: rev_induct)
  case (snoc tok toks)
  from driven_step [OF snoc] show ?case by (simp add: driver_def)
qed (simp add: driver_def driven_new)

text \<open>What the text of a run parses to: the decoded bytes up to the last whole character.\<close>

definition parsed_text :: "JsonLib \<Rightarrow> Tokenizer \<Rightarrow> bool \<Rightarrow> token list \<Rightarrow> ParsedOutput" where
  "parsed_text J tk th toks =
     (let bs = decode_tokens tk toks True in parse_output J (take (utf8_complete_prefix bs) bs) th)"

lemma wind_up_parsed:
  assumes "driven J tk th toks g"
  shows "go_content (fst (wind_up J emit g)) = po_content (parsed_text J tk th toks)"
    and "go_reasoning (fst (wind_up J emit g)) = po_reasoning (parsed_text J tk th toks)"
    and "go_tool_calls (fst (wind_up J emit g)) = po_tool_calls (parsed_text J tk th toks)"
    and "p_out (fst (finish J (gs_parser g))) = parsed_text J tk th toks"
proof -
  from assms obtain pieces where p: "gs_parser g = feed_all J (OutputParser_new th) pieces"
    "concat pieces = take (utf8_complete_prefix (decode_tokens tk toks True)) (decode_tokens tk toks True)"
    by (auto simp: driven_def)
  have "p_out (fst (finish J (feed_all J (OutputParser_new th) pieces))) = parse_output J (concat pieces) th"
    unfolding parse_output_def by (rule finish_core) (rule feed_all_parser)
  then show o: "p_out (fst (finish J (gs_parser g))) = parsed_text J tk th toks"
    using p by (simp add: parsed_text_def Let_def)
  have w: "whole (po_content (parsed_text J tk th toks))" "whole (po_reasoning (parsed_text J tk th toks))"
    unfolding parsed_text_def Let_def by (rule whole_parse_output, rule wf_prefix_part)+
  obtain parser rest where f: "finish J (gs_parser g) = (parser, rest)" by fastforce
  show "go_content (fst (wind_up J emit g)) = po_content (parsed_text J tk th toks)"
    "go_reasoning (fst (wind_up J emit g)) = po_reasoning (parsed_text J tk th toks)"
    "go_tool_calls (fst (wind_up J emit g)) = po_tool_calls (parsed_text J tk th toks)"
    using o f w by (simp_all add: wind_up_def Let_def sanitize_wf_id)
qed

lemma wind_up_count:
  "go_completion_tokens (fst (wind_up J emit g)) = gs_count g"
proof -
  have "gs_count (emit_rest emit ds g) = gs_count g" for ds by (induction ds arbitrary: g) simp_all
  then show ?thesis by (simp add: wind_up_def Let_def case_prod_beta)
qed

lemma server_generate_correct:
  fixes req :: "('f :: linordered_field) ChatRequest" and J :: JsonLib and tk :: Tokenizer
    and emit :: "'c emitter" and c :: 'c
  assumes ok: "runner_ok E r" and mc: "0 < en_max_chunk E" and prompt: "prompt \<noteq> []"
    and valid: "list_all (image_valid (en_hidden E) (length prompt)) (cr_images req)" and dj: "images_disjoint (cr_images req)"
  defines "cb \<equiv> callback J tk emit (stop_strings (cr_gen req)) (GenState_new (cr_thinking req) c)"
  defines "toks \<equiv> generate_spec E (cr_gen req) cb (c_cap (rn_caches r)) prompt (cr_images req)"
  shows "\<exists>r'. server_generate J tk E prompt req emit c r =
      Some (Inr (wind_up J emit (driver J tk emit (stop_strings (cr_gen req)) (GenState_new (cr_thinking req) c) toks)), r') \<and>
    runner_ok E r' \<and> c_cap (rn_caches r') = c_cap (rn_caches r)"
  using generate_correct [OF ok mc prompt valid dj, of "cr_gen req" cb]
  by (auto simp: server_generate_def Let_def toks_def cb_def)

section \<open>Properties\<close>


definition demo_setup :: "(hidden_row, hidden_row, rat) Setup" where
  "demo_setup = \<lparr>se_json = demo_lib, se_tok = byte_tokenizer, se_engine = demo_engine,
     se_encoder = (\<lambda>_. Inl []), se_vision = False, se_opts = g_opts\<rparr>"

definition demo_request :: "rat ChatRequest" where
  "demo_request = ChatRequest_new\<lparr>cr_gen := demo_params\<rparr>"

definition demo_server :: "(hidden_row, hidden_row, rat) Server" where
  "demo_server = \<lparr>sv_runner = demo_runner, sv_cache = image_cache_new 100, sv_served = 0\<rparr>"

lemma demo_server_simps [simp]:
  "se_engine demo_setup = demo_engine" "sv_runner demo_server = demo_runner" "en_max_chunk demo_engine = 2"
  "cr_images demo_request = []" "stop_strings (cr_gen demo_request) = []" "images_disjoint []"
  by (simp_all add: demo_setup_def demo_server_def demo_engine_def demo_request_def ChatRequest_new_def
    demo_params_def images_disjoint_def)


text \<open>C40: Images that the encoder returned well formed and that were placed are accepted by the runner:
  their rows lie on image tokens inside the prompt, in order and without overlap, with the data
  unchanged.  The places are found by the token alone: an image tag typed by the user before the
  real one takes the image.\<close>

theorem images_placed:
  assumes "place_images image_id prompt 0 ims = Inr ims'"
    and enc: "\<forall>im \<in> set ims. 0 < im_rows im \<and> im_hidden im = hidden \<and>
      int (length (im_values im)) = im_rows im * im_hidden im"
  shows "list_all (image_valid hidden (length prompt)) ims' \<and> images_disjoint ims' \<and>
    map im_values ims' = map im_values ims \<and>
    (\<forall>im \<in> set ims'. \<forall>j < nat (im_rows im). prompt ! (nat (im_start im) + j) = image_id) \<and>
    (image_id \<noteq> t \<longrightarrow> map_sum id (map im_start)
       (place_images image_id [image_id, t, image_id] 0 [\<lparr>im_start = 0, im_rows = 1, im_hidden = h, im_values = v\<rparr>]) =
       Inr [0])"
proof -
  have pos: "\<forall>im \<in> set ims. 0 < im_rows im" using enc by blast
  note ok = place_images_ok [OF assms(1) this]
  then have m: "map (\<lambda>im. im\<lparr>im_start := 0\<rparr>) ims' = map (\<lambda>im. im\<lparr>im_start := 0\<rparr>) ims" by blast
  have "map (\<lambda>im. (im_rows im, im_hidden im, im_values im)) ims' = map (\<lambda>im. (im_rows im, im_hidden im, im_values im)) ims"
    using arg_cong [OF m, of "map (\<lambda>im. (im_rows im, im_hidden im, im_values im))"] by (simp add: comp_def)
  then have same: "set (map (\<lambda>im. (im_rows im, im_hidden im, im_values im)) ims') =
     set (map (\<lambda>im. (im_rows im, im_hidden im, im_values im)) ims)" by simp
  have v: "map im_values ims' = map im_values ims"
    using arg_cong [OF m, of "map im_values"] by (simp add: comp_def)
  have "list_all (image_valid hidden (length prompt)) ims'"
  proof (unfold list_all_iff, rule ballI)
    fix im assume im: "im \<in> set ims'"
    then have "(im_rows im, im_hidden im, im_values im) \<in>
        set (map (\<lambda>im. (im_rows im, im_hidden im, im_values im)) ims)"
      unfolding same [symmetric] by force
    then obtain im0 where "im0 \<in> set ims" "im_rows im0 = im_rows im" "im_hidden im0 = im_hidden im"
      "im_values im0 = im_values im" by auto
    with enc have "0 < im_rows im \<and> im_hidden im = hidden \<and> int (length (im_values im)) = im_rows im * im_hidden im"
      by metis
    with ok im show "image_valid hidden (length prompt) im" by (auto simp: image_valid_def placed_def)
  qed
  with ok v show ?thesis by (auto simp: placed_def skip_to_def Let_def)
qed
theorem images_placed_witness:
  "list_all (image_valid 1 3) [\<lparr>im_start = 1, im_rows = 2, im_hidden = 1, im_values = [0, 0]\<rparr>]"
  using images_placed [of 5 "[7, 5, 5]" "[\<lparr>im_start = 0, im_rows = 2, im_hidden = 1, im_values = [0, 0]\<rparr>]"
     "[\<lparr>im_start = 1, im_rows = 2, im_hidden = 1, im_values = [0, 0]\<rparr>]" 1]
  by (simp add: skip_to_def Let_def numeral_2_eq_2 numeral_3_eq_3)

end
