(* ===== verification/Server_Stream.thy ===== *)
theory Server_Stream
  imports Server
begin

text \<open>
  The event stream of \<^verbatim>\<open>chat_handler\<close> read back as a client reads it, and compared with the reply of the same
  request without streaming.
\<close>

section \<open>Reading an event stream\<close>

text \<open>What an SSE client does with the chunks: it appends the text of each delta, opens a call at a chunk
  with an id, and appends the arguments of the others to the call they name.\<close>

definition ev_delta :: "json \<Rightarrow> json" where
  "ev_delta ev = (case field ''choices'' ev of
     Some (JArr (c # _)) \<Rightarrow> (case field ''delta'' c of Some d \<Rightarrow> d | None \<Rightarrow> JNull) | _ \<Rightarrow> JNull)"

definition str_or_empty :: "bytes \<Rightarrow> json \<Rightarrow> bytes" where
  "str_or_empty k j = or_else (str_field k j) []"

definition event_text :: "bytes \<Rightarrow> json \<Rightarrow> bytes" where
  "event_text k ev = str_or_empty k (ev_delta ev)"

definition event_calls :: "json \<Rightarrow> json list" where
  "event_calls ev = (case field ''tool_calls'' (ev_delta ev) of Some (JArr cs) \<Rightarrow> cs | _ \<Rightarrow> [])"

definition fn_str :: "bytes \<Rightarrow> json \<Rightarrow> bytes" where
  "fn_str k c = (case field ''function'' c of Some f \<Rightarrow> str_or_empty k f | None \<Rightarrow> [])"

definition add_call :: "ToolCall list \<Rightarrow> json \<Rightarrow> ToolCall list" where
  "add_call calls c =
     (case str_field ''id'' c of
        Some i \<Rightarrow> calls @ [\<lparr>tc_id = i, tc_name = fn_str ''name'' c, tc_arguments = fn_str ''arguments'' c\<rparr>]
      | None \<Rightarrow>
          let k = (case field ''index'' c of Some (JInt k) \<Rightarrow> nat k | _ \<Rightarrow> 0)
          in calls[k := (calls ! k)\<lparr>tc_arguments := tc_arguments (calls ! k) @ fn_str ''arguments'' c\<rparr>])"

definition read_text :: "bytes \<Rightarrow> json list \<Rightarrow> bytes" where
  "read_text k evs = concat (map (event_text k) evs)"

definition read_calls :: "json list \<Rightarrow> ToolCall list" where
  "read_calls evs = foldl add_call [] (concat (map event_calls evs))"

definition client_has :: "Sse \<Rightarrow> ParsedOutput \<Rightarrow> bool" where
  "client_has s u \<longleftrightarrow> sse_alive s \<and> read_text ''content'' (sse_events s) = po_content u \<and>
     read_text ''reasoning_content'' (sse_events s) = po_reasoning u \<and>
     read_calls (sse_events s) = po_tool_calls u \<and>
     sse_tool_index s = int (length (po_tool_calls u)) - 1"

abbreviation open_sink :: "json list \<Rightarrow> json \<Rightarrow> bool" where
  "open_sink evs ev \<equiv> True"

lemma chunk_delta [simp]: "ev_delta (chunk_json (base_json cid t) d f) = d"
  by (simp add: ev_delta_def chunk_json_def base_json_def field_def)

lemma read_append [simp]:
  "read_text k (evs @ evs') = read_text k evs @ read_text k evs'"
  "read_text k (ev # evs) = event_text k ev @ read_text k evs" "read_text k [] = []"
  "read_calls (evs @ evs') = foldl add_call (read_calls evs) (concat (map event_calls evs'))"
  by (simp_all add: read_text_def read_calls_def)

lemma send_open [simp]: "send open_sink ev s = s\<lparr>sse_alive := True, sse_events := sse_events s @ [ev]\<rparr>"
  by (simp add: send_def)

lemma sse_text_content:
  "client_has s u \<Longrightarrow> client_has (sse_text open_sink (base_json cid t) ''content'' x s) (u\<lparr>po_content := po_content u @ x\<rparr>)"
  by (simp add: client_has_def sse_text_def event_text_def event_calls_def str_or_empty_def or_else_def
      str_field_def field_def)

lemma sse_text_reasoning:
  "client_has s u \<Longrightarrow> client_has (sse_text open_sink (base_json cid t) ''reasoning_content'' x s) (u\<lparr>po_reasoning := po_reasoning u @ x\<rparr>)"
  by (simp add: client_has_def sse_text_def event_text_def event_calls_def str_or_empty_def or_else_def
      str_field_def field_def)

lemma sse_tool_call:
  "client_has s u \<Longrightarrow> client_has (sse_tool open_sink (base_json cid t) d s)
     (u\<lparr>po_tool_calls := po_tool_calls u @ [delta_call d]\<rparr>)"
  by (simp add: client_has_def sse_tool_def Let_def event_text_def event_calls_def str_or_empty_def or_else_def
      str_field_def field_def tool_begin_json_def tool_args_json_def add_call_def fn_str_def delta_call_def)

lemma sse_emit_open:
  assumes "client_has s u"
  shows "fst (sse_emit open_sink (base_json cid t) d s)"
    and "client_has (snd (sse_emit open_sink (base_json cid t) d s)) (add_deltas [d] u)"
proof -
  let ?b = "base_json cid t"
  let ?s1 = "sse_text open_sink ?b ''reasoning_content'' (d_reasoning d) s"
  let ?s2 = "sse_text open_sink ?b ''content'' (d_content d) ?s1"
  let ?s3 = "if d_tool_begin d then sse_tool open_sink ?b d ?s2 else ?s2"
  have a: "sse_alive s" using assms by (simp add: client_has_def)
  have 2: "client_has ?s2 (u\<lparr>po_reasoning := po_reasoning u @ d_reasoning d, po_content := po_content u @ d_content d\<rparr>)"
    using sse_text_content [OF sse_text_reasoning [OF assms]] by simp
  have 3: "client_has ?s3 (add_deltas [d] u)"
    using 2 sse_tool_call [OF 2, of cid t d] by (cases u; cases "d_tool_begin d") (simp_all add: add_deltas_def)
  have e: "sse_emit open_sink ?b d s = (sse_alive ?s3, ?s3)" using a by (simp add: sse_emit_def Let_def)
  show "fst (sse_emit open_sink ?b d s)" using 3 by (simp only: e fst_conv client_has_def)
  show "client_has (snd (sse_emit open_sink ?b d s)) (add_deltas [d] u)" using 3 by (simp only: e snd_conv)
qed

section \<open>Streaming and not streaming run in lock-step\<close>

lemma feed_stops_last: "stops_last (snd (feed J p piece))"
proof (cases "p_done p")
  case True
  then show ?thesis by (simp add: feed_done stops_last_def)
next
  case False
  let ?q = "drain J False (p\<lparr>p_pending := [], p_buf := p_buf p @ piece\<rparr>)"
  have f: "feed J p piece = (?q, p_pending ?q)" using False by (simp add: feed_def Let_def)
  have h: "halting (p\<lparr>p_pending := []\<rparr>) ?q"
    using halting_trans [OF halting_silent _ halting_drain, of "p\<lparr>p_pending := [], p_buf := p_buf p @ piece\<rparr>" "p\<lparr>p_pending := []\<rparr>"]
    by simp
  from halting_cases [OF h False] show ?thesis
    by (cases "p_done ?q") (simp_all add: f stops_last_none)
qed

lemma stops_last_Cons: "stops_last (d # ds) \<Longrightarrow> stops_last ds \<and> (d_stop d \<longrightarrow> ds = [])"
  by (fastforce simp: stops_last_def)

abbreviation live :: "bytes \<Rightarrow> int \<Rightarrow> Sse emitter" where
  "live cid t \<equiv> Some (sse_emit open_sink (base_json cid t))"

lemma call_live:
  assumes "client_has (gs_client g) u"
  shows "\<exists>s. call_emit (live cid t) d g = (True, g\<lparr>gs_client := s\<rparr>) \<and> client_has s (add_deltas [d] u)"
proof -
  obtain ok s where e: "sse_emit open_sink (base_json cid t) d (gs_client g) = (ok, s)" by fastforce
  with sse_emit_open [OF assms, of cid t d] show ?thesis by (intro exI [of _ s]) (simp add: call_emit_def)
qed

lemma deltas_live:
  "stops_last ds \<Longrightarrow> client_has (gs_client g) u \<Longrightarrow>
   fst (deltas_loop (live cid t) [] ds g) = list_all (\<lambda>d. \<not> d_stop d) ds \<and>
   client_has (gs_client (snd (deltas_loop (live cid t) [] ds g))) (add_deltas ds u)"
proof (induction ds arbitrary: g u)
  case (Cons d ds)
  from stops_last_Cons [OF Cons.prems(1)] have sl: "stops_last ds" "d_stop d \<Longrightarrow> ds = []" by blast+
  have ad: "add_deltas (d # ds) u = add_deltas ds (add_deltas [d] u)"
    using add_deltas_append [of "[d]" ds u] by simp
  show ?case
  proof (cases "d_stop d")
    case True
    have "client_has (gs_client (g\<lparr>gs_stop_hit := True\<rparr>)) u" using Cons.prems by simp
    from call_live [OF this, of cid t d] True sl(2) show ?thesis by auto
  next
    case False
    let ?g = "if d_content d \<noteq> [] then g\<lparr>gs_visible := gs_visible g @ d_content d\<rparr> else g"
    have "client_has (gs_client ?g) u" using Cons.prems by simp
    from call_live [OF this, of cid t d] obtain s where
      c: "call_emit (live cid t) d ?g = (True, ?g\<lparr>gs_client := s\<rparr>)" "client_has s (add_deltas [d] u)" by blast
    have "client_has (gs_client (?g\<lparr>gs_client := s\<rparr>)) (add_deltas [d] u)" using c(2) by simp
    from Cons.IH [OF sl(1) this] False c(1) show ?thesis by (simp add: ad Let_def)
  qed
qed simp

lemma deltas_silent: "fst (deltas_loop None [] ds g) = list_all (\<lambda>d. \<not> d_stop d) ds"
  by (induction ds arbitrary: g) (simp_all add: call_emit_def Let_def)

definition in_step :: "unit GenState \<Rightarrow> Sse GenState \<Rightarrow> bool" where
  "in_step g h \<longleftrightarrow> gs_ids h = gs_ids g \<and> gs_count h = gs_count g \<and> gs_prev h = gs_prev g \<and>
     gs_parser h = gs_parser g \<and> client_has (gs_client h) (p_out (gs_parser g))"

lemma on_tok_in_step:
  assumes "in_step g h"
  shows "fst (on_tok J tk (live cid t) [] tok h) = fst (on_tok J tk None [] tok g)"
    and "in_step (snd (on_tok J tk None [] tok g)) (snd (on_tok J tk (live cid t) [] tok h))"
proof -
  let ?ids = "gs_ids g @ [tok]"
  obtain prev piece where pp: "push (gs_prev g) (decode_tokens tk ?ids True) = (prev, piece)" by fastforce
  obtain p ds where f: "feed J (gs_parser g) piece = (p, ds)" by fastforce
  define g1 where "g1 = g\<lparr>gs_ids := ?ids, gs_count := gs_count g + 1, gs_prev := prev, gs_parser := p\<rparr>"
  define h1 where "h1 = h\<lparr>gs_ids := ?ids, gs_count := gs_count g + 1, gs_prev := prev, gs_parser := p\<rparr>"
  from emittedD(1) [OF feed_emits(1) [where p = "gs_parser g" and J = J and piece = piece]] f
  have out: "p_out p = add_deltas ds (p_out (gs_parser g))" using feed_emits(2) [of J "gs_parser g" piece] by simp
  have sl: "stops_last ds" using feed_stops_last [of J "gs_parser g" piece] f by simp
  have ch: "client_has (gs_client h1) (p_out (gs_parser g))" using assms by (simp add: h1_def in_step_def)
  note dl = deltas_live [OF sl ch, of cid t]
  have o: "on_tok J tk None [] tok g = (if piece = [] then (True, g\<lparr>gs_ids := ?ids, gs_count := gs_count g + 1, gs_prev := prev\<rparr>)
      else deltas_loop None [] ds g1)"
    using pp f by (simp add: on_tok_def Let_def g1_def)
  have o': "on_tok J tk (live cid t) [] tok h = (if piece = [] then (True, h\<lparr>gs_ids := ?ids, gs_count := gs_count g + 1, gs_prev := prev\<rparr>)
      else deltas_loop (live cid t) [] ds h1)"
    using pp f assms by (simp add: on_tok_def Let_def h1_def in_step_def)
  show "fst (on_tok J tk (live cid t) [] tok h) = fst (on_tok J tk None [] tok g)"
    using dl deltas_silent [of ds g1] by (simp add: o o')
  show "in_step (snd (on_tok J tk None [] tok g)) (snd (on_tok J tk (live cid t) [] tok h))"
  proof (cases "piece = []")
    case True
    with assms show ?thesis by (simp add: o o' in_step_def)
  next
    case False
    with dl out deltas_loop_fields [of None "[]" ds g1] deltas_loop_fields [of "live cid t" "[]" ds h1]
    show ?thesis by (simp add: o o' in_step_def g1_def h1_def)
  qed
qed

lemma driver_snoc: "driver J tk emit stops g (toks @ [tok]) = snd (on_tok J tk emit stops tok (driver J tk emit stops g toks))"
  by (simp add: driver_def)

lemma driver_in_step:
  "in_step g h \<Longrightarrow> in_step (driver J tk None [] g toks) (driver J tk (live cid t) [] h toks)"
proof (induction toks rule: rev_induct)
  case (snoc tok toks)
  from on_tok_in_step(2) [OF snoc.IH [OF snoc.prems]] show ?case by (simp add: driver_snoc)
qed (simp add: driver_def)

lemma callback_in_step:
  "in_step g h \<Longrightarrow> callback J tk (live cid t) [] h = callback J tk None [] g"
  by (rule ext) (simp add: callback_def on_tok_in_step(1) [OF driver_in_step])

lemma emit_rest_live:
  "client_has (gs_client h) u \<Longrightarrow>
   client_has (gs_client (emit_rest (live cid t) ds h)) (add_deltas ds u) \<and>
   gs_count (emit_rest (live cid t) ds h) = gs_count h \<and> gs_stop_hit (emit_rest (live cid t) ds h) = gs_stop_hit h"
proof (induction ds arbitrary: h u)
  case (Cons d ds)
  from call_live [OF Cons.prems, of cid t d] obtain s where
    s: "call_emit (live cid t) d h = (True, h\<lparr>gs_client := s\<rparr>)" "client_has s (add_deltas [d] u)" by blast
  have "client_has (gs_client (h\<lparr>gs_client := s\<rparr>)) (add_deltas [d] u)" using s(2) by simp
  from Cons.IH [OF this] s(1) add_deltas_append [of "[d]" ds u] show ?case by simp
qed simp

lemma wind_up_live:
  assumes "in_step g h"
  shows "client_has (snd (wind_up J (live cid t) h)) (p_out (fst (finish J (gs_parser g))))"
proof -
  obtain p ds where f: "finish J (gs_parser g) = (p, ds)" by fastforce
  from emittedD(1) [OF finish_emits(1) [where p = "gs_parser g" and J = J]] f
  have "p_out p = add_deltas ds (p_out (gs_parser g))" using finish_emits(2) [of J "gs_parser g"] by simp
  with emit_rest_live [of h "p_out (gs_parser g)" cid t ds] assms f show ?thesis
    by (simp add: wind_up_def Let_def in_step_def)
qed

lemma sse_close_open:
  assumes "client_has s u"
  shows "fst (sse_close open_sink (base_json cid t) fin us s)"
    and "client_has (snd (sse_close open_sink (base_json cid t) fin us s)) u"
proof -
  have e: "ev_delta (sse_usage (base_json cid t) x) = JNull" for x
    by (simp add: ev_delta_def sse_usage_def base_json_def field_def)
  show "fst (sse_close open_sink (base_json cid t) fin us s)"
    "client_has (snd (sse_close open_sink (base_json cid t) fin us s)) u"
    using assms
    by (auto simp: sse_close_def Let_def client_has_def event_text_def event_calls_def str_or_empty_def or_else_def
      str_field_def field_def e split: option.splits)
qed

lemma sse_start:
  "client_has (send open_sink (sse_first (base_json cid t)) \<lparr>sse_alive = True, sse_tool_index = - 1, sse_events = []\<rparr>)
     \<lparr>po_reasoning = [], po_content = [], po_tool_calls = []\<rparr>"
  by (simp add: client_has_def sse_first_def read_text_def read_calls_def event_text_def event_calls_def
    str_or_empty_def or_else_def str_field_def field_def)

section \<open>Properties\<close>



end
