(* ===== verification/Checkpoint.thy ===== *)
theory Checkpoint
  imports Json "HOL-Library.List_Lexorder" "HOL-Library.Char_ord"
begin

text \<open>
  The checkpoint: headers of the safetensors shards, lookup by name, reading a tensor
  (\<^verbatim>\<open>src/core/safetensors.cpp\<close>), and the slab layout of a layer's experts
  (\<^verbatim>\<open>src/core/expert_layout.cpp\<close>).  The file system is a map from paths to contents; parsing JSON
  text is the library's work and a parameter.  A C++ exception is \<open>Throw\<close>, undefined behaviour
  of a malformed header (a missing offset, a division by the size of an unknown type) is
  \<open>Crash\<close>.  Sizes are 64-bit.
\<close>

datatype Dtype = F16 | BF16 | F32 | F64 | I32 | I16 | I8 | U8 | BOOL | UNKNOWN

datatype load_error = Throw bytes | Crash

record TensorInfo =
  ti_name :: bytes
  ti_dtype :: Dtype
  ti_elems :: nat
  ti_bytes :: nat
  ti_shard :: nat
  ti_offset :: nat
  ti_shape :: "int list"

record ShardSet =
  sh_paths :: "bytes list"
  sh_tensors :: "TensorInfo list"
  sh_total :: nat
  sh_data_starts :: "nat list"

definition dtype_of :: "bytes \<Rightarrow> Dtype" where
  "dtype_of s =
     (if s = ''F16'' then F16 else if s = ''BF16'' then BF16 else if s = ''F32'' then F32
      else if s = ''F64'' then F64 else if s = ''I32'' then I32 else if s = ''I16'' then I16
      else if s = ''I8'' then I8 else if s = ''U8'' then U8 else if s = ''BOOL'' then BOOL
      else UNKNOWN)"

fun dtype_size :: "Dtype \<Rightarrow> nat" where
  "dtype_size F64 = 8"
| "dtype_size F32 = 4"
| "dtype_size I32 = 4"
| "dtype_size F16 = 2"
| "dtype_size BF16 = 2"
| "dtype_size I16 = 2"
| "dtype_size I8 = 1"
| "dtype_size U8 = 1"
| "dtype_size BOOL = 1"
| "dtype_size UNKNOWN = 0"

definition u64 :: "int \<Rightarrow> nat" where
  "u64 x = nat (x mod 2 ^ 64)"

section \<open>Headers\<close>

text \<open>\<^verbatim>\<open>v.at(k).get<std::string>()\<close> and \<^verbatim>\<open>get<std::vector<int64_t>>()\<close>.\<close>

definition at_str :: "bytes \<Rightarrow> json \<Rightarrow> load_error + bytes" where
  "at_str k v = (case field k v of Some (JStr s) \<Rightarrow> Inr s | _ \<Rightarrow> Inl (Throw k))"

fun int_of :: "bytes \<Rightarrow> json \<Rightarrow> load_error + int" where
  "int_of k (JInt i) = Inr i"
| "int_of k (JFloat x) = Inr (if 0 \<le> x then \<lfloor>x\<rfloor> else \<lceil>x\<rceil>)"
| "int_of k (JBool b) = Inr (if b then 1 else 0)"
| "int_of k _ = Inl (Throw k)"

fun ints_of :: "bytes \<Rightarrow> json list \<Rightarrow> load_error + int list" where
  "ints_of k [] = Inr []"
| "ints_of k (j # js) = bind_sum (int_of k j) (\<lambda>i. bind_sum (ints_of k js) (\<lambda>is. Inr (i # is)))"

definition at_ints :: "bytes \<Rightarrow> json \<Rightarrow> load_error + int list" where
  "at_ints k v = (case field k v of Some (JArr js) \<Rightarrow> ints_of k js | _ \<Rightarrow> Inl (Throw k))"

text \<open>One entry of the tensor map.\<close>

definition tensor_info :: "nat \<Rightarrow> bytes \<Rightarrow> json \<Rightarrow> load_error + TensorInfo" where
  "tensor_info shard k v =
     bind_sum (at_str ''dtype'' v) (\<lambda>d.
     bind_sum (at_ints ''shape'' v) (\<lambda>shape.
     bind_sum (at_ints ''data_offsets'' v) (\<lambda>offs.
       if length offs < 2 then Inl Crash
       else (let dt = dtype_of d; bs = u64 (offs ! 1 - offs ! 0)
             in if dtype_size dt = 0 then Inl Crash
                else Inr \<lparr>ti_name = k, ti_dtype = dt, ti_elems = bs div dtype_size dt, ti_bytes = bs,
                          ti_shard = shard, ti_offset = u64 (offs ! 0), ti_shape = shape\<rparr>))))"

fun tensor_infos :: "nat \<Rightarrow> (bytes \<times> json) list \<Rightarrow> load_error + TensorInfo list" where
  "tensor_infos shard [] = Inr []"
| "tensor_infos shard ((k, v) # ms) =
     (if k = ''__metadata__'' then tensor_infos shard ms
      else bind_sum (tensor_info shard k v) (\<lambda>t. bind_sum (tensor_infos shard ms) (\<lambda>ts. Inr (t # ts))))"

fun le_value :: "bytes \<Rightarrow> nat" where
  "le_value [] = 0"
| "le_value (b # bs) = byte_val b + 256 * le_value bs"

definition read_header :: "(bytes \<Rightarrow> json option) \<Rightarrow> bytes \<Rightarrow> bytes \<Rightarrow> load_error + (nat \<times> json)" where
  "read_header parse path content =
     (let hlen = le_value (take 8 content);
          hdr = take hlen (drop 8 content)
      in if hlen < 2 \<or> hlen > 512 * 1024 * 1024 then Inl (Throw (''bad header in '' @ path))
         else if length hdr \<noteq> hlen then Inl (Throw (''truncated header in '' @ path))
         else case parse hdr of
                None \<Rightarrow> Inl (Throw (''bad json header in '' @ path))
              | Some j \<Rightarrow> if \<not> is_object j then Inl (Throw (''bad header json in '' @ path))
                          else Inr (hlen, j))"

definition load_shard ::
  "(bytes \<Rightarrow> bytes option) \<Rightarrow> (bytes \<Rightarrow> json option) \<Rightarrow> ShardSet \<Rightarrow> bytes \<Rightarrow> load_error + ShardSet" where
  "load_shard fs parse S path =
     (case fs path of
        None \<Rightarrow> Inl (Throw (''cannot open shard '' @ path))
      | Some content \<Rightarrow>
          bind_sum (read_header parse path content) (\<lambda>(hlen, j).
          bind_sum (tensor_infos (length (sh_paths S)) (members j)) (\<lambda>ts.
            Inr (S\<lparr>sh_paths := sh_paths S @ [path],
                   sh_data_starts := sh_data_starts S @ [8 + hlen],
                   sh_tensors := sh_tensors S @ ts\<rparr>))))"

fun load_shards ::
  "(bytes \<Rightarrow> bytes option) \<Rightarrow> (bytes \<Rightarrow> json option) \<Rightarrow> ShardSet \<Rightarrow> bytes list \<Rightarrow> load_error + ShardSet" where
  "load_shards fs parse S [] = Inr S"
| "load_shards fs parse S (p # ps) = bind_sum (load_shard fs parse S p) (\<lambda>S'. load_shards fs parse S' ps)"

fun weight_files :: "(bytes \<times> json) list \<Rightarrow> load_error + bytes list" where
  "weight_files [] = Inr []"
| "weight_files ((k, v) # ms) =
     (case v of
        JStr s \<Rightarrow> bind_sum (weight_files ms) (\<lambda>fs. Inr (s # fs))
      | _ \<Rightarrow> Inl (Throw ''weight_map''))"

text \<open>What \<^verbatim>\<open>items()\<close> runs over; only an object has keys.\<close>

fun items_of :: "json \<Rightarrow> (bytes \<times> json) list" where
  "items_of (JObj ms) = ms"
| "items_of (JArr js) = map (Pair []) js"
| "items_of JNull = []"
| "items_of j = [([], j)]"

text \<open>The files to load: those the index names, or else the directory's; each once, in order.\<close>

definition shard_paths ::
  "(bytes \<Rightarrow> bytes option) \<Rightarrow> (bytes \<Rightarrow> json option) \<Rightarrow> (bytes \<Rightarrow> bytes list) \<Rightarrow> bytes \<Rightarrow> load_error + bytes list" where
  "shard_paths fs parse listing dir =
     (let named = (case Option.bind (fs (dir @ ''/model.safetensors.index.json'')) parse of
                     None \<Rightarrow> Inr []
                   | Some ix \<Rightarrow> (case field ''weight_map'' ix of
                                    None \<Rightarrow> Inr [] | Some wm \<Rightarrow> weight_files (items_of wm)))
      in bind_sum named (\<lambda>files.
           if files \<noteq> [] then Inr (map (\<lambda>p. dir @ ''/'' @ p) (sort (remdups files)))
           else Inr (sort (remdups (listing dir)))))"

definition load_dir ::
  "(bytes \<Rightarrow> bytes option) \<Rightarrow> (bytes \<Rightarrow> json option) \<Rightarrow> (bytes \<Rightarrow> bytes list) \<Rightarrow> bytes \<Rightarrow> load_error + ShardSet" where
  "load_dir fs parse listing dir =
     bind_sum (shard_paths fs parse listing dir) (\<lambda>paths.
     bind_sum (load_shards fs parse \<lparr>sh_paths = [], sh_tensors = [], sh_total = 0, sh_data_starts = []\<rparr> paths)
       (\<lambda>S. Inr (S\<lparr>sh_tensors := sort_key ti_name (sh_tensors S),
                   sh_total := sum_list (map ti_bytes (sh_tensors S))\<rparr>)))"

section \<open>Lookup\<close>

text \<open>\<^verbatim>\<open>std::lower_bound\<close> over the sorted names.\<close>

function lower_bound :: "TensorInfo list \<Rightarrow> bytes \<Rightarrow> nat \<Rightarrow> nat \<Rightarrow> nat" where
  "lower_bound ts n first len =
     (if len = 0 then first
      else (let half = len div 2; mid = first + half
            in if ti_name (ts ! mid) < n then lower_bound ts n (mid + 1) (len - half - 1)
               else lower_bound ts n first half))"
  by pat_completeness auto

termination
  by (relation "measure (\<lambda>(ts, n, first, len). len)") auto

declare lower_bound.simps [simp del]

definition find_tensor :: "ShardSet \<Rightarrow> bytes \<Rightarrow> TensorInfo option" where
  "find_tensor S n =
     (let i = lower_bound (sh_tensors S) n 0 (length (sh_tensors S))
      in if i < length (sh_tensors S) \<and> ti_name (sh_tensors S ! i) = n then Some (sh_tensors S ! i) else None)"

lemma sorted_names:
  "sorted (map ti_name ts) \<Longrightarrow> i \<le> j \<Longrightarrow> j < length ts \<Longrightarrow> ti_name (ts ! i) \<le> ti_name (ts ! j)"
  by (simp add: sorted_iff_nth_mono)

definition bound_at :: "TensorInfo list \<Rightarrow> bytes \<Rightarrow> nat \<Rightarrow> bool" where
  "bound_at ts n i \<longleftrightarrow> i \<le> length ts \<and> (\<forall>j < i. ti_name (ts ! j) < n) \<and>
     (\<forall>j < length ts. i \<le> j \<longrightarrow> n \<le> ti_name (ts ! j))"

lemma lower_bound_spec:
  assumes "sorted (map ti_name ts)" and "first + len \<le> length ts"
    and "\<forall>i < first. ti_name (ts ! i) < n" and "\<forall>i < length ts. first + len \<le> i \<longrightarrow> n \<le> ti_name (ts ! i)"
  shows "bound_at ts n (lower_bound ts n first len)"
  using assms
proof (induction ts n first len rule: lower_bound.induct)
  case (1 ts n first len)
  note sorted = "1.prems"(1)
  show ?case
  proof (cases "len = 0")
    case True
    with "1.prems" show ?thesis by (simp add: lower_bound.simps bound_at_def)
  next
    case False
    let ?h = "len div 2"
    let ?m = "first + ?h"
    have m: "?m < length ts" "?h < len" using "1.prems"(2) False by simp_all
    show ?thesis
    proof (cases "ti_name (ts ! ?m) < n")
      case True
      have lo: "\<forall>i < ?m + 1. ti_name (ts ! i) < n"
      proof (intro allI impI)
        fix i assume "i < ?m + 1"
        then have "ti_name (ts ! i) \<le> ti_name (ts ! ?m)" using sorted_names [OF sorted _ m(1)] by simp
        with True show "ti_name (ts ! i) < n" by (rule order_le_less_trans [rotated])
      qed
      have e: "?m + 1 + (len - ?h - 1) = first + len" using m(2) by simp
      have "bound_at ts n (lower_bound ts n (?m + 1) (len - ?h - 1))"
        by (rule "1.IH"(1) [OF False refl refl True sorted _ lo]) (use "1.prems"(2,4) e in simp_all)
      then show ?thesis using True False by (subst lower_bound.simps) (simp add: Let_def)
    next
      case t: False
      have hi: "\<forall>i < length ts. first + ?h \<le> i \<longrightarrow> n \<le> ti_name (ts ! i)"
      proof (intro allI impI)
        fix i assume "i < length ts" "?m \<le> i"
        then have "ti_name (ts ! ?m) \<le> ti_name (ts ! i)" using sorted_names [OF sorted] by blast
        with t show "n \<le> ti_name (ts ! i)" by (simp only: not_less)
      qed
      have "bound_at ts n (lower_bound ts n first ?h)"
        by (rule "1.IH"(2) [OF False refl refl t sorted _ "1.prems"(3) hi]) (use m(1) in simp)
      then show ?thesis using t False by (subst lower_bound.simps) (simp add: Let_def)
    qed
  qed
qed

text \<open>Lookup finds the first tensor of that name, and finds one if there is one.\<close>

lemma find_tensor_spec:
  assumes "sorted (map ti_name (sh_tensors S))"
  shows "find_tensor S n = Some t \<Longrightarrow> t \<in> set (sh_tensors S) \<and> ti_name t = n"
    and "find_tensor S n = None \<longleftrightarrow> n \<notin> ti_name ` set (sh_tensors S)"
proof -
  let ?ts = "sh_tensors S"
  let ?i = "lower_bound ?ts n 0 (length ?ts)"
  have b: "bound_at ?ts n ?i" by (rule lower_bound_spec [OF assms]) simp_all
  show "find_tensor S n = Some t \<Longrightarrow> t \<in> set ?ts \<and> ti_name t = n"
    by (auto simp: find_tensor_def Let_def in_set_conv_nth split: if_splits)
  have hit: "?i < length ?ts \<and> ti_name (?ts ! ?i) = n" if j: "j < length ?ts" "ti_name (?ts ! j) = n" for j
  proof -
    have "\<not> j < ?i" using b j(2) unfolding bound_at_def by (metis order_less_irrefl)
    then have i: "?i \<le> j" by simp
    then have "n \<le> ti_name (?ts ! ?i)" using b j(1) unfolding bound_at_def by (meson order_le_less_trans order_refl)
    moreover have "ti_name (?ts ! ?i) \<le> n" using sorted_names [OF assms i j(1)] j(2) by simp
    ultimately show ?thesis using i j(1) by simp
  qed
  show "find_tensor S n = None \<longleftrightarrow> n \<notin> ti_name ` set ?ts"
  proof
    assume "n \<notin> ti_name ` set ?ts"
    then have "\<forall>i < length ?ts. ti_name (?ts ! i) \<noteq> n" using nth_mem by blast
    then show "find_tensor S n = None" by (simp add: find_tensor_def Let_def)
  next
    assume f: "find_tensor S n = None"
    show "n \<notin> ti_name ` set ?ts"
    proof
      assume "n \<in> ti_name ` set ?ts"
      then obtain j where "j < length ?ts" "ti_name (?ts ! j) = n" by (auto simp: in_set_conv_nth)
      with hit [of j] f show False by (simp add: find_tensor_def Let_def)
    qed
  qed
qed

section \<open>Reading a tensor\<close>

text \<open>\<^verbatim>\<open>pread\<close> returns at least one and at most the wanted bytes of the file, or 0 at its end; how
  many is up to the system (\<^term>\<open>short\<close>).\<close>

definition pread :: "(nat \<Rightarrow> nat) \<Rightarrow> bytes \<Rightarrow> nat \<Rightarrow> nat \<Rightarrow> bytes" where
  "pread short content want pos =
     (let avail = min want (length content - pos)
      in take (min avail (max 1 (short pos))) (drop pos content))"

function read_loop ::
  "(nat \<Rightarrow> nat) \<Rightarrow> bytes \<Rightarrow> nat \<Rightarrow> nat \<Rightarrow> bytes \<Rightarrow> bytes option" where
  "read_loop short content pos nb dst =
     (if length dst < nb
      then (let got = pread short content (nb - length dst) (pos + length dst)
            in if got = [] then None else read_loop short content pos nb (dst @ got))
      else Some dst)"
  by pat_completeness auto

termination
  by (relation "measure (\<lambda>(short, content, pos, nb, dst). nb - length dst)") (auto intro!: diff_less_mono2)

declare read_loop.simps [simp del]

definition read_tensor ::
  "(bytes \<Rightarrow> bytes option) \<Rightarrow> (nat \<Rightarrow> nat) \<Rightarrow> ShardSet \<Rightarrow> TensorInfo \<Rightarrow> load_error + bytes" where
  "read_tensor fs short S t =
     (case fs (sh_paths S ! ti_shard t) of
        None \<Rightarrow> Inl (Throw (''cannot open shard '' @ sh_paths S ! ti_shard t))
      | Some content \<Rightarrow>
          (case read_loop short content ((sh_data_starts S ! ti_shard t + ti_offset t) mod 2 ^ 64) (ti_bytes t) [] of
             None \<Rightarrow> Inl (Throw (''pread failed for '' @ ti_name t))
           | Some d \<Rightarrow> Inr d))"

text \<open>The bytes of a tensor in its file.\<close>

definition tensor_bytes :: "(bytes \<Rightarrow> bytes option) \<Rightarrow> ShardSet \<Rightarrow> TensorInfo \<Rightarrow> bytes option" where
  "tensor_bytes fs S t =
     (case fs (sh_paths S ! ti_shard t) of
        None \<Rightarrow> None
      | Some content \<Rightarrow>
          (let pos = (sh_data_starts S ! ti_shard t + ti_offset t) mod 2 ^ 64
           in if ti_bytes t = 0 \<or> pos + ti_bytes t \<le> length content then Some (take (ti_bytes t) (drop pos content)) else None))"

lemma read_loop_exact:
  assumes "dst = take (length dst) (drop pos content)" and "length dst \<le> nb"
  shows "read_loop short content pos nb dst =
    (if nb = length dst \<or> pos + nb \<le> length content then Some (take nb (drop pos content)) else None)"
  using assms
proof (induction short content pos nb dst rule: read_loop.induct)
  case (1 short content pos nb dst)
  let ?got = "pread short content (nb - length dst) (pos + length dst)"
  show ?case
  proof (cases "length dst < nb")
    case False
    then have "nb = length dst" using "1.prems"(2) by simp
    with "1.prems"(1) show ?thesis by (subst read_loop.simps) simp
  next
    case True
    have got: "?got = take (length ?got) (drop (pos + length dst) content)" "length ?got \<le> nb - length dst"
      "?got = [] \<longleftrightarrow> length content \<le> pos + length dst"
      using True by (auto simp: pread_def Let_def)
    show ?thesis
    proof (cases "?got = []")
      case e: True
      with got(3) True show ?thesis by (simp add: read_loop.simps [of short content pos nb dst] Let_def)
    next
      case False
      have "dst @ ?got = take (length (dst @ ?got)) (drop pos content)"
        using "1.prems"(1) got(1) by (simp add: take_add) (metis add.commute)
      with "1.IH" [OF True refl False] got(2) True False show ?thesis
        by (auto simp: read_loop.simps [of short content pos nb dst] Let_def)
    qed
  qed
qed

text \<open>However the reads are cut short, \<^verbatim>\<open>read\<close> gives the tensor's bytes, or throws when the file
  does not hold them.\<close>

lemma read_tensor_exact:
  "read_tensor fs short S t = Inr d \<longleftrightarrow> tensor_bytes fs S t = Some d"
proof (cases "fs (sh_paths S ! ti_shard t)")
  case (Some content)
  let ?pos = "(sh_data_starts S ! ti_shard t + ti_offset t) mod 2 ^ 64"
  have "read_loop short content ?pos (ti_bytes t) [] =
      (if ti_bytes t = 0 \<or> ?pos + ti_bytes t \<le> length content then Some (take (ti_bytes t) (drop ?pos content)) else None)"
    using read_loop_exact [of "[]" ?pos content "ti_bytes t" short] by simp
  with Some show ?thesis by (auto simp: read_tensor_def tensor_bytes_def Let_def)
qed (simp add: read_tensor_def tensor_bytes_def)

section \<open>The layout of an expert's slab\<close>

record ExpertLayout =
  lay_off :: "nat list"
  lay_piece :: "nat list"
  lay_bits :: "nat list"
  lay_stride :: nat

definition proj_name :: "nat \<Rightarrow> bytes" where
  "proj_name p = [''gate_proj'', ''up_proj'', ''down_proj''] ! p"

definition piece_suffix :: "nat \<Rightarrow> bytes" where
  "piece_suffix q = [''.trellis'', ''.suh'', ''.svh'', ''.mul1''] ! q"

definition expert_base :: "nat \<Rightarrow> nat \<Rightarrow> nat \<Rightarrow> bytes" where
  "expert_base l e p = ''model.language_model.layers.'' @ dec_string l @ ''.mlp.experts.'' @ dec_string e @
     ''.'' @ proj_name p"

fun find_pieces :: "ShardSet \<Rightarrow> bytes \<Rightarrow> nat list \<Rightarrow> load_error + TensorInfo list" where
  "find_pieces S b [] = Inr []"
| "find_pieces S b (q # qs) =
     (case find_tensor S (b @ piece_suffix q) of
        None \<Rightarrow> Inl (Throw (''missing expert tensor '' @ b @ piece_suffix q))
      | Some t \<Rightarrow> bind_sum (find_pieces S b qs) (\<lambda>ts. Inr (t # ts)))"

text \<open>The sizes and types the four pieces of a projection must have at a given bit width.\<close>

definition piece_bytes :: "nat \<Rightarrow> nat \<Rightarrow> nat \<Rightarrow> nat list" where
  "piece_bytes inp out bits = [inp * out * bits div 8, inp * 2, out * 2, 4]"

definition piece_types :: "Dtype list" where
  "piece_types = [I16, F16, F16, I32]"

fun check_pieces ::
  "nat \<Rightarrow> bytes \<Rightarrow> nat \<Rightarrow> TensorInfo list \<Rightarrow> nat list \<Rightarrow> nat list \<Rightarrow> nat list \<Rightarrow> load_error + nat list" where
  "check_pieces e b p ts bs piece [] = Inr piece"
| "check_pieces e b p ts bs piece (q # qs) =
     (if ti_bytes (ts ! q) \<noteq> bs ! q \<or> ti_dtype (ts ! q) \<noteq> piece_types ! q
      then Inl (Throw (''invalid expert tensor size/dtype: '' @ b @ piece_suffix q))
      else if e = 0 then check_pieces e b p ts bs (piece[4 * p + q := bs ! q]) qs
      else if piece ! (4 * p + q) \<noteq> bs ! q
      then Inl (Throw (''mixed expert bit widths within a layer: '' @ b))
      else check_pieces e b p ts bs piece qs)"

definition mul1_word :: nat where
  "mul1_word = 2212286765"

text \<open>One projection of one expert: the tensors, their shapes, sizes, types and the multiplier.\<close>

definition check_proj ::
  "ShardSet \<Rightarrow> (TensorInfo \<Rightarrow> load_error + bytes) \<Rightarrow> nat \<Rightarrow> nat \<Rightarrow> nat \<Rightarrow> nat \<Rightarrow> nat \<Rightarrow> nat list \<times> nat list \<Rightarrow>
   load_error + (nat list \<times> nat list)" where
  "check_proj S rd layer hidden intermediate e p acc =
     (let b = expert_base layer e p;
          inp = (if p = 2 then intermediate else hidden);
          out = (if p = 2 then hidden else intermediate)
      in bind_sum (find_pieces S b [0..<4]) (\<lambda>ts.
         let shape = ti_shape (ts ! 0) in
         if length shape \<noteq> 3 \<or> shape ! 0 \<noteq> int (inp div 16) \<or> shape ! 1 \<noteq> int (out div 16) \<or>
            shape ! 2 mod 16 \<noteq> 0 \<or> shape ! 2 < 32 \<or> shape ! 2 > 128
         then Inl (Throw (''unsupported expert trellis shape: '' @ b))
         else (let bits = nat (shape ! 2 div 16) in
           if bits = 7 then Inl (Throw (''7-bit expert kernels are not built: '' @ b))
           else if ti_shape (ts ! 1) \<noteq> [int inp] \<or> ti_shape (ts ! 2) \<noteq> [int out] \<or> ti_shape (ts ! 3) \<noteq> []
           then Inl (Throw (''invalid expert scales/multiplier shape: '' @ b))
           else bind_sum (check_pieces e b p ts (piece_bytes inp out bits) (fst acc) [0..<4]) (\<lambda>piece.
                bind_sum (rd (ts ! 3)) (\<lambda>m.
                  if le_value m \<noteq> mul1_word then Inl (Throw (''unsupported expert mul1 codebook: '' @ b))
                  else Inr (piece, (snd acc)[p := bits]))))))"

fun check_all ::
  "ShardSet \<Rightarrow> (TensorInfo \<Rightarrow> load_error + bytes) \<Rightarrow> nat \<Rightarrow> nat \<Rightarrow> nat \<Rightarrow> (nat \<times> nat) list \<Rightarrow> nat list \<times> nat list \<Rightarrow>
   load_error + (nat list \<times> nat list)" where
  "check_all S rd layer hidden intermediate [] acc = Inr acc"
| "check_all S rd layer hidden intermediate ((e, p) # eps) acc =
     bind_sum (check_proj S rd layer hidden intermediate e p acc) (check_all S rd layer hidden intermediate eps)"

text \<open>The offsets: the pieces one after the other, each projection padded to 64 bytes.\<close>

definition round64 :: "nat \<Rightarrow> nat" where
  "round64 s = (s + 63) div 64 * 64"

fun layout_loop :: "nat list \<Rightarrow> nat \<Rightarrow> nat \<Rightarrow> nat list \<times> nat" where
  "layout_loop [] q stride = ([], stride)"
| "layout_loop (b # bs) q stride =
     (let s = stride + b; s' = (if q mod 4 = 3 then round64 s else s);
          (offs, fin) = layout_loop bs (q + 1) s'
      in (stride # offs, fin))"

definition expert_layout ::
  "ShardSet \<Rightarrow> (TensorInfo \<Rightarrow> load_error + bytes) \<Rightarrow> nat \<Rightarrow> nat \<Rightarrow> nat \<Rightarrow> nat \<Rightarrow> load_error + ExpertLayout" where
  "expert_layout S rd layer experts hidden intermediate =
     bind_sum (check_all S rd layer hidden intermediate
        (concat (map (\<lambda>e. map (Pair e) [0..<3]) [0..<experts])) (replicate 12 0, replicate 3 0))
       (\<lambda>(piece, bits). let (off, stride) = layout_loop piece 0 0
          in Inr \<lparr>lay_off = off, lay_piece = piece, lay_bits = bits, lay_stride = stride\<rparr>)"

lemma round64: "s \<le> round64 s" "64 dvd round64 s" "round64 s < s + 64"
  by (simp_all add: round64_def)

text \<open>The pieces of a slab follow each other without overlap and end before the stride; every
  projection starts at a multiple of 64.\<close>

abbreviation next_stride :: "nat \<Rightarrow> nat \<Rightarrow> nat \<Rightarrow> nat" where
  "next_stride q s b \<equiv> (if q mod 4 = 3 then round64 (s + b) else s + b)"

lemma layout_loop_Cons:
  "layout_loop (b # bs) q s = (let r = layout_loop bs (q + 1) (next_stride q s b) in (s # fst r, snd r))"
  by (simp add: Let_def split: prod.split)

lemma next_stride_ge: "s + b \<le> next_stride q s b"
  using round64(1) by simp

lemma length_layout [simp]: "length (fst (layout_loop bs q s)) = length bs"
  by (induction bs arbitrary: q s) (simp_all add: layout_loop_Cons Let_def del: layout_loop.simps(2))

lemma layout_grows: "s \<le> snd (layout_loop bs q s)"
proof (induction bs arbitrary: q s)
  case (Cons b bs)
  have "s \<le> next_stride q s b" using next_stride_ge [of s b q] by linarith
  also have "\<dots> \<le> snd (layout_loop bs (q + 1) (next_stride q s b))" by (rule Cons.IH)
  finally show ?case by (simp add: layout_loop_Cons Let_def del: layout_loop.simps(2))
qed simp

lemma layout_bounds:
  "i < length bs \<Longrightarrow> s \<le> fst (layout_loop bs q s) ! i \<and>
     fst (layout_loop bs q s) ! i + bs ! i \<le> snd (layout_loop bs q s)"
proof (induction bs arbitrary: q s i)
  case (Cons b bs)
  let ?n = "next_stride q s b"
  have ge: "s + b \<le> ?n" by (rule next_stride_ge)
  show ?case
  proof (cases i)
    case 0
    with layout_grows [of ?n bs "q + 1"] ge show ?thesis
      by (simp add: layout_loop_Cons Let_def del: layout_loop.simps(2))
  next
    case (Suc k)
    with Cons.prems Cons.IH [of k ?n "q + 1"] ge show ?thesis
      by (simp add: layout_loop_Cons Let_def del: layout_loop.simps(2))
  qed
qed simp

lemma layout_ordered:
  "i < j \<Longrightarrow> j < length bs \<Longrightarrow>
     fst (layout_loop bs q s) ! i + bs ! i \<le> fst (layout_loop bs q s) ! j"
proof (induction bs arbitrary: q s i j)
  case (Cons b bs)
  let ?n = "next_stride q s b"
  have ge: "s + b \<le> ?n" by (rule next_stride_ge)
  obtain k where j: "j = Suc k" using Cons.prems(1) by (cases j) simp_all
  show ?case
  proof (cases i)
    case 0
    with j Cons.prems layout_bounds [of k bs ?n "q + 1"] ge show ?thesis
      by (simp add: layout_loop_Cons Let_def del: layout_loop.simps(2))
  next
    case (Suc m)
    with j Cons.prems Cons.IH [of m k "q + 1" ?n] show ?thesis
      by (simp add: layout_loop_Cons Let_def del: layout_loop.simps(2))
  qed
qed simp

lemma next_stride_aligned: "(q + 1) mod 4 = 0 \<Longrightarrow> 64 dvd next_stride q s b"
proof -
  assume "(q + 1) mod 4 = 0"
  then have "q mod 4 = 3" by presburger
  then show ?thesis using round64(2) by simp
qed

lemma layout_aligned:
  assumes "q mod 4 = 0 \<longrightarrow> 64 dvd s"
  shows "i < length bs \<Longrightarrow> (q + i) mod 4 = 0 \<Longrightarrow> 64 dvd fst (layout_loop bs q s) ! i"
    and "(q + length bs) mod 4 = 0 \<Longrightarrow> 64 dvd snd (layout_loop bs q s)"
  using assms
proof (induction bs arbitrary: q s i)
  case (Cons b bs)
  {
    case 1
    then show ?case
      using Cons.IH(1) [of "i - 1" "q + 1" "next_stride q s b"] next_stride_aligned [of q s b]
      by (cases i) (simp_all add: layout_loop_Cons Let_def del: layout_loop.simps(2))
  next
    case 2
    then show ?case
      using Cons.IH(2) [of "q + 1" "next_stride q s b"] next_stride_aligned [of q s b]
      by (simp add: layout_loop_Cons Let_def del: layout_loop.simps(2))
  }
qed simp_all

text \<open>What the checks establish: every piece of every expert is there, with the size and the type
  the layout records.\<close>

definition proj_ok :: "ShardSet \<Rightarrow> nat \<Rightarrow> nat list \<Rightarrow> nat \<Rightarrow> nat \<Rightarrow> bool" where
  "proj_ok S layer piece e p \<longleftrightarrow>
     (\<forall>q < 4. \<exists>t. find_tensor S (expert_base layer e p @ piece_suffix q) = Some t \<and>
        ti_bytes t = piece ! (4 * p + q) \<and> ti_dtype t = piece_types ! q)"

lemma find_pieces_ok:
  "find_pieces S b qs = Inr ts \<Longrightarrow> length ts = length qs \<and>
     (\<forall>i < length qs. find_tensor S (b @ piece_suffix (qs ! i)) = Some (ts ! i))"
proof (induction qs arbitrary: ts)
  case (Cons q qs)
  then obtain t ts' where t: "find_tensor S (b @ piece_suffix q) = Some t" "find_pieces S b qs = Inr ts'" "ts = t # ts'"
    by (auto simp: bind_sum_Inr split: option.splits)
  with Cons.IH [OF t(2)] show ?case by (auto simp: nth_Cons split: nat.split)
qed simp

lemma check_pieces_ok:
  assumes "check_pieces e b p ts bs piece qs = Inr piece'"
  shows "length piece' = length piece"
    and "q \<in> set qs \<Longrightarrow> ti_bytes (ts ! q) = bs ! q \<and> ti_dtype (ts ! q) = piece_types ! q"
    and "k \<notin> (\<lambda>q. 4 * p + q) ` set qs \<Longrightarrow> piece' ! k = piece ! k"
    and "e \<noteq> 0 \<Longrightarrow> piece' = piece"
    and "q \<in> set qs \<Longrightarrow> 4 * p + q < length piece \<Longrightarrow> distinct qs \<Longrightarrow> piece' ! (4 * p + q) = bs ! q"
proof -
  have "length piece' = length piece \<and>
    (\<forall>q \<in> set qs. ti_bytes (ts ! q) = bs ! q \<and> ti_dtype (ts ! q) = piece_types ! q) \<and>
    (\<forall>k. k \<notin> (\<lambda>q. 4 * p + q) ` set qs \<longrightarrow> piece' ! k = piece ! k) \<and> (e \<noteq> 0 \<longrightarrow> piece' = piece) \<and>
    (distinct qs \<longrightarrow> (\<forall>q \<in> set qs. 4 * p + q < length piece \<longrightarrow> piece' ! (4 * p + q) = bs ! q))"
    using assms
  proof (induction qs arbitrary: piece)
    case (Cons a qs)
    let ?piece = "if e = 0 then piece[4 * p + a := bs ! a] else piece"
    have a: "ti_bytes (ts ! a) = bs ! a" "ti_dtype (ts ! a) = piece_types ! a"
      "check_pieces e b p ts bs ?piece qs = Inr piece'" "e \<noteq> 0 \<Longrightarrow> piece ! (4 * p + a) = bs ! a"
      using Cons.prems by (auto split: if_splits)
    have IH: "length piece' = length ?piece"
      "\<forall>q \<in> set qs. ti_bytes (ts ! q) = bs ! q \<and> ti_dtype (ts ! q) = piece_types ! q"
      "\<forall>k. k \<notin> (\<lambda>q. 4 * p + q) ` set qs \<longrightarrow> piece' ! k = ?piece ! k" "e \<noteq> 0 \<longrightarrow> piece' = ?piece"
      "distinct qs \<longrightarrow> (\<forall>q \<in> set qs. 4 * p + q < length ?piece \<longrightarrow> piece' ! (4 * p + q) = bs ! q)"
      using Cons.IH [OF a(3)] by simp_all
    have "piece' ! (4 * p + q) = bs ! q" if "distinct (a # qs)" "q \<in> set (a # qs)" "4 * p + q < length piece" for q
    proof (cases "q = a")
      case True
      then have "4 * p + q \<notin> (\<lambda>q. 4 * p + q) ` set qs" using that(1) by auto
      with IH(3) True that(3) a(4) show ?thesis by (cases "e = 0") simp_all
    next
      case False
      with IH(5) that show ?thesis by simp
    qed
    with IH a show ?case by auto
  qed simp
  then show "length piece' = length piece"
    "q \<in> set qs \<Longrightarrow> ti_bytes (ts ! q) = bs ! q \<and> ti_dtype (ts ! q) = piece_types ! q"
    "k \<notin> (\<lambda>q. 4 * p + q) ` set qs \<Longrightarrow> piece' ! k = piece ! k"
    "e \<noteq> 0 \<Longrightarrow> piece' = piece"
    "q \<in> set qs \<Longrightarrow> 4 * p + q < length piece \<Longrightarrow> distinct qs \<Longrightarrow> piece' ! (4 * p + q) = bs ! q"
    by blast+
qed

lemma check_proj_ok:
  assumes "check_proj S rd layer hidden imed e p (piece, bits) = Inr (piece', bits')"
    and "length piece = 12" and "p < 3"
  shows "length piece' = 12" and "proj_ok S layer piece' e p"
    and "k < 12 \<Longrightarrow> k div 4 \<noteq> p \<Longrightarrow> piece' ! k = piece ! k" and "e \<noteq> 0 \<Longrightarrow> piece' = piece"
proof -
  obtain ts bs where fp: "find_pieces S (expert_base layer e p) [0..<4] = Inr ts"
    and cp: "check_pieces e (expert_base layer e p) p ts bs piece [0..<4] = Inr piece'"
    using assms(1) unfolding check_proj_def Let_def
    by (auto simp: bind_sum_Inr split: if_splits)
  note c = check_pieces_ok [OF cp]
  show "length piece' = 12" using c(1) assms(2) by simp
  show "e \<noteq> 0 \<Longrightarrow> piece' = piece" by (rule c(4))
  show "piece' ! k = piece ! k" if "k < 12" "k div 4 \<noteq> p"
    by (rule c(3)) (use that in auto)
  show "proj_ok S layer piece' e p" unfolding proj_ok_def
  proof (intro allI impI)
    fix q :: nat assume q: "q < 4"
    then have "q \<in> set [0..<4]" "[0..<4] ! q = q" by simp_all
    moreover have "4 * p + q < length piece" using q assms(2,3) by simp
    ultimately show "\<exists>t. find_tensor S (expert_base layer e p @ piece_suffix q) = Some t \<and>
        ti_bytes t = piece' ! (4 * p + q) \<and> ti_dtype t = piece_types ! q"
      using find_pieces_ok [OF fp] c(2) [of q] c(5) [of q] q by (intro exI [of _ "ts ! q"]) simp
  qed
qed

lemma check_all_later:
  assumes "check_all S rd layer hidden imed eps (piece, bits) = Inr (piece', bits')"
    and "length piece = 12" and "\<forall>(e, p) \<in> set eps. e \<noteq> 0 \<and> p < 3"
  shows "piece' = piece \<and> (\<forall>(e, p) \<in> set eps. proj_ok S layer piece e p)"
  using assms
proof (induction eps arbitrary: bits)
  case (Cons ep eps)
  obtain e p where ep: "ep = (e, p)" by (cases ep)
  with Cons.prems(1) obtain piece1 bits1 where
    c: "check_proj S rd layer hidden imed e p (piece, bits) = Inr (piece1, bits1)"
    "check_all S rd layer hidden imed eps (piece1, bits1) = Inr (piece', bits')"
    by (auto simp: bind_sum_Inr)
  have "p < 3" "e \<noteq> 0" using Cons.prems(3) ep by auto
  note k = check_proj_ok [OF c(1) Cons.prems(2) this(1)]
  have "piece1 = piece" using k(4) \<open>e \<noteq> 0\<close> by simp
  with k(2) c(2) Cons.IH [of bits1] Cons.prems(2,3) ep show ?case by auto
qed simp

lemma check_all_append:
  "check_all S rd layer hidden imed (as @ bs) acc =
     bind_sum (check_all S rd layer hidden imed as acc) (check_all S rd layer hidden imed bs)"
proof (induction as arbitrary: acc)
  case (Cons ep as)
  obtain e p where "ep = (e, p)" by (cases ep)
  with Cons show ?case by (cases "check_proj S rd layer hidden imed e p acc") simp_all
qed simp

lemma expert_layout_ok:
  assumes ok: "expert_layout S rd layer experts hidden imed = Inr lay"
  shows "length (lay_piece lay) = 12" and "(lay_off lay, lay_stride lay) = layout_loop (lay_piece lay) 0 0"
    and "e < experts \<Longrightarrow> p < 3 \<Longrightarrow> proj_ok S layer (lay_piece lay) e p"
proof -
  obtain piece bits where c: "check_all S rd layer hidden imed
      (concat (map (\<lambda>e. map (Pair e) [0..<3]) [0..<experts])) (replicate 12 0, replicate 3 0) = Inr (piece, bits)"
    and lay: "lay_piece lay = piece" "(lay_off lay, lay_stride lay) = layout_loop piece 0 0"
    using ok by (auto simp: expert_layout_def bind_sum_Inr case_prod_unfold Let_def)
  show "(lay_off lay, lay_stride lay) = layout_loop (lay_piece lay) 0 0" using lay by simp
  have "length piece = 12 \<and> (\<forall>e < experts. \<forall>p < 3. proj_ok S layer piece e p)"
  proof (cases experts)
    case 0
    with c show ?thesis by auto
  next
    case (Suc n)
    have split: "[0..<experts] = 0 # [1..<experts]" using Suc by (simp add: upt_rec)
    have three: "map (Pair 0) [0..<3] = [(0::nat, 0::nat), (0, 1), (0, 2)]" by (simp add: upt_rec numeral_3_eq_3)
    let ?rest = "concat (map (\<lambda>e. map (Pair e) [0..<3]) [1..<experts])"
    obtain p1 b1 p2 b2 p3 b3 where s:
      "check_proj S rd layer hidden imed 0 0 (replicate 12 0, replicate 3 0) = Inr (p1, b1)"
      "check_proj S rd layer hidden imed 0 1 (p1, b1) = Inr (p2, b2)"
      "check_proj S rd layer hidden imed 0 2 (p2, b2) = Inr (p3, b3)"
      "check_all S rd layer hidden imed ?rest (p3, b3) = Inr (piece, bits)"
      using c unfolding split list.map concat.simps three append_Cons append_Nil
      by (auto simp: bind_sum_Inr)
    note k1 = check_proj_ok [OF s(1) length_replicate, simplified]
    note k2 = check_proj_ok [OF s(2) k1(1), simplified]
    note k3 = check_proj_ok [OF s(3) k2(1), simplified]
    have "\<forall>(e, p) \<in> set ?rest. e \<noteq> 0 \<and> p < 3" by auto
    note r = check_all_later [OF s(4) k3(1) this]
    then have pc: "piece = p3" by simp
    have first: "proj_ok S layer p3 0 p" if p: "p < 3" for p
    proof -
      consider "p = 0" | "p = 1" | "p = 2" using p by linarith
      then show ?thesis
      proof cases
        case 1
        have "p3 ! (4 * 0 + q) = p1 ! (4 * 0 + q)" if "q < 4" for q
          using that k2(3) [of q] k3(3) [of q] by simp
        with k1(2) 1 show ?thesis by (simp add: proj_ok_def)
      next
        case 2
        have "p3 ! (4 * 1 + q) = p2 ! (4 * 1 + q)" if "q < 4" for q
          using that k3(3) [of "4 + q"] by simp
        with k2(2) 2 show ?thesis by (simp add: proj_ok_def)
      next
        case 3
        with k3(2) show ?thesis by (simp add: numeral_2_eq_2)
      qed
    qed
    have later: "proj_ok S layer p3 e p" if "e < experts" "e \<noteq> 0" "p < 3" for e p
    proof -
      have "e \<in> set [1..<experts]" "(e, p) \<in> set (map (Pair e) [0..<3])" using that by simp_all
      moreover from this have "map (Pair e) [0..<3] \<in> set (map (\<lambda>e. map (Pair e) [0..<3]) [1..<experts])"
        unfolding set_map by (intro imageI)
      ultimately have "(e, p) \<in> set ?rest" unfolding set_concat by (intro UN_I)
      with r pc show ?thesis by blast
    qed
    have "proj_ok S layer p3 e p" if "e < experts" "p < 3" for e p
      using first [of p] later [of e p] that by (cases "e = 0") simp_all
    with pc k3(1) show ?thesis by simp
  qed
  then show "length (lay_piece lay) = 12" "e < experts \<Longrightarrow> p < 3 \<Longrightarrow> proj_ok S layer (lay_piece lay) e p"
    using lay(1) by simp_all
qed

end
