(* ===== verification/Load_Jobs.thy ===== *)
theory Load_Jobs
  imports Checkpoint Interleaving
begin

text \<open>
  The jobs of the model loader and the threads that run them (\<^verbatim>\<open>Loader::run_jobs\<close> of
  \<^verbatim>\<open>src/core/model.cpp\<close>).  A destination is a region and an offset: the RAM arena, the n-th
  allocation on a device, the n-th word of the weight structs on the host, or the null pointer.
  A job's data are the tensor's bytes, converted as its kind says; a thread writes them in pieces
  of any size, which covers the short reads of \<^verbatim>\<open>pread\<close> and the chunks of the staged uploads.
  Writing outside a region is \<open>Crash\<close>; a copy to the null pointer fails and the code ignores it.
  Decoding a float and rounding to half precision are the hardware's (\<^verbatim>\<open>FloatOps\<close>); the sums of
  the router bias are exact.
\<close>

datatype Region = Arena | Device nat nat | HostWord nat | NullPtr

datatype JobKind = JobRaw | JobBf16F16 | JobF32F16 | JobRouterBias | JobMul1

record Job =
  jb_ti :: TensorInfo
  jb_region :: Region
  jb_at :: nat
  jb_device :: int
  jb_kind :: JobKind
  jb_bytes :: nat
  jb_elems :: nat

record FloatOps =
  fo_float :: "bytes \<Rightarrow> rat"
  fo_half :: "rat \<Rightarrow> bytes"

type_synonym Mem = "Region \<Rightarrow> bytes"

section \<open>The data of a job\<close>

abbreviation segment :: "nat \<Rightarrow> nat \<Rightarrow> 'a list \<Rightarrow> 'a list" where
  "segment pos n xs \<equiv> take n (drop pos xs)"

definition patch :: "nat \<Rightarrow> bytes \<Rightarrow> bytes \<Rightarrow> bytes" where
  "patch pos d buf = take pos buf @ d @ drop (pos + length d) buf"

text \<open>The two conversions run in place: a half is stored while later elements are still to be
  read.\<close>

fun cvt_bf16_loop :: "FloatOps \<Rightarrow> nat list \<Rightarrow> bytes \<Rightarrow> bytes" where
  "cvt_bf16_loop fo [] buf = buf"
| "cvt_bf16_loop fo (i # is) buf =
     cvt_bf16_loop fo is
       (patch (2 * i) (fo_half fo (fo_float fo ([CHR 0x00, CHR 0x00] @ segment (2 * i) 2 buf))) buf)"

definition cvt_bf16_f16 :: "FloatOps \<Rightarrow> bytes \<Rightarrow> nat \<Rightarrow> bytes" where
  "cvt_bf16_f16 fo buf n = cvt_bf16_loop fo [0..<n] buf"

fun cvt_f32_loop :: "FloatOps \<Rightarrow> nat list \<Rightarrow> bytes \<Rightarrow> bytes" where
  "cvt_f32_loop fo [] buf = buf"
| "cvt_f32_loop fo (i # is) buf =
     cvt_f32_loop fo is (patch (2 * i) (fo_half fo (fo_float fo (segment (4 * i) 4 buf))) buf)"

definition cvt_f32_f16 :: "FloatOps \<Rightarrow> bytes \<Rightarrow> nat \<Rightarrow> bytes" where
  "cvt_f32_f16 fo buf n = cvt_f32_loop fo [0..<n] buf"

definition router_bias :: "FloatOps \<Rightarrow> bytes \<Rightarrow> nat \<Rightarrow> bytes" where
  "router_bias fo buf n =
     (let f = (\<lambda>e. fo_float fo (segment (4 * e) 4 buf));
          mean = sum_list (map f [0..<n]) / rat_of_nat n
      in concat (map (\<lambda>e. fo_half fo (f e - mean)) [0..<n]))"

definition job_data :: "FloatOps \<Rightarrow> (TensorInfo \<Rightarrow> load_error + bytes) \<Rightarrow> Job \<Rightarrow> load_error + bytes" where
  "job_data fo rd jb =
     bind_sum (rd (jb_ti jb)) (\<lambda>d. Inr (case jb_kind jb of
        JobRaw \<Rightarrow> d
      | JobMul1 \<Rightarrow> d
      | JobBf16F16 \<Rightarrow> take (jb_elems jb * 2) (cvt_bf16_f16 fo d (jb_elems jb))
      | JobF32F16 \<Rightarrow> take (jb_elems jb * 2) (cvt_f32_f16 fo d (jb_elems jb))
      | JobRouterBias \<Rightarrow> take (jb_elems jb * 2) (router_bias fo d (jb_elems jb))))"

section \<open>The threads\<close>

datatype worker = Drawing | Writing nat nat | Stopped

record Run =
  rn_next :: nat
  rn_mem :: Mem
  rn_workers :: "worker list"
  rn_dead :: "load_error option"

definition store_piece :: "Region \<Rightarrow> nat \<Rightarrow> bytes \<Rightarrow> Mem \<Rightarrow> load_error + Mem" where
  "store_piece r pos d m =
     (if r = NullPtr then Inr m
      else if length (m r) < pos + length d then Inl Crash
      else Inr (m(r := patch pos d (m r))))"

definition next_piece :: "(nat \<Rightarrow> nat \<Rightarrow> nat) \<Rightarrow> nat \<Rightarrow> nat \<Rightarrow> bytes \<Rightarrow> bytes" where
  "next_piece grain i k d = take (max 1 (grain i k)) (drop k d)"

text \<open>One step of thread \<^term>\<open>w\<close>: draw the next job, write a piece of the job it holds, or be done
  with it.  An exception in a thread ends the process.\<close>

definition job_step ::
  "(Job \<Rightarrow> load_error + bytes) \<Rightarrow> Job list \<Rightarrow> (nat \<Rightarrow> nat \<Rightarrow> nat) \<Rightarrow> nat \<Rightarrow> Run \<Rightarrow> Run" where
  "job_step data jobs grain w R =
     (if rn_dead R \<noteq> None \<or> length (rn_workers R) \<le> w then R
      else (case rn_workers R ! w of
        Stopped \<Rightarrow> R
      | Drawing \<Rightarrow>
          R\<lparr>rn_next := rn_next R + 1,
            rn_workers := (rn_workers R)[w := (if rn_next R < length jobs then Writing (rn_next R) 0 else Stopped)]\<rparr>
      | Writing i k \<Rightarrow>
          (case data (jobs ! i) of
             Inl e \<Rightarrow> R\<lparr>rn_dead := Some e\<rparr>
           | Inr d \<Rightarrow>
               if length d \<le> k then R\<lparr>rn_workers := (rn_workers R)[w := Drawing]\<rparr>
               else (let piece = next_piece grain i k d
                     in case store_piece (jb_region (jobs ! i)) (jb_at (jobs ! i) + k) piece (rn_mem R) of
                          Inl e \<Rightarrow> R\<lparr>rn_dead := Some e\<rparr>
                        | Inr m \<Rightarrow> R\<lparr>rn_mem := m, rn_workers := (rn_workers R)[w := Writing i (k + length piece)]\<rparr>))))"

definition run_start :: "nat \<Rightarrow> Mem \<Rightarrow> Run" where
  "run_start n m = \<lparr>rn_next = 0, rn_mem = m, rn_workers = replicate n Drawing, rn_dead = None\<rparr>"

definition run_jobs ::
  "(Job \<Rightarrow> load_error + bytes) \<Rightarrow> Job list \<Rightarrow> (nat \<Rightarrow> nat \<Rightarrow> nat) \<Rightarrow> nat list \<Rightarrow> Mem \<Rightarrow> Run" where
  "run_jobs data jobs grain sched m = run_schedule (job_step data jobs grain) sched (run_start 16 m)"

section \<open>The conversions in place\<close>

lemma length_patch [simp]: "pos + length d \<le> length buf \<Longrightarrow> length (patch pos d buf) = length buf"
  by (simp add: patch_def)

lemma segment_patch_before: "q + n \<le> pos \<Longrightarrow> pos \<le> length buf \<Longrightarrow> segment q n (patch pos d buf) = segment q n buf"
  by (simp add: patch_def drop_take)

lemma segment_patch_after:
  "pos + length d \<le> q \<Longrightarrow> pos \<le> length buf \<Longrightarrow> segment q n (patch pos d buf) = segment q n buf"
proof -
  assume a: "pos + length d \<le> q" "pos \<le> length buf"
  then have "drop q (patch pos d buf) = drop q buf"
    by (simp add: patch_def drop_append)
  then show ?thesis by simp
qed

lemma segment_patch_same: "pos \<le> length buf \<Longrightarrow> segment pos (length d) (patch pos d buf) = d"
  by (simp add: patch_def)

lemma take_grow: "take (n + m) xs = take n xs @ segment n m xs"
  by (simp add: take_add)

text \<open>What a loop over ascending elements leaves, when element \<^term>\<open>i\<close> is read at or after the place
  where it is stored.\<close>

lemma convert_in_place:
  assumes half: "\<And>x. length (f x) = 2" and w: "2 \<le> w" and n: "w * n \<le> length buf" "i \<le> n"
    and orig: "w * n \<le> length orig"
    and later: "\<forall>k. i \<le> k \<and> k < n \<longrightarrow> segment (w * k) w buf = segment (w * k) w orig"
    and begun: "take (2 * i) buf = concat (map (\<lambda>k. f (segment (w * k) w orig)) [0..<i])"
    and step: "\<And>j js b. g (j # js) b = g js (patch (2 * j) (f (segment (w * j) w b)) b)" and nil: "\<And>b. g [] b = b"
  shows "take (2 * n) (g [i..<n] buf) = concat (map (\<lambda>k. f (segment (w * k) w orig)) [0..<n])"
  using n later begun
proof (induction "n - i" arbitrary: i buf)
  case 0
  then show ?case by (simp add: nil)
next
  case (Suc x)
  then have i: "i < n" by simp
  let ?h = "f (segment (w * i) w buf)"
  let ?buf = "patch (2 * i) ?h buf"
  have h: "length ?h = 2" by (rule half)
  have "w * (i + 1) \<le> w * n" using i by (intro mult_le_mono) simp_all
  moreover have "2 * (i + 1) \<le> w * (i + 1)" using w by (rule mult_le_mono) simp
  ultimately have room: "2 * i + 2 \<le> length buf" using Suc.prems(1) by simp
  have len: "length ?buf = length buf" using room h by simp
  have rd: "segment (w * i) w buf = segment (w * i) w orig" using Suc.prems(3) i by simp
  have later: "segment (w * k) w ?buf = segment (w * k) w buf" if "i + 1 \<le> k" for k
  proof (rule segment_patch_after)
    have "2 * i + 2 \<le> 2 * k" using that by simp
    also have "\<dots> \<le> w * k" using w by simp
    finally show "2 * i + length ?h \<le> w * k" using h by simp
    show "2 * i \<le> length buf" using room by simp
  qed
  have "take (2 * i + 2) ?buf = take (2 * i) buf @ ?h"
    using h room by (simp add: patch_def)
  then have dn: "take (2 * (i + 1)) ?buf = concat (map (\<lambda>k. f (segment (w * k) w orig)) [0..<i + 1])"
    using Suc.prems(4) rd by simp
  have "take (2 * n) (g [i + 1..<n] ?buf) = concat (map (\<lambda>k. f (segment (w * k) w orig)) [0..<n])"
  proof (rule Suc.hyps(1))
    show "x = n - (i + 1)" using Suc.hyps(2) by simp
    show "w * n \<le> length ?buf" using Suc.prems(1) len by simp
    show "i + 1 \<le> n" using i by simp
    show "\<forall>k. i + 1 \<le> k \<and> k < n \<longrightarrow> segment (w * k) w ?buf = segment (w * k) w orig"
    proof (intro allI impI)
      fix k assume k: "i + 1 \<le> k \<and> k < n"
      then have "segment (w * k) w ?buf = segment (w * k) w buf" by (intro later) simp
      also have "\<dots> = segment (w * k) w orig" using k Suc.prems(3) by simp
      finally show "segment (w * k) w ?buf = segment (w * k) w orig" .
    qed
    show "take (2 * (i + 1)) ?buf = concat (map (\<lambda>k. f (segment (w * k) w orig)) [0..<i + 1])" by (rule dn)
  qed
  then show ?case using i by (simp add: upt_conv_Cons step)
qed

definition halves_ok :: "FloatOps \<Rightarrow> bool" where
  "halves_ok fo \<longleftrightarrow> (\<forall>x. length (fo_half fo x) = 2)"

lemma cvt_f32_exact:
  assumes "\<And>x. length (fo_half fo x) = 2" and "4 * n \<le> length d"
  shows "take (2 * n) (cvt_f32_f16 fo d n) =
    concat (map (\<lambda>k. fo_half fo (fo_float fo (segment (4 * k) 4 d))) [0..<n])"
  unfolding cvt_f32_f16_def
  by (rule convert_in_place [where f = "\<lambda>x. fo_half fo (fo_float fo x)" and g = "cvt_f32_loop fo" and w = 4])
    (use assms in simp_all)

lemma cvt_bf16_exact:
  assumes "\<And>x. length (fo_half fo x) = 2" and "2 * n \<le> length d"
  shows "take (2 * n) (cvt_bf16_f16 fo d n) =
    concat (map (\<lambda>k. fo_half fo (fo_float fo ([CHR 0x00, CHR 0x00] @ segment (2 * k) 2 d))) [0..<n])"
  unfolding cvt_bf16_f16_def
  by (rule convert_in_place [where f = "\<lambda>x. fo_half fo (fo_float fo ([CHR 0x00, CHR 0x00] @ x))" and
        g = "cvt_bf16_loop fo" and w = 2])
    (use assms in simp_all)

section \<open>Any schedule of the threads\<close>

text \<open>The jobs can be run when their data can be had, fit where they go, and no two share a byte.\<close>

definition dat :: "(Job \<Rightarrow> load_error + bytes) \<Rightarrow> Job \<Rightarrow> bytes" where
  "dat data jb = (case data jb of Inr d \<Rightarrow> d | Inl _ \<Rightarrow> [])"

definition apart :: "(Job \<Rightarrow> load_error + bytes) \<Rightarrow> Job \<Rightarrow> Job \<Rightarrow> bool" where
  "apart data a b \<longleftrightarrow> jb_region a = NullPtr \<or> jb_region a \<noteq> jb_region b \<or>
     jb_at a + length (dat data a) \<le> jb_at b \<or> jb_at b + length (dat data b) \<le> jb_at a"

definition fits :: "(Job \<Rightarrow> load_error + bytes) \<Rightarrow> Mem \<Rightarrow> Job \<Rightarrow> bool" where
  "fits data m jb \<longleftrightarrow> (\<exists>d. data jb = Inr d) \<and>
     (jb_region jb \<noteq> NullPtr \<longrightarrow> jb_at jb + length (dat data jb) \<le> length (m (jb_region jb)))"

definition jobs_ok :: "(Job \<Rightarrow> load_error + bytes) \<Rightarrow> Job list \<Rightarrow> Mem \<Rightarrow> bool" where
  "jobs_ok data jobs m \<longleftrightarrow> (\<forall>i < length jobs. fits data m (jobs ! i)) \<and>
     (\<forall>i < length jobs. \<forall>j < length jobs. i \<noteq> j \<longrightarrow> apart data (jobs ! i) (jobs ! j))"

text \<open>The first \<^term>\<open>k\<close> bytes of a job are at their place.\<close>

definition written :: "(Job \<Rightarrow> load_error + bytes) \<Rightarrow> Mem \<Rightarrow> Job \<Rightarrow> nat \<Rightarrow> bool" where
  "written data m jb k \<longleftrightarrow> jb_region jb = NullPtr \<or>
     segment (jb_at jb) k (m (jb_region jb)) = take k (dat data jb)"

definition held :: "worker list \<Rightarrow> nat \<Rightarrow> bool" where
  "held ws i \<longleftrightarrow> (\<exists>w < length ws. \<exists>k. ws ! w = Writing i k)"

definition placed_ok ::
  "(Job \<Rightarrow> load_error + bytes) \<Rightarrow> Job list \<Rightarrow> Mem \<Rightarrow> nat \<Rightarrow> Mem \<Rightarrow> worker list \<Rightarrow> bool" where
  "placed_ok data jobs m0 nx m W \<longleftrightarrow> jobs_ok data jobs m0 \<and>
     (\<forall>r. length (m r) = length (m0 r)) \<and>
     (\<forall>w < length W. \<forall>i k. W ! w = Writing i k \<longrightarrow>
        i < length jobs \<and> i < nx \<and> k \<le> length (dat data (jobs ! i)) \<and> written data m (jobs ! i) k) \<and>
     (\<forall>w < length W. \<forall>w' < length W. \<forall>i k k'. W ! w = Writing i k \<and> W ! w' = Writing i k' \<longrightarrow> w = w') \<and>
     (\<forall>i < length jobs. i < nx \<and> \<not> held W i \<longrightarrow> written data m (jobs ! i) (length (dat data (jobs ! i)))) \<and>
     (\<forall>w < length W. W ! w = Stopped \<longrightarrow> length jobs \<le> nx)"

definition run_ok :: "(Job \<Rightarrow> load_error + bytes) \<Rightarrow> Job list \<Rightarrow> Mem \<Rightarrow> Run \<Rightarrow> bool" where
  "run_ok data jobs m0 R \<longleftrightarrow> rn_dead R = None \<and>
     placed_ok data jobs m0 (rn_next R) (rn_mem R) (rn_workers R)"

lemma run_okD:
  assumes "run_ok data jobs m0 R"
  shows "jobs_ok data jobs m0" "rn_dead R = None" "\<And>r. length (rn_mem R r) = length (m0 r)"
    and "\<And>w i k. w < length (rn_workers R) \<Longrightarrow> rn_workers R ! w = Writing i k \<Longrightarrow>
        i < length jobs \<and> i < rn_next R \<and> k \<le> length (dat data (jobs ! i)) \<and> written data (rn_mem R) (jobs ! i) k"
    and "\<And>w w' i k k'. w < length (rn_workers R) \<Longrightarrow> w' < length (rn_workers R) \<Longrightarrow>
        rn_workers R ! w = Writing i k \<Longrightarrow> rn_workers R ! w' = Writing i k' \<Longrightarrow> w = w'"
    and "\<And>i. i < length jobs \<Longrightarrow> i < rn_next R \<Longrightarrow> \<not> held (rn_workers R) i \<Longrightarrow>
        written data (rn_mem R) (jobs ! i) (length (dat data (jobs ! i)))"
    and "\<And>w. w < length (rn_workers R) \<Longrightarrow> rn_workers R ! w = Stopped \<Longrightarrow> length jobs \<le> rn_next R"
  using assms unfolding run_ok_def placed_ok_def by blast+

text \<open>A piece written for one job leaves what the others have written.\<close>

lemma written_other:
  assumes "apart data a b" and "written data m b k" and "k \<le> length (dat data b)"
    and "jb_region a \<noteq> NullPtr" and "off + length d \<le> length (dat data a)"
    and "jb_at a + off + length d \<le> length (m (jb_region a))"
  shows "written data (m(jb_region a := patch (jb_at a + off) d (m (jb_region a)))) b k"
proof (cases "jb_region a = jb_region b")
  case False
  with assms(2) show ?thesis by (auto simp: written_def)
next
  case True
  with assms(1,4) have "jb_at a + length (dat data a) \<le> jb_at b \<or> jb_at b + length (dat data b) \<le> jb_at a"
    by (simp add: apart_def)
  then have "segment (jb_at b) k (patch (jb_at a + off) d (m (jb_region a))) =
      segment (jb_at b) k (m (jb_region a))"
  proof
    assume "jb_at a + length (dat data a) \<le> jb_at b"
    with assms(5,6) show ?thesis by (intro segment_patch_after) simp_all
  next
    assume "jb_at b + length (dat data b) \<le> jb_at a"
    with assms(3,6) show ?thesis by (intro segment_patch_before) simp_all
  qed
  with assms(2) True show ?thesis by (simp add: written_def)
qed

lemma written_more:
  assumes "written data m a k" and "jb_region a \<noteq> NullPtr" and "d = segment k (length d) (dat data a)"
    and "jb_at a + k + length d \<le> length (m (jb_region a))"
  shows "written data (m(jb_region a := patch (jb_at a + k) d (m (jb_region a)))) a (k + length d)"
proof -
  let ?b = "m (jb_region a)" let ?p = "patch (jb_at a + k) d ?b"
  have "segment (jb_at a) (k + length d) ?p = segment (jb_at a) k ?p @ segment (jb_at a + k) (length d) ?p"
    by (simp add: take_add add.commute)
  also have "segment (jb_at a) k ?p = segment (jb_at a) k ?b"
    by (rule segment_patch_before) (use assms(4) in simp_all)
  also have "segment (jb_at a + k) (length d) ?p = d" by (rule segment_patch_same) (use assms(4) in simp)
  also have "segment (jb_at a) k ?b @ d = take k (dat data a) @ segment k (length d) (dat data a)"
    using assms(1-3) by (simp add: written_def)
  also have "\<dots> = take (k + length d) (dat data a)" by (simp add: take_add)
  finally show ?thesis by (simp add: written_def)
qed

lemma held_update:
  assumes "w < length ws"
  shows "held (ws[w := x]) i \<longleftrightarrow> (\<exists>k. x = Writing i k) \<or> (\<exists>v < length ws. v \<noteq> w \<and> (\<exists>k. ws ! v = Writing i k))"
  using assms unfolding held_def by (metis length_list_update nth_list_update_eq nth_list_update_neq)

lemma job_step_ok:
  assumes R: "run_ok data jobs m0 R"
  shows "run_ok data jobs m0 (job_step data jobs grain w R)"
proof (cases "rn_dead R \<noteq> None \<or> length (rn_workers R) \<le> w")
  case True
  with R show ?thesis by (simp add: job_step_def)
next
  case False
  then have w: "w < length (rn_workers R)" and alive: "rn_dead R = None" by simp_all
  note r = run_okD [OF R]
  let ?W = "rn_workers R"
  show ?thesis
  proof (cases "?W ! w")
    case Stopped
    with R w alive show ?thesis by (simp add: job_step_def)
  next
    case Drawing
    show ?thesis
    proof (cases "rn_next R < length jobs")
      case True
      let ?R = "R\<lparr>rn_next := rn_next R + 1, rn_workers := ?W[w := Writing (rn_next R) 0]\<rparr>"
      have st: "job_step data jobs grain w R = ?R" using Drawing True w alive by (simp add: job_step_def)
      have fresh: "i \<noteq> rn_next R" if "v < length ?W" "?W ! v = Writing i k" for v i k
        using r(4) [OF that] by simp
      have "placed_ok data jobs m0 (rn_next R + 1) (rn_mem R) (?W[w := Writing (rn_next R) 0])"
        unfolding placed_ok_def length_list_update
      proof (intro conjI allI impI)
        show "jobs_ok data jobs m0" by (rule r(1))
        show "length (rn_mem R x) = length (m0 x)" for x by (rule r(3))
        fix v i k assume v: "v < length ?W" "?W[w := Writing (rn_next R) 0] ! v = Writing i k"
        show "i < length jobs" "i < rn_next R + 1" "k \<le> length (dat data (jobs ! i))"
          "written data (rn_mem R) (jobs ! i) k"
          using v True r(4) [of v i k] w by (cases "v = w"; force simp: written_def)+
      next
        fix v v' i k k' assume v: "v < length ?W" and "v' < length ?W"
          "?W[w := Writing (rn_next R) 0] ! v = Writing i k \<and> ?W[w := Writing (rn_next R) 0] ! v' = Writing i k'"
        then show "v = v'"
          using v w fresh [of v i k] fresh [of v' i k'] r(5) [of v v' i k k']
          by (cases "v = w"; cases "v' = w") auto
      next
        fix i assume i: "i < length jobs" "i < rn_next R + 1 \<and> \<not> held (?W[w := Writing (rn_next R) 0]) i"
        then have "i \<noteq> rn_next R" "\<not> held ?W i"
          using Drawing w by (auto simp: held_update) (auto simp: held_def)
        with i show "written data (rn_mem R) (jobs ! i) (length (dat data (jobs ! i)))" by (intro r(6)) simp_all
      next
        fix v assume "v < length ?W" "?W[w := Writing (rn_next R) 0] ! v = Stopped"
        then show "length jobs \<le> rn_next R + 1" using r(7) [of v] w by (cases "v = w") simp_all
      qed
      then show ?thesis using alive by (simp add: st run_ok_def)
    next
      case past: False
      let ?R = "R\<lparr>rn_next := rn_next R + 1, rn_workers := ?W[w := Stopped]\<rparr>"
      have st: "job_step data jobs grain w R = ?R" using Drawing past w alive by (simp add: job_step_def)
      have keep: "?W ! v = Writing i k" if "?W[w := Stopped] ! v = Writing i k" "v < length ?W" for v i k
        using that w by (cases "v = w") simp_all
      have "placed_ok data jobs m0 (rn_next R + 1) (rn_mem R) (?W[w := Stopped])"
        unfolding placed_ok_def length_list_update
      proof (intro conjI allI impI)
        show "jobs_ok data jobs m0" by (rule r(1))
        show "length (rn_mem R x) = length (m0 x)" for x by (rule r(3))
        fix v i k assume v: "v < length ?W" "?W[w := Stopped] ! v = Writing i k"
        show "i < length jobs" "i < rn_next R + 1" "k \<le> length (dat data (jobs ! i))"
          "written data (rn_mem R) (jobs ! i) k"
          using r(4) [OF v(1) keep [OF v(2,1)]] by simp_all
      next
        fix v v' i k k' assume v: "v < length ?W" and "v' < length ?W" "?W[w := Stopped] ! v = Writing i k \<and> ?W[w := Stopped] ! v' = Writing i k'"
        then show "v = v'" using v keep r(5) by blast
      next
        fix i assume i: "i < length jobs" "i < rn_next R + 1 \<and> \<not> held (?W[w := Stopped]) i"
        then have "\<not> held ?W i" using Drawing w by (auto simp: held_update) (auto simp: held_def)
        moreover have "i < rn_next R" using i(1) past by simp
        ultimately show "written data (rn_mem R) (jobs ! i) (length (dat data (jobs ! i)))" using i by (intro r(6))
      next
        fix v assume "v < length ?W" "?W[w := Stopped] ! v = Stopped"
        show "length jobs \<le> rn_next R + 1" using past by simp
      qed
      then show ?thesis using alive by (simp add: st run_ok_def)
    qed
  next
    case (Writing i k)
    note me = r(4) [OF w Writing]
    have fit: "fits data m0 (jobs ! i)" using me r(1) by (simp add: jobs_ok_def)
    then obtain d where d: "data (jobs ! i) = Inr d" by (auto simp: fits_def)
    then have dd: "dat data (jobs ! i) = d" by (simp add: dat_def)
    show ?thesis
    proof (cases "length d \<le> k")
      case True
      let ?R = "R\<lparr>rn_workers := ?W[w := Drawing]\<rparr>"
      have st: "job_step data jobs grain w R = ?R" using Writing True w alive d by (simp add: job_step_def)
      have keep: "?W ! v = Writing j l" if "?W[w := Drawing] ! v = Writing j l" "v < length ?W" for v j l
        using that w by (cases "v = w") simp_all
      have "placed_ok data jobs m0 (rn_next R) (rn_mem R) (?W[w := Drawing])"
        unfolding placed_ok_def length_list_update
      proof (intro conjI allI impI)
        show "jobs_ok data jobs m0" by (rule r(1))
        show "length (rn_mem R x) = length (m0 x)" for x by (rule r(3))
        fix v j l assume v: "v < length ?W" "?W[w := Drawing] ! v = Writing j l"
        show "j < length jobs" "j < rn_next R" "l \<le> length (dat data (jobs ! j))"
          "written data (rn_mem R) (jobs ! j) l"
          using r(4) [OF v(1) keep [OF v(2,1)]] by simp_all
      next
        fix v v' j l l' assume v: "v < length ?W" and "v' < length ?W" "?W[w := Drawing] ! v = Writing j l \<and> ?W[w := Drawing] ! v' = Writing j l'"
        then show "v = v'" using v keep r(5) by blast
      next
        fix j assume j: "j < length jobs" "j < rn_next R \<and> \<not> held (?W[w := Drawing]) j"
        show "written data (rn_mem R) (jobs ! j) (length (dat data (jobs ! j)))"
        proof (cases "j = i")
          case True
          with me dd \<open>length d \<le> k\<close> show ?thesis by auto
        next
          case False
          with j(2) have "\<not> held ?W j" using Writing w by (auto simp: held_update) (auto simp: held_def)
          with j show ?thesis by (intro r(6)) simp_all
        qed
      next
        fix v assume "v < length ?W" "?W[w := Drawing] ! v = Stopped"
        then show "length jobs \<le> rn_next R" using r(7) [of v] w by (cases "v = w") simp_all
      qed
      then show ?thesis using alive by (simp add: st run_ok_def)
    next
      case False
      define piece where "piece = next_piece grain i k d"
      have piece: "piece = segment k (length piece) (dat data (jobs ! i))" "k + length piece \<le> length d"
        using False by (auto simp: piece_def next_piece_def dd min_def)
      let ?jb = "jobs ! i"
      let ?m = "if jb_region ?jb = NullPtr then rn_mem R
        else (rn_mem R)(jb_region ?jb := patch (jb_at ?jb + k) piece (rn_mem R (jb_region ?jb)))"
      let ?R = "R\<lparr>rn_mem := ?m, rn_workers := ?W[w := Writing i (k + length piece)]\<rparr>"
      have room: "jb_at ?jb + k + length piece \<le> length (rn_mem R (jb_region ?jb))" if "jb_region ?jb \<noteq> NullPtr"
        using fit that piece(2) dd r(3) [of "jb_region ?jb"] by (simp add: fits_def)
      have "store_piece (jb_region ?jb) (jb_at ?jb + k) piece (rn_mem R) = Inr ?m"
        using room by (cases "jb_region ?jb = NullPtr") (simp_all add: store_piece_def not_less)
      then have st: "job_step data jobs grain w R = ?R"
        using Writing False w alive d by (simp add: job_step_def piece_def)
      have other: "written data ?m (jobs ! j) l"
        if "j < length jobs" "j \<noteq> i" "written data (rn_mem R) (jobs ! j) l" "l \<le> length (dat data (jobs ! j))" for j l
      proof (cases "jb_region ?jb = NullPtr")
        case False
        have "apart data ?jb (jobs ! j)" using r(1) me that(1,2) unfolding jobs_ok_def by metis
        from written_other [of data ?jb "jobs ! j" "rn_mem R" l k piece, OF this that(3,4) False _ room [OF False]]
        piece(2) dd False show ?thesis by simp
      qed (use that(3) in simp)
      have same: "written data ?m ?jb (k + length piece)"
      proof (cases "jb_region ?jb = NullPtr")
        case False
        with written_more [of data "rn_mem R" ?jb k piece, OF _ False piece(1) room [OF False]] me show ?thesis by simp
      qed (simp add: written_def)
      have keep: "v \<noteq> w \<Longrightarrow> ?W[w := Writing i (k + length piece)] ! v = ?W ! v" for v by simp
      have "placed_ok data jobs m0 (rn_next R) ?m (?W[w := Writing i (k + length piece)])"
        unfolding placed_ok_def length_list_update
      proof (intro conjI allI impI)
        show "jobs_ok data jobs m0" by (rule r(1))
        show "length (?m x) = length (m0 x)" for x using r(3) room by (cases "jb_region ?jb = NullPtr") simp_all
        fix v j l assume v: "v < length ?W" "?W[w := Writing i (k + length piece)] ! v = Writing j l"
        show "j < length jobs" "j < rn_next R" "l \<le> length (dat data (jobs ! j))" "written data ?m (jobs ! j) l"
        proof -
          have "j < length jobs \<and> j < rn_next R \<and> l \<le> length (dat data (jobs ! j)) \<and> written data ?m (jobs ! j) l"
          proof (cases "v = w")
            case True
            with v w me same piece(2) dd show ?thesis by simp
          next
            case False
            with v(2) have vj: "?W ! v = Writing j l" by simp
            note q = r(4) [OF v(1) vj]
            have "j \<noteq> i" using r(5) [OF v(1) w vj] Writing False by blast
            with q other show ?thesis by blast
          qed
          then show "j < length jobs" "j < rn_next R" "l \<le> length (dat data (jobs ! j))" "written data ?m (jobs ! j) l"
            by simp_all
        qed
      next
        fix v v' j l l' assume v: "v < length ?W" and v': "v' < length ?W" "?W[w := Writing i (k + length piece)] ! v = Writing j l \<and>
          ?W[w := Writing i (k + length piece)] ! v' = Writing j l'"
        have "\<exists>l. ?W ! v = Writing j l" using v v'(2) w Writing by (cases "v = w") auto
        moreover have "\<exists>l. ?W ! v' = Writing j l" using v' w Writing by (cases "v' = w") auto
        ultimately show "v = v'" using r(5) v v'(1) by blast
      next
        fix j assume j: "j < length jobs" "j < rn_next R \<and> \<not> held (?W[w := Writing i (k + length piece)]) j"
        then have "j \<noteq> i" "\<not> held ?W j" using Writing w by (auto simp: held_update) (auto simp: held_def)
        with j r(6) other show "written data ?m (jobs ! j) (length (dat data (jobs ! j)))" by simp
      next
        fix v assume "v < length ?W" "?W[w := Writing i (k + length piece)] ! v = Stopped"
        then show "length jobs \<le> rn_next R" using r(7) [of v] w by (cases "v = w") simp_all
      qed
      then show ?thesis using alive by (simp add: st run_ok_def)
    qed
  qed
qed

text \<open>How many steps a thread has left at most.\<close>

definition jobs_left :: "(Job \<Rightarrow> load_error + bytes) \<Rightarrow> Job list \<Rightarrow> nat \<Rightarrow> nat" where
  "jobs_left data jobs n = 1 + sum_list (map (\<lambda>jb. length (dat data jb) + 2) (drop n jobs))"

definition work_left :: "(Job \<Rightarrow> load_error + bytes) \<Rightarrow> Job list \<Rightarrow> Run \<Rightarrow> nat \<Rightarrow> nat" where
  "work_left data jobs R w =
     (if rn_dead R \<noteq> None \<or> length (rn_workers R) \<le> w then 0
      else case rn_workers R ! w of
        Stopped \<Rightarrow> 0
      | Drawing \<Rightarrow> jobs_left data jobs (rn_next R)
      | Writing i k \<Rightarrow> length (dat data (jobs ! i)) - k + 1 + jobs_left data jobs (rn_next R))"

lemma jobs_left_next:
  "n < length jobs \<Longrightarrow>
     jobs_left data jobs n = length (dat data (jobs ! n)) + 2 + jobs_left data jobs (n + 1)"
  by (simp add: jobs_left_def Cons_nth_drop_Suc [symmetric])

lemma jobs_left_mono: "jobs_left data jobs (n + 1) \<le> jobs_left data jobs n"
  by (cases "n < length jobs") (simp_all add: jobs_left_next, simp add: jobs_left_def)

lemma jobs_left_pos: "0 < jobs_left data jobs n"
  by (simp add: jobs_left_def)

text \<open>What a step does to the thread that takes it, and to the others.\<close>

lemma job_step_cases:
  fixes R :: Run
  assumes R: "run_ok data jobs m0 R" and w: "w < length (rn_workers R)"
  shows "length (rn_workers (job_step data jobs grain w R)) = length (rn_workers R)"
    and "v \<noteq> w \<Longrightarrow> rn_workers (job_step data jobs grain w R) ! v = rn_workers R ! v"
    and "rn_workers R ! w = Drawing \<Longrightarrow> rn_next (job_step data jobs grain w R) = rn_next R + 1 \<and>
      rn_workers (job_step data jobs grain w R) ! w =
        (if rn_next R < length jobs then Writing (rn_next R) 0 else Stopped)"
    and "rn_workers R ! w = Stopped \<Longrightarrow> job_step data jobs grain w R = R"
    and "rn_workers R ! w = Writing i k \<Longrightarrow> rn_next (job_step data jobs grain w R) = rn_next R \<and>
      (if length (dat data (jobs ! i)) \<le> k then rn_workers (job_step data jobs grain w R) ! w = Drawing
       else \<exists>k' > k. rn_workers (job_step data jobs grain w R) ! w = Writing i k')"
proof -
  note r = run_okD [OF R]
  have alive: "rn_dead (job_step data jobs grain w R) = None" using job_step_ok [OF R] by (rule run_okD(2))
  show "length (rn_workers (job_step data jobs grain w R)) = length (rn_workers R)"
    by (simp add: job_step_def Let_def split: worker.split sum.split)
  show "v \<noteq> w \<Longrightarrow> rn_workers (job_step data jobs grain w R) ! v = rn_workers R ! v"
    by (simp add: job_step_def Let_def split: worker.split sum.split)
  show "rn_workers R ! w = Drawing \<Longrightarrow> rn_next (job_step data jobs grain w R) = rn_next R + 1 \<and>
      rn_workers (job_step data jobs grain w R) ! w =
        (if rn_next R < length jobs then Writing (rn_next R) 0 else Stopped)"
    using w r(2) by (simp add: job_step_def)
  show "rn_workers R ! w = Stopped \<Longrightarrow> job_step data jobs grain w R = R" by (simp add: job_step_def)
  assume W: "rn_workers R ! w = Writing i k"
  obtain d where d: "data (jobs ! i) = Inr d" using r(1) r(4) [OF w W] by (auto simp: jobs_ok_def fits_def)
  then have dd: "dat data (jobs ! i) = d" by (simp add: dat_def)
  let ?piece = "next_piece grain i k d"
  show "rn_next (job_step data jobs grain w R) = rn_next R \<and>
      (if length (dat data (jobs ! i)) \<le> k then rn_workers (job_step data jobs grain w R) ! w = Drawing
       else \<exists>k' > k. rn_workers (job_step data jobs grain w R) ! w = Writing i k')"
  proof (cases "length d \<le> k")
    case True
    with W w r(2) d dd show ?thesis by (simp add: job_step_def)
  next
    case False
    have "k < k + length ?piece" using False by (simp add: next_piece_def)
    with False W w r(2) d dd alive show ?thesis
      by (auto simp: job_step_def Let_def split: sum.split)
  qed
qed

interpretation loading: interleaved "job_step data jobs grain" "run_ok data jobs m0" "work_left data jobs"
proof
  fix R i assume R: "run_ok data jobs m0 R"
  show ok: "run_ok data jobs m0 (job_step data jobs grain i R)" by (rule job_step_ok [OF R])
  have alive: "rn_dead R = None" "rn_dead (job_step data jobs grain i R) = None"
    using R ok by (simp_all add: run_ok_def)
  have idle: "job_step data jobs grain i R = R" if "length (rn_workers R) \<le> i" using that by (simp add: job_step_def)
  show "work_left data jobs (job_step data jobs grain i R) i \<le> work_left data jobs R i - 1"
  proof (cases "i < length (rn_workers R)")
    case True
    note c = job_step_cases [OF R True, where grain = grain]
    show ?thesis
    proof (cases "rn_workers R ! i")
      case Drawing
      with c(1,3) True alive show ?thesis
        using jobs_left_next [of "rn_next R" jobs data] by (simp add: work_left_def)
    next
      case (Writing j k)
      with c(1,5) True alive show ?thesis by (auto simp: work_left_def split: if_splits)
    next
      case Stopped
      with c(4) True show ?thesis by (simp add: work_left_def)
    qed
  qed (simp add: work_left_def idle)
  fix j :: nat assume j: "j \<noteq> i"
  show "work_left data jobs (job_step data jobs grain i R) j \<le> work_left data jobs R j"
  proof (cases "i < length (rn_workers R)")
    case True
    note c = job_step_cases [OF R True, where grain = grain]
    have "rn_next (job_step data jobs grain i R) \<in> {rn_next R, rn_next R + 1}"
      using c(3-5) by (cases "rn_workers R ! i") auto
    then have "jobs_left data jobs (rn_next (job_step data jobs grain i R)) \<le> jobs_left data jobs (rn_next R)"
      using jobs_left_mono by auto
    with c(1) c(2) [OF j] alive show ?thesis
      by (auto simp: work_left_def split: worker.split)
  qed (simp add: idle)
qed

lemma run_schedule_workers:
  "run_ok data jobs m0 R \<Longrightarrow>
     length (rn_workers (run_schedule (job_step data jobs grain) sched R)) = length (rn_workers R)"
proof (induction sched arbitrary: R)
  case (Cons w sched)
  have "length (rn_workers (job_step data jobs grain w R)) = length (rn_workers R)"
    using job_step_cases(1) [OF Cons.prems] by (cases "w < length (rn_workers R)") (simp_all add: job_step_def)
  with Cons.IH [OF job_step_ok [OF Cons.prems]] show ?case by simp
qed simp

text \<open>Under every schedule that is fair to the sixteen threads the run ends, and every job's data are at
  their place.\<close>

lemma run_jobs_places:
  fixes grain :: "nat \<Rightarrow> nat \<Rightarrow> nat" and sched :: "nat list"
  assumes ok: "jobs_ok data jobs m" and fair: "fair_for 16 (jobs_left data jobs 0) sched"
  defines "R \<equiv> run_jobs data jobs grain sched m"
  shows "rn_dead R = None" and "rn_workers R = replicate 16 Stopped"
    and "i < length jobs \<Longrightarrow> written data (rn_mem R) (jobs ! i) (length (dat data (jobs ! i)))"
    and "length (rn_mem R r) = length (m r)"
proof -
  have start: "run_ok data jobs m (run_start 16 m)"
    using ok by (simp add: run_ok_def placed_ok_def run_start_def)
  have R: "run_ok data jobs m R" unfolding R_def run_jobs_def by (rule loading.run_inv [OF start])
  note r = run_okD [OF R]
  show "rn_dead R = None" by (rule r(2))
  show "length (rn_mem R r) = length (m r)" by (rule r(3))
  have len: "length (rn_workers R) = 16"
    using run_schedule_workers [OF start] by (simp add: R_def run_jobs_def run_start_def)
  have z: "work_left data jobs R w = 0" if "w < 16" for w
    unfolding R_def run_jobs_def
    by (rule loading.fair_run [OF start fair]) (use that in \<open>simp_all add: work_left_def run_start_def\<close>)
  have st: "rn_workers R ! w = Stopped" if "w < 16" for w
    using z [OF that] that len r(2) jobs_left_pos [of data jobs "rn_next R"]
    by (auto simp: work_left_def split: worker.splits)
  then show "rn_workers R = replicate 16 Stopped" using len by (simp add: list_eq_iff_nth_eq)
  assume i: "i < length jobs"
  have "length jobs \<le> rn_next R" using r(7) [of 0] st [of 0] len by simp
  moreover have "\<not> held (rn_workers R) i" using st len by (simp add: held_def)
  ultimately show "written data (rn_mem R) (jobs ! i) (length (dat data (jobs ! i)))" using r(6) i by simp
qed

end
