(* ===== verification/Loader.thy ===== *)
theory Loader
  imports Load_Jobs Layers
begin

text \<open>
  The model loader (\<^verbatim>\<open>Loader\<close> of \<^verbatim>\<open>src/core/model.cpp\<close>): the configuration, the plan of the expert
  arena, the jobs that place every tensor, and the checks of the arena and of the device tensors
  that follow the run.  The quantised groups stored in the weight structs are listed by their
  tensor's name, the other pointers likewise.  Counts of the configuration are taken as naturals;
  allocation on a device does not fail (it aborts the process when it does).
\<close>

section \<open>Configuration\<close>

record Config =
  cf_n_layers :: nat
  cf_hidden :: nat
  cf_n_expert :: nat
  cf_topk :: int
  cf_moe_inter :: nat
  cf_vocab :: nat
  cf_mhc :: bool
  cf_ints :: "(bytes \<times> int) list"
  cf_floats :: "(bytes \<times> rat) list"
  cf_flags :: "(bytes \<times> bool) list"
  cf_qk_nope :: int
  cf_v_dim :: int
  cf_attn :: "AttnKind list"
  cf_moe :: "bool list"

text \<open>\<^verbatim>\<open>tc.value(k, d)\<close> at the types the code asks for.\<close>

definition value_int :: "json \<Rightarrow> bytes \<Rightarrow> int \<Rightarrow> load_error + int" where
  "value_int j k d = (case field k j of None \<Rightarrow> Inr d | Some v \<Rightarrow> int_of k v)"

fun rat_of :: "bytes \<Rightarrow> json \<Rightarrow> load_error + rat" where
  "rat_of k (JInt i) = Inr (of_int i)"
| "rat_of k (JFloat x) = Inr x"
| "rat_of k (JBool b) = Inr (if b then 1 else 0)"
| "rat_of k _ = Inl (Throw k)"

definition value_float :: "json \<Rightarrow> bytes \<Rightarrow> rat \<Rightarrow> load_error + rat" where
  "value_float j k d = (case field k j of None \<Rightarrow> Inr d | Some v \<Rightarrow> rat_of k v)"

definition value_bool :: "json \<Rightarrow> bytes \<Rightarrow> bool \<Rightarrow> load_error + bool" where
  "value_bool j k d =
     (case field k j of None \<Rightarrow> Inr d | Some (JBool b) \<Rightarrow> Inr b | Some _ \<Rightarrow> Inl (Throw k))"

fun read_all :: "('a \<Rightarrow> load_error + 'b) \<Rightarrow> (bytes \<times> 'a) list \<Rightarrow> load_error + (bytes \<times> 'b) list" where
  "read_all f [] = Inr []"
| "read_all f ((k, d) # ks) = bind_sum (f d) (\<lambda>v. bind_sum (read_all f ks) (\<lambda>vs. Inr ((k, v) # vs)))"

definition int_keys :: "(bytes \<times> int) list" where
  "int_keys = [(''num_attention_heads'', 64), (''q_lora_rank'', 1536), (''kv_lora_rank'', 512),
     (''index_n_heads'', 32), (''index_head_dim'', 128), (''index_topk'', 2048), (''index_kpool'', 4),
     (''intermediate_size'', 12288), (''hc_mult'', 4), (''hc_sinkhorn_iters'', 20)]"

definition float_keys :: "(bytes \<times> rat) list" where
  "float_keys = [(''hc_eps'', 1 / 1000000), (''rms_norm_eps'', 1 / 100000)]"

definition flag_keys :: "(bytes \<times> bool) list" where
  "flag_keys = [(''index_kpool_compress'', True), (''index_kpool_always_select_tail'', True)]"

text \<open>The kind of layer \<^term>\<open>i\<close>: an element past the end reads as null, which is not a string.\<close>

definition kind_at :: "bytes \<Rightarrow> json list \<Rightarrow> nat \<Rightarrow> load_error + bytes" where
  "kind_at k xs i = (if i < length xs then (case xs ! i of JStr s \<Rightarrow> Inr s | _ \<Rightarrow> Inl (Throw k)) else Inl (Throw k))"

fun kinds_from :: "bytes \<Rightarrow> json list \<Rightarrow> nat list \<Rightarrow> load_error + bytes list" where
  "kinds_from k xs [] = Inr []"
| "kinds_from k xs (i # is) = bind_sum (kind_at k xs i) (\<lambda>s. bind_sum (kinds_from k xs is) (\<lambda>ss. Inr (s # ss)))"

definition layer_kinds :: "json \<Rightarrow> bytes \<Rightarrow> nat \<Rightarrow> (bytes \<Rightarrow> 'a) \<Rightarrow> 'a \<Rightarrow> load_error + 'a list" where
  "layer_kinds tc k n f d =
     (case field k tc of
        None \<Rightarrow> Inr (replicate n d)
      | Some (JArr xs) \<Rightarrow> bind_sum (kinds_from k xs [0..<n]) (\<lambda>ss. Inr (map f ss))
      | Some _ \<Rightarrow> if n = 0 then Inr [] else Inl (Throw k))"

definition text_config :: "json \<Rightarrow> json" where
  "text_config c = (case field ''text_config'' c of Some t \<Rightarrow> t | None \<Rightarrow> c)"

definition linear_config :: "json \<Rightarrow> load_error + (rat \<times> int)" where
  "linear_config tc =
     (case field ''linear_attn_config'' tc of
        None \<Rightarrow> Inr (-5, 4)
      | Some la \<Rightarrow> bind_sum (value_float la ''gate_lower_bound'' (-5)) (\<lambda>d.
                    bind_sum (value_int la ''short_conv_kernel_size'' 4) (\<lambda>k. Inr (d, k))))"

definition head_dims :: "json \<Rightarrow> load_error + (int \<times> int)" where
  "head_dims tc =
     bind_sum (value_int tc ''head_dim'' 0) (\<lambda>h.
     bind_sum (value_bool tc ''mla_use_nope'' True) (\<lambda>nope.
       let v = (if h \<noteq> 0 then h else 256) in Inr (if nope then 256 else v, v)))"

definition parse_config :: "json \<Rightarrow> load_error + Config" where
  "parse_config c =
     (let tc = text_config c in
      if \<not> is_object tc then Inl (Throw ''hidden_size'') else
      bind_sum (value_int tc ''hidden_size'' 4096) (\<lambda>hidden.
      bind_sum (value_int tc ''num_hidden_layers'' 45) (\<lambda>n.
      bind_sum (read_all (\<lambda>(k, d). value_int tc k d) (map (\<lambda>(k, d). (k, (k, d))) int_keys)) (\<lambda>ints.
      bind_sum (read_all (\<lambda>(k, d). value_bool tc k d) (map (\<lambda>(k, d). (k, (k, d))) flag_keys)) (\<lambda>flags.
      bind_sum (value_int tc ''n_routed_experts'' 288) (\<lambda>n_expert.
      bind_sum (value_int tc ''num_experts_per_tok'' 8) (\<lambda>topk.
      bind_sum (value_int tc ''moe_intermediate_size'' 2048) (\<lambda>moe_inter.
      bind_sum (read_all (\<lambda>(k, d). value_float tc k d) (map (\<lambda>(k, d). (k, (k, d))) float_keys)) (\<lambda>floats.
      bind_sum (value_int tc ''vocab_size'' 154880) (\<lambda>vocab.
      bind_sum (value_bool tc ''mhc'' True) (\<lambda>mhc.
      bind_sum (linear_config tc) (\<lambda>(decay, conv).
      bind_sum (head_dims tc) (\<lambda>(qk, v).
      bind_sum (layer_kinds tc ''layer_types'' (nat n)
          (\<lambda>s. if s = ''deepseek_sparse_attention'' then MLA else KDA) KDA) (\<lambda>attn.
      bind_sum (layer_kinds tc ''mlp_layer_types'' (nat n) (\<lambda>s. s = ''sparse'') False) (\<lambda>moe.
        Inr \<lparr>cf_n_layers = nat n, cf_hidden = nat hidden, cf_n_expert = nat n_expert, cf_topk = topk,
             cf_moe_inter = nat moe_inter, cf_vocab = nat vocab, cf_mhc = mhc,
             cf_ints = (''short_conv_kernel_size'', conv) # ints,
             cf_floats = (''gate_lower_bound'', decay) # floats, cf_flags = flags,
             cf_qk_nope = qk, cf_v_dim = v, cf_attn = attn, cf_moe = moe\<rparr>)))))))))))))))"

section \<open>The arena\<close>

record ArenaPlan =
  ap_slot_base :: "int list"
  ap_byte_base :: "nat list"
  ap_layouts :: "ExpertLayout option list"
  ap_bytes :: nat
  ap_seq :: nat
  ap_slot_stride :: nat

definition plan_new :: "nat \<Rightarrow> ArenaPlan" where
  "plan_new n = \<lparr>ap_slot_base = replicate n (-1), ap_byte_base = replicate n 0, ap_layouts = replicate n None,
     ap_bytes = 0, ap_seq = 0, ap_slot_stride = 0\<rparr>"

definition plan_add :: "nat \<Rightarrow> nat \<Rightarrow> ExpertLayout \<Rightarrow> ArenaPlan \<Rightarrow> ArenaPlan" where
  "plan_add n_expert l lay ap =
     ap\<lparr>ap_layouts := (ap_layouts ap)[l := Some lay],
        ap_slot_base := (ap_slot_base ap)[l := int (n_expert * ap_seq ap)],
        ap_seq := ap_seq ap + 1,
        ap_byte_base := (ap_byte_base ap)[l := ap_bytes ap],
        ap_bytes := ap_bytes ap + n_expert * lay_stride lay,
        ap_slot_stride := max (ap_slot_stride ap) (lay_stride lay)\<rparr>"

fun plan_layers ::
  "(nat \<Rightarrow> load_error + ExpertLayout) \<Rightarrow> nat \<Rightarrow> bool list \<Rightarrow> nat list \<Rightarrow> ArenaPlan \<Rightarrow> load_error + ArenaPlan" where
  "plan_layers layout n_expert moe [] ap = Inr ap"
| "plan_layers layout n_expert moe (l # ls) ap =
     (if \<not> moe ! l then plan_layers layout n_expert moe ls ap
      else bind_sum (layout l) (\<lambda>lay. plan_layers layout n_expert moe ls (plan_add n_expert l lay ap)))"

definition slab_at :: "ArenaPlan \<Rightarrow> nat \<Rightarrow> nat \<Rightarrow> nat" where
  "slab_at ap l e = ap_byte_base ap ! l + e * (case ap_layouts ap ! l of Some lay \<Rightarrow> lay_stride lay | None \<Rightarrow> 0)"

text \<open>Slabs of planned layers lie in the arena and do not overlap.\<close>

definition plan_ok :: "nat \<Rightarrow> ArenaPlan \<Rightarrow> bool" where
  "plan_ok n_expert ap \<longleftrightarrow> length (ap_byte_base ap) = length (ap_layouts ap) \<and>
     (\<forall>l < length (ap_layouts ap). \<forall>lay. ap_layouts ap ! l = Some lay \<longrightarrow>
        ap_byte_base ap ! l + n_expert * lay_stride lay \<le> ap_bytes ap \<and> lay_stride lay \<le> ap_slot_stride ap \<and>
        (\<forall>l' < length (ap_layouts ap). \<forall>lay'. l' \<noteq> l \<and> ap_layouts ap ! l' = Some lay' \<longrightarrow>
           ap_byte_base ap ! l + n_expert * lay_stride lay \<le> ap_byte_base ap ! l' \<or>
           ap_byte_base ap ! l' + n_expert * lay_stride lay' \<le> ap_byte_base ap ! l))"

lemma plan_add_ok:
  assumes ok: "plan_ok n ap" and l: "l < length (ap_layouts ap)"
  shows "plan_ok n (plan_add n l lay ap)"
proof -
  have len: "length (ap_byte_base ap) = length (ap_layouts ap)" using ok by (simp add: plan_ok_def)
  have old: "ap_byte_base ap ! k + n * lay_stride x \<le> ap_bytes ap \<and> lay_stride x \<le> ap_slot_stride ap"
    if "k < length (ap_layouts ap)" "ap_layouts ap ! k = Some x" for k x
    using ok that unfolding plan_ok_def by blast
  have sep: "ap_byte_base ap ! k + n * lay_stride x \<le> ap_byte_base ap ! k' \<or>
      ap_byte_base ap ! k' + n * lay_stride x' \<le> ap_byte_base ap ! k"
    if "k < length (ap_layouts ap)" "ap_layouts ap ! k = Some x" "k' < length (ap_layouts ap)" "k' \<noteq> k"
      "ap_layouts ap ! k' = Some x'" for k x k' x'
    using ok that unfolding plan_ok_def by blast
  let ?ap = "plan_add n l lay ap"
  have sel: "ap_layouts ?ap = (ap_layouts ap)[l := Some lay]" "ap_byte_base ?ap = (ap_byte_base ap)[l := ap_bytes ap]"
    "ap_bytes ?ap = ap_bytes ap + n * lay_stride lay" "ap_slot_stride ?ap = max (ap_slot_stride ap) (lay_stride lay)"
    by (simp_all add: plan_add_def)
  have at: "ap_byte_base ?ap ! k = (if k = l then ap_bytes ap else ap_byte_base ap ! k)"
    "ap_layouts ?ap ! k = (if k = l then Some lay else ap_layouts ap ! k)" if "k < length (ap_layouts ap)" for k
    using that l len sel by simp_all
  show ?thesis unfolding plan_ok_def
  proof (intro conjI allI impI)
    show "length (ap_byte_base ?ap) = length (ap_layouts ?ap)" using len sel by simp
    fix k x assume "k < length (ap_layouts ?ap)" and x: "ap_layouts ?ap ! k = Some x"
    then have k: "k < length (ap_layouts ap)" using sel(1) by simp
    have one: "ap_byte_base ?ap ! k + n * lay_stride x \<le> ap_bytes ?ap \<and> lay_stride x \<le> ap_slot_stride ?ap"
    proof (cases "k = l")
      case True
      with x at [OF k] sel show ?thesis by simp
    next
      case False
      with x at [OF k] have "ap_layouts ap ! k = Some x" by simp
      from old [OF k this] False at(1) [OF k] sel show ?thesis by (simp add: max.coboundedI1)
    qed
    then show "ap_byte_base ?ap ! k + n * lay_stride x \<le> ap_bytes ?ap" "lay_stride x \<le> ap_slot_stride ?ap"
      by blast+
    fix k' x' assume "k' < length (ap_layouts ?ap)" and x': "k' \<noteq> k \<and> ap_layouts ?ap ! k' = Some x'"
    then have k': "k' < length (ap_layouts ap)" using sel(1) by simp
    consider "k = l" | "k' = l" | "k \<noteq> l" "k' \<noteq> l" by blast
    then show "ap_byte_base ?ap ! k + n * lay_stride x \<le> ap_byte_base ?ap ! k' \<or>
        ap_byte_base ?ap ! k' + n * lay_stride x' \<le> ap_byte_base ?ap ! k"
    proof cases
      case 1
      with x' at(2) [OF k'] have "ap_layouts ap ! k' = Some x'" by (auto split: if_splits)
      with old [OF k'] 1 x' at(1) [OF k] at(1) [OF k'] show ?thesis by simp
    next
      case 2
      with x x' at(2) [OF k] have "ap_layouts ap ! k = Some x" by (auto split: if_splits)
      with old [OF k] 2 x' at(1) [OF k] at(1) [OF k'] show ?thesis by simp
    next
      case 3
      with x x' at(2) [OF k] at(2) [OF k'] have "ap_layouts ap ! k = Some x" "ap_layouts ap ! k' = Some x'" by (auto split: if_splits)
      with sep [OF k _ k'] 3 x' at(1) [OF k] at(1) [OF k'] show ?thesis by simp
    qed
  qed
qed

lemma plan_layers_ok:
  "plan_layers layout n moe ls ap = Inr ap' \<Longrightarrow> plan_ok n ap \<Longrightarrow> \<forall>l \<in> set ls. l < length (ap_layouts ap) \<Longrightarrow>
     plan_ok n ap' \<and> length (ap_layouts ap') = length (ap_layouts ap)"
proof (induction ls arbitrary: ap)
  case (Cons l ls)
  show ?case
  proof (cases "moe ! l")
    case True
    with Cons.prems(1) obtain lay where "plan_layers layout n moe ls (plan_add n l lay ap) = Inr ap'"
      by (auto simp: bind_sum_Inr)
    from Cons.IH [OF this plan_add_ok [OF Cons.prems(2)]] Cons.prems(3) show ?thesis
      by (simp add: plan_add_def)
  next
    case False
    with Cons show ?thesis by simp
  qed
qed simp

text \<open>Which layers are planned, and with which layout.\<close>

lemma plan_layers_keep:
  "plan_layers layout n moe ls ap = Inr ap' \<Longrightarrow> l \<notin> set ls \<Longrightarrow> ap_layouts ap' ! l = ap_layouts ap ! l"
proof (induction ls arbitrary: ap)
  case (Cons k ls)
  then show ?case
    by (cases "moe ! k") (auto simp: bind_sum_Inr plan_add_def dest!: Cons.IH)
qed simp

lemma plan_layers_has:
  assumes "plan_layers layout n moe ls ap = Inr ap'" and "distinct ls"
    and "\<forall>l \<in> set ls. l < length (ap_layouts ap) \<and> ap_layouts ap ! l = None" and "l \<in> set ls"
  shows "if moe ! l then \<exists>lay. layout l = Inr lay \<and> ap_layouts ap' ! l = Some lay else ap_layouts ap' ! l = None"
  using assms
proof (induction ls arbitrary: ap)
  case (Cons k ls)
  show ?case
  proof (cases "moe ! k")
    case False
    with Cons show ?thesis using plan_layers_keep [of layout n moe ls ap ap' l] by (cases "l = k") auto
  next
    case True
    with Cons.prems(1) obtain lay where lay: "layout k = Inr lay"
      "plan_layers layout n moe ls (plan_add n k lay ap) = Inr ap'"
      by (auto simp: bind_sum_Inr)
    have sel: "ap_layouts (plan_add n k lay ap) = (ap_layouts ap)[k := Some lay]" by (simp add: plan_add_def)
    show ?thesis
    proof (cases "l = k")
      case l: True
      with Cons.prems(2,3) plan_layers_keep [OF lay(2), of l] sel lay(1) True show ?thesis by simp
    next
      case False
      have "\<forall>l \<in> set ls. l < length (ap_layouts (plan_add n k lay ap)) \<and> ap_layouts (plan_add n k lay ap) ! l = None"
        using Cons.prems(2,3) sel by (auto simp: nth_list_update)
      from Cons.IH [OF lay(2) _ this] Cons.prems(2,4) False show ?thesis by simp
    qed
  qed
qed simp

section \<open>Queueing the jobs\<close>

record GroupW =
  gw_trellis :: Region
  gw_suh :: Region
  gw_svh :: Region
  gw_mul1 :: Region
  gw_K :: int
  gw_out :: nat
  gw_in :: nat

record Loader =
  ld_ram_only :: bool
  ld_jobs :: "Job list"
  ld_missing :: nat
  ld_crashed :: bool
  ld_gpu :: "nat \<Rightarrow> nat list"
  ld_words :: nat
  ld_groups :: "(bytes \<times> GroupW) list"
  ld_ptrs :: "(bytes \<times> Region) list"
  ld_arena_layer :: "(nat \<times> int) list"

definition loader_new :: "bool \<Rightarrow> Loader" where
  "loader_new ro = \<lparr>ld_ram_only = ro, ld_jobs = [], ld_missing = 0, ld_crashed = False, ld_gpu = (\<lambda>d. []),
     ld_words = 0, ld_groups = [], ld_ptrs = [], ld_arena_layer = []\<rparr>"

definition layer_name :: "nat \<Rightarrow> bytes" where
  "layer_name l = ''model.language_model.layers.'' @ dec_string l"

text \<open>\<^verbatim>\<open>T\<close>: the tensor, counted as missing when there is none.\<close>

definition find_T :: "ShardSet \<Rightarrow> bytes \<Rightarrow> Loader \<Rightarrow> TensorInfo option \<times> Loader" where
  "find_T S n L =
     (case find_tensor S n of
        None \<Rightarrow> (None, L\<lparr>ld_missing := ld_missing L + 1\<rparr>)
      | Some t \<Rightarrow> (Some t, L))"

text \<open>\<^verbatim>\<open>A\<close>: a device allocation.\<close>

definition alloc_dev :: "nat \<Rightarrow> nat \<Rightarrow> Loader \<Rightarrow> Region \<times> Loader" where
  "alloc_dev sz dev L =
     (if ld_ram_only L then (NullPtr, L)
      else (Device dev (length (ld_gpu L dev)), L\<lparr>ld_gpu := (ld_gpu L)(dev := ld_gpu L dev @ [sz])\<rparr>))"

text \<open>\<^verbatim>\<open>j\<close>: queue a job, unless its destination on a device is null.\<close>

definition job_for :: "TensorInfo \<Rightarrow> Region \<Rightarrow> nat \<Rightarrow> int \<Rightarrow> JobKind \<Rightarrow> Job" where
  "job_for t r off dev kind = \<lparr>jb_ti = t, jb_region = r, jb_at = off, jb_device = dev, jb_kind = kind,
     jb_bytes = ti_bytes t, jb_elems = ti_elems t\<rparr>"

definition push_job :: "Job \<Rightarrow> Loader \<Rightarrow> Loader" where
  "push_job jb L = L\<lparr>ld_jobs := ld_jobs L @ [jb]\<rparr>"

definition queue_job :: "TensorInfo \<Rightarrow> Region \<Rightarrow> int \<Rightarrow> JobKind \<Rightarrow> Loader \<Rightarrow> Loader" where
  "queue_job t r dev kind L = (if 0 \<le> dev \<and> r = NullPtr then L else push_job (job_for t r 0 dev kind) L)"

definition queue_group ::
  "bytes \<Rightarrow> TensorInfo \<Rightarrow> TensorInfo \<Rightarrow> TensorInfo \<Rightarrow> TensorInfo \<Rightarrow> nat \<Rightarrow> Loader \<Rightarrow> Loader" where
  "queue_group base tr su sv mu dev L =
     (let (pt, L) = alloc_dev (ti_bytes tr) dev L;
          (pu, L) = alloc_dev (ti_bytes su) dev L;
          (pv, L) = alloc_dev (ti_bytes sv) dev L;
          pm = HostWord (ld_words L);
          g = \<lparr>gw_trellis = pt, gw_suh = pu, gw_svh = pv, gw_mul1 = pm,
               gw_K = (if 2 < length (ti_shape tr) then ti_shape tr ! 2 div 16 else 0),
               gw_out = ti_elems sv, gw_in = ti_elems su\<rparr>;
          L = L\<lparr>ld_words := ld_words L + 1, ld_groups := ld_groups L @ [(base, g)],
                ld_crashed := (ld_crashed L \<or> length (ti_shape tr) < 3)\<rparr>
      in queue_job mu pm (-1) JobMul1 (queue_job sv pv (int dev) JobRaw
           (queue_job su pu (int dev) JobRaw (queue_job tr pt (int dev) JobRaw L))))"

definition load_group :: "ShardSet \<Rightarrow> bytes \<Rightarrow> nat \<Rightarrow> Loader \<Rightarrow> Loader" where
  "load_group S base dev L =
     (let (tr, L) = find_T S (base @ ''.trellis'') L;
          (su, L) = find_T S (base @ ''.suh'') L;
          (sv, L) = find_T S (base @ ''.svh'') L;
          (mu, L) = find_T S (base @ ''.mul1'') L
      in case (tr, su, sv, mu) of
           (Some tr, Some su, Some sv, Some mu) \<Rightarrow> queue_group base tr su sv mu dev L
         | _ \<Rightarrow> L)"

definition place_tensor :: "bytes \<Rightarrow> TensorInfo \<Rightarrow> nat \<Rightarrow> nat \<Rightarrow> JobKind \<Rightarrow> Loader \<Rightarrow> Loader" where
  "place_tensor name t sz dev kind L =
     (let (p, L) = alloc_dev sz dev L
      in queue_job t p (int dev) kind (L\<lparr>ld_ptrs := ld_ptrs L @ [(name, p)]\<rparr>))"

definition load_f16_from :: "ShardSet \<Rightarrow> bytes \<Rightarrow> nat \<Rightarrow> bool \<Rightarrow> Loader \<Rightarrow> Loader" where
  "load_f16_from S name dev bf16src L =
     (case find_T S name L of
        (None, L) \<Rightarrow> L
      | (Some t, L) \<Rightarrow> place_tensor name t (ti_bytes t) dev (if bf16src then JobBf16F16 else JobRaw) L)"

definition load_f32_from :: "ShardSet \<Rightarrow> bytes \<Rightarrow> nat \<Rightarrow> Loader \<Rightarrow> Loader" where
  "load_f32_from S name dev L =
     (case find_T S name L of
        (None, L) \<Rightarrow> L
      | (Some t, L) \<Rightarrow> place_tensor name t (ti_bytes t) dev JobRaw L)"

text \<open>The calls of a function body, in their order.\<close>

definition in_order :: "('s \<Rightarrow> 's) list \<Rightarrow> 's \<Rightarrow> 's" where
  "in_order fs s = fold (\<lambda>f s. f s) fs s"

definition load_attn :: "ShardSet \<Rightarrow> nat \<Rightarrow> AttnKind \<Rightarrow> Loader \<Rightarrow> Loader" where
  "load_attn S l kind L =
     (let p = layer_name l @ ''.self_attn''; ip = p @ ''.indexer'' in
      in_order
       (if kind = KDA then
         [load_group S (p @ ''.qkv_proj'') 0, load_group S (p @ ''.o_proj'') 0,
          load_f16_from S (p @ ''.conv1d.weight'') 0 True, load_f32_from S (p @ ''.A_log'') 0,
          load_f32_from S (p @ ''.dt_bias'') 0, load_f16_from S (p @ ''.f_a_proj.weight'') 0 False,
          load_f16_from S (p @ ''.f_b_proj.weight'') 0 False, load_f16_from S (p @ ''.g_a_proj.weight'') 0 False,
          load_f16_from S (p @ ''.g_b_proj.weight'') 0 False, load_f16_from S (p @ ''.b_proj.weight'') 0 False,
          load_f16_from S (p @ ''.o_norm.weight'') 0 True]
        else
         [load_group S (p @ ''.q_a_proj'') 0, load_group S (p @ ''.q_b_proj'') 0,
          load_group S (p @ ''.kv_a_proj_with_mqa'') 0, load_group S (p @ ''.o_proj'') 0,
          load_f16_from S (p @ ''.q_a_layernorm.weight'') 0 True,
          load_f16_from S (p @ ''.kv_a_layernorm.weight'') 0 True,
          load_f16_from S (p @ ''.kv_b_proj.weight'') 0 False,
          load_group S (ip @ ''.wq_b'') 0, load_f16_from S (ip @ ''.wk.weight'') 0 False,
          load_f16_from S (ip @ ''.weights_proj.weight'') 0 False, load_f16_from S (ip @ ''.k_norm.weight'') 0 False,
          load_f16_from S (ip @ ''.k_norm.bias'') 0 False,
          load_f16_from S (ip @ ''.index_kpool_compress_gate'') 0 False,
          load_f32_from S (ip @ ''.index_kpool_compress_ape'') 0]) L)"

definition load_router :: "ShardSet \<Rightarrow> bytes \<Rightarrow> Loader \<Rightarrow> Loader" where
  "load_router S p L =
     (let (gw, L) = find_T S (p @ ''.gate.weight'') L;
          (gb, L) = find_T S (p @ ''.gate.e_score_correction_bias'') L;
          L = (case gw of None \<Rightarrow> L | Some t \<Rightarrow> place_tensor (p @ ''.gate.weight'') t (ti_bytes t) 1 JobRaw L)
      in case gb of None \<Rightarrow> L
         | Some t \<Rightarrow> place_tensor (p @ ''.gate.e_score_correction_bias'') t (ti_elems t * 2) 1 JobRouterBias L)"

definition load_mlp :: "ShardSet \<Rightarrow> ArenaPlan \<Rightarrow> nat \<Rightarrow> bool \<Rightarrow> Loader \<Rightarrow> Loader" where
  "load_mlp S ap l moe L =
     (let p = layer_name l @ ''.mlp'' in
      in_order
       (if moe then
         [load_router S p, load_group S (p @ ''.shared_experts.gate_proj'') 0,
          load_group S (p @ ''.shared_experts.up_proj'') 0, load_group S (p @ ''.shared_experts.down_proj'') 0,
          (\<lambda>L. L\<lparr>ld_arena_layer := ld_arena_layer L @ [(l, ap_slot_base ap ! l)]\<rparr>)]
        else
         [load_group S (p @ ''.gate_proj'') 0, load_group S (p @ ''.up_proj'') 0,
          load_group S (p @ ''.down_proj'') 0]) L)"

text \<open>The lambda \<^verbatim>\<open>add\<close>: the tensor as it is, and a copy in half precision, queued without the check
  for a null destination.\<close>

definition place_both :: "bytes \<Rightarrow> TensorInfo \<Rightarrow> Loader \<Rightarrow> Loader" where
  "place_both name t L =
     (let (p32, L) = alloc_dev (ti_bytes t) 0 L;
          (p16, L) = alloc_dev (ti_elems t * 2) 0 L;
          L = L\<lparr>ld_ptrs := ld_ptrs L @ [(name, p32), (name @ ''16'', p16)]\<rparr>
      in push_job (job_for t p16 0 0 JobF32F16) (queue_job t p32 0 JobRaw L))"

definition add_hc :: "ShardSet \<Rightarrow> bytes \<Rightarrow> Loader \<Rightarrow> Loader" where
  "add_hc S name L =
     (case find_T S name L of
        (None, L) \<Rightarrow> L
      | (Some t, L) \<Rightarrow> place_both name t L)"

definition load_hc :: "ShardSet \<Rightarrow> bool \<Rightarrow> nat \<Rightarrow> Loader \<Rightarrow> Loader" where
  "load_hc S mhc l L =
     (let p = layer_name l in
      in_order
       ((if mhc then
          [add_hc S (p @ ''.hc_attn_fn''), add_hc S (p @ ''.hc_ffn_fn''),
           load_f32_from S (p @ ''.hc_attn_base'') 0, load_f32_from S (p @ ''.hc_ffn_base'') 0,
           load_f32_from S (p @ ''.hc_attn_scale'') 0, load_f32_from S (p @ ''.hc_ffn_scale'') 0]
         else []) @
        [load_f16_from S (p @ ''.input_layernorm.weight'') 0 True,
         load_f16_from S (p @ ''.post_attention_layernorm.weight'') 0 True]) L)"

definition lay_of :: "ArenaPlan \<Rightarrow> nat \<Rightarrow> ExpertLayout" where
  "lay_of ap l = (case ap_layouts ap ! l of
     Some lay \<Rightarrow> lay | None \<Rightarrow> \<lparr>lay_off = [], lay_piece = [], lay_bits = [], lay_stride = 0\<rparr>)"

definition load_piece :: "ShardSet \<Rightarrow> ArenaPlan \<Rightarrow> nat \<Rightarrow> nat \<Rightarrow> nat \<Rightarrow> Loader \<Rightarrow> Loader" where
  "load_piece S ap l e i L =
     (case find_T S (expert_base l e (i div 4) @ piece_suffix (i mod 4)) L of
        (None, L) \<Rightarrow> L
      | (Some t, L) \<Rightarrow>
          push_job ((job_for t Arena (slab_at ap l e + lay_off (lay_of ap l) ! i) (-1) JobRaw)\<lparr>jb_elems := 0\<rparr>) L)"

definition load_experts :: "ShardSet \<Rightarrow> ArenaPlan \<Rightarrow> nat \<Rightarrow> nat \<Rightarrow> Loader \<Rightarrow> Loader" where
  "load_experts S ap n_expert l L =
     in_order (concat (map (\<lambda>e. map (load_piece S ap l e) [0..<12]) [0..<n_expert])) L"

definition load_layer :: "ShardSet \<Rightarrow> Config \<Rightarrow> ArenaPlan \<Rightarrow> nat \<Rightarrow> Loader \<Rightarrow> Loader" where
  "load_layer S cf ap l L =
     in_order
       ([load_attn S l (cf_attn cf ! l), load_mlp S ap l (cf_moe cf ! l), load_hc S (cf_mhc cf) l] @
        (if cf_moe cf ! l then [load_experts S ap (cf_n_expert cf) l] else [])) L"

definition load_embed :: "ShardSet \<Rightarrow> Config \<Rightarrow> Loader \<Rightarrow> Loader" where
  "load_embed S cf L =
     (let (p, L) = alloc_dev (cf_vocab cf * cf_hidden cf * 2) 0 L;
          name = ''model.language_model.embed_tokens.weight'';
          L = L\<lparr>ld_ptrs := ld_ptrs L @ [(name, p)]\<rparr>
      in case find_T S name L of
           (None, L) \<Rightarrow> L
         | (Some t, L) \<Rightarrow> queue_job t p 0 JobRaw L)"

definition queue_model :: "ShardSet \<Rightarrow> Config \<Rightarrow> ArenaPlan \<Rightarrow> bool \<Rightarrow> Loader" where
  "queue_model S cf ap ro =
     in_order
       ((if ro then [] else
          [load_embed S cf, load_f16_from S ''model.language_model.norm.weight'' 0 True,
           load_group S ''lm_head'' 0]) @
        map (load_layer S cf ap) [0..<cf_n_layers cf]) (loader_new ro)"

section \<open>What every call of the queueing keeps\<close>

lemma find_T_eq:
  "find_T S n L = (find_tensor S n, if find_tensor S n = None then L\<lparr>ld_missing := ld_missing L + 1\<rparr> else L)"
  by (simp add: find_T_def split: option.split)

definition place_found ::
  "ShardSet \<Rightarrow> bytes \<Rightarrow> (TensorInfo \<Rightarrow> nat) \<Rightarrow> JobKind \<Rightarrow> Loader \<Rightarrow> Loader" where
  "place_found S n f kind L =
     (case find_tensor S n of None \<Rightarrow> L | Some t \<Rightarrow> place_tensor n t (f t) 1 kind L)"

lemma load_router_alt:
  fixes L :: Loader
  shows "\<exists>x. load_router S p L =
    place_found S (p @ ''.gate.e_score_correction_bias'') (\<lambda>t. ti_elems t * 2) JobRouterBias
      (place_found S (p @ ''.gate.weight'') ti_bytes JobRaw (L\<lparr>ld_missing := x\<rparr>))"
proof -
  define x where "x = ld_missing (if find_tensor S (p @ ''.gate.weight'') = None
      then L\<lparr>ld_missing := ld_missing L + 1\<rparr> else L) +
    (if find_tensor S (p @ ''.gate.e_score_correction_bias'') = None then 1 else 0)"
  show ?thesis
    by (rule exI [of _ x], cases "find_tensor S (p @ ''.gate.weight'')";
        cases "find_tensor S (p @ ''.gate.e_score_correction_bias'')")
      (simp_all add: load_router_def find_T_eq place_found_def x_def)
qed

definition piece_job :: "ShardSet \<Rightarrow> ArenaPlan \<Rightarrow> nat \<Rightarrow> nat \<Rightarrow> nat \<Rightarrow> Job" where
  "piece_job S ap l e i =
     (job_for (the (find_tensor S (expert_base l e (i div 4) @ piece_suffix (i mod 4)))) Arena
        (slab_at ap l e + lay_off (lay_of ap l) ! i) (-1) JobRaw)\<lparr>jb_elems := 0\<rparr>"

definition expert_jobs :: "ShardSet \<Rightarrow> ArenaPlan \<Rightarrow> nat \<Rightarrow> nat \<Rightarrow> Job list" where
  "expert_jobs S ap n_expert l = concat (map (\<lambda>e. map (piece_job S ap l e) [0..<12]) [0..<n_expert])"

text \<open>Every piece of every expert is in the checkpoint.\<close>

definition pieces_there :: "ShardSet \<Rightarrow> nat \<Rightarrow> nat \<Rightarrow> bool" where
  "pieces_there S n_expert l \<longleftrightarrow>
     (\<forall>e < n_expert. \<forall>i < 12. find_tensor S (expert_base l e (i div 4) @ piece_suffix (i mod 4)) \<noteq> None)"

definition layer_jobs :: "ShardSet \<Rightarrow> Config \<Rightarrow> ArenaPlan \<Rightarrow> nat \<Rightarrow> Job list" where
  "layer_jobs S cf ap l = (if cf_moe cf ! l then expert_jobs S ap (cf_n_expert cf) l else [])"

lemma concat_singles:
  "concat (concat (map (\<lambda>x. map (\<lambda>i. [f x i]) is) xs)) = concat (map (\<lambda>x. map (f x) is) xs)"
  by (induction xs) (simp_all add: concat_map_singleton)

text \<open>A property of functions on the loader's state that the allocating and queueing calls have holds of
  the whole: the bodies above only put those calls in a row.  It speaks of the arena jobs a
  function appends.\<close>

locale queueing =
  fixes S :: ShardSet
    and good :: "Job list \<Rightarrow> (Loader \<Rightarrow> Loader) \<Rightarrow> bool"
  assumes ordered: "list_all2 good jss fs \<Longrightarrow> good (concat jss) (in_order fs)"
    and by_state: "(\<And>L. \<exists>g. f L = g L \<and> good as g) \<Longrightarrow> good as f"
    and missed: "good [] (\<lambda>L. L\<lparr>ld_missing := x L\<rparr>)"
    and noted: "good [] (\<lambda>L. L\<lparr>ld_arena_layer := ls L\<rparr>)"
    and placed: "(kind = JobRaw \<or> kind = JobBf16F16) \<and> sz = ti_bytes t \<or> kind = JobRouterBias \<and> sz = ti_elems t * 2 \<Longrightarrow>
      good [] (place_tensor name t sz dev kind)"
    and placed_both: "good [] (place_both name t)"
    and grouped: "find_tensor S (base @ ''.trellis'') = Some tr \<Longrightarrow> find_tensor S (base @ ''.suh'') = Some su \<Longrightarrow>
      find_tensor S (base @ ''.svh'') = Some sv \<Longrightarrow> good [] (queue_group base tr su sv mu dev)"
    and embedded: "good [] (load_embed S cf)"
    and pushed: "good [piece_job S ap l e i] (push_job (piece_job S ap l e i))"
begin

lemma row: "\<forall>f \<in> set fs. good [] f \<Longrightarrow> good [] (in_order fs)"
proof -
  assume "\<forall>f \<in> set fs. good [] f"
  then have "list_all2 good (replicate (length fs) []) fs" by (simp add: list_all2_conv_all_nth)
  from ordered [OF this] show ?thesis by (simp add: concat_replicate_trivial)
qed

lemma after: "good [] f \<Longrightarrow> good [] g \<Longrightarrow> good [] (\<lambda>L. g (f L))"
  using row [of "[f, g]"] by (simp add: in_order_def [abs_def] comp_def)

lemma unchanged: "good [] (\<lambda>L. L)"
  using row [of "[]"] by (simp add: in_order_def [abs_def] id_def)

lemma load_group: "good [] (load_group S base dev)"
proof (rule by_state)
  fix L :: Loader
  show "\<exists>g. load_group S base dev L = g L \<and> good [] g"
  proof (cases "find_tensor S (base @ ''.trellis'') = None \<or> find_tensor S (base @ ''.suh'') = None \<or>
      find_tensor S (base @ ''.svh'') = None \<or> find_tensor S (base @ ''.mul1'') = None")
    case True
    then have "\<exists>x. load_group S base dev L = L\<lparr>ld_missing := x\<rparr>"
      by (auto simp: load_group_def find_T_eq split: option.split)
    then obtain x where "load_group S base dev L = (\<lambda>L. L\<lparr>ld_missing := x\<rparr>) L" by blast
    with missed [of "\<lambda>_. x"] show ?thesis by blast
  next
    case False
    then obtain tr su sv mu where f: "find_tensor S (base @ ''.trellis'') = Some tr"
      "find_tensor S (base @ ''.suh'') = Some su" "find_tensor S (base @ ''.svh'') = Some sv"
      "find_tensor S (base @ ''.mul1'') = Some mu" by auto
    then have "load_group S base dev L = queue_group base tr su sv mu dev L"
      by (simp add: load_group_def find_T_eq)
    with grouped [OF f(1-3)] show ?thesis by blast
  qed
qed

lemma if_found:
  assumes "\<And>t. find_tensor S n = Some t \<Longrightarrow> good [] (g t)"
  shows "good [] (\<lambda>L. case find_T S n L of (None, L) \<Rightarrow> L | (Some t, L) \<Rightarrow> g t L)"
  using assms missed by (cases "find_tensor S n") (simp_all add: find_T_eq)

lemma load_f16_from: "good [] (load_f16_from S name dev b)"
  unfolding load_f16_from_def by (rule if_found) (simp add: placed)

lemma load_f32_from: "good [] (load_f32_from S name dev)"
  unfolding load_f32_from_def by (rule if_found) (simp add: placed)

lemma add_hc: "good [] (add_hc S name)"
  unfolding add_hc_def by (rule if_found) (simp add: placed_both)

lemma load_router: "good [] (load_router S p)"
proof (rule by_state)
  fix L :: Loader
  let ?w = "place_found S (p @ ''.gate.weight'') ti_bytes JobRaw"
  let ?b = "place_found S (p @ ''.gate.e_score_correction_bias'') (\<lambda>t. ti_elems t * 2) JobRouterBias"
  obtain x where x: "load_router S p L = ?b (?w (L\<lparr>ld_missing := x\<rparr>))"
    using load_router_alt by blast
  have w: "good [] ?w"
    by (cases "find_tensor S (p @ ''.gate.weight'')") (simp_all add: place_found_def [abs_def] placed unchanged)
  have b: "good [] ?b"
    by (cases "find_tensor S (p @ ''.gate.e_score_correction_bias'')") (simp_all add: place_found_def [abs_def] placed unchanged)
  from after [OF after [OF missed w] b, of "\<lambda>_. x"]
  show "\<exists>g. load_router S p L = g L \<and> good [] g" using x by (intro exI conjI) (assumption, simp)
qed

lemma load_attn: "good [] (load_attn S l kind)"
  unfolding load_attn_def Let_def by (rule row) (auto simp: load_group load_f16_from load_f32_from)

lemma load_mlp: "good [] (load_mlp S ap l moe)"
  unfolding load_mlp_def Let_def by (rule row) (auto simp: load_group load_router noted)

lemma load_hc: "good [] (load_hc S mhc l)"
  unfolding load_hc_def Let_def by (rule row) (auto simp: add_hc load_f16_from load_f32_from)

lemma load_piece:
  assumes "find_tensor S (expert_base l e (i div 4) @ piece_suffix (i mod 4)) \<noteq> None"
  shows "good [piece_job S ap l e i] (load_piece S ap l e i)"
proof (rule by_state)
  fix L :: Loader
  obtain t where t: "find_tensor S (expert_base l e (i div 4) @ piece_suffix (i mod 4)) = Some t" using assms by blast
  have "load_piece S ap l e i L = push_job (piece_job S ap l e i) L"
    by (simp add: load_piece_def find_T_eq t piece_job_def)
  with pushed show "\<exists>g. load_piece S ap l e i L = g L \<and> good [piece_job S ap l e i] g" by blast
qed

lemma load_experts:
  assumes "pieces_there S n_expert l"
  shows "good (expert_jobs S ap n_expert l) (load_experts S ap n_expert l)"
proof -
  let ?is = "concat (map (\<lambda>e. map (Pair e) [0..<12]) [0..<n_expert])"
  have all: "\<forall>(e, i) \<in> set ?is. e < n_expert \<and> i < (12::nat)" by auto
  have "list_all2 good (map (\<lambda>(e, i). [piece_job S ap l e i]) ?is) (map (\<lambda>(e, i). load_piece S ap l e i) ?is)"
    unfolding list_all2_conv_all_nth
  proof (intro conjI allI impI)
    fix k assume "k < length (map (\<lambda>(e, i). [piece_job S ap l e i]) ?is)"
    then have k: "k < length ?is" by simp
    obtain e i where ei: "?is ! k = (e, i)" by (cases "?is ! k")
    then have "(e, i) \<in> set ?is" using k nth_mem by metis
    with all have "e < n_expert" "i < 12" by blast+
    with assms have "good [piece_job S ap l e i] (load_piece S ap l e i)"
      by (intro load_piece) (simp add: pieces_there_def)
    with ei k show "good (map (\<lambda>(e, i). [piece_job S ap l e i]) ?is ! k) (map (\<lambda>(e, i). load_piece S ap l e i) ?is ! k)"
      by (simp only: nth_map case_prod_conv)
  qed simp
  from ordered [OF this] show ?thesis
    by (simp add: expert_jobs_def load_experts_def [abs_def] map_concat comp_def concat_singles)
qed

lemma load_layer:
  assumes "cf_moe cf ! l \<Longrightarrow> pieces_there S (cf_n_expert cf) l"
  shows "good (layer_jobs S cf ap l) (load_layer S cf ap l)"
proof -
  have "list_all2 good ([[], [], []] @ (if cf_moe cf ! l then [layer_jobs S cf ap l] else []))
      ([load_attn S l (cf_attn cf ! l), load_mlp S ap l (cf_moe cf ! l), load_hc S (cf_mhc cf) l] @
        (if cf_moe cf ! l then [load_experts S ap (cf_n_expert cf) l] else []))"
    using assms by (simp add: load_attn load_mlp load_hc load_experts layer_jobs_def)
  from ordered [OF this] show ?thesis
    by (simp add: load_layer_def [abs_def] layer_jobs_def split: if_splits)
qed

text \<open>The whole of the queueing, when every piece of every expert is there.\<close>

lemma queue_model_good:
  assumes "\<And>l. l < cf_n_layers cf \<Longrightarrow> cf_moe cf ! l \<Longrightarrow> pieces_there S (cf_n_expert cf) l"
  shows "\<exists>f. queue_model S cf ap ro = f (loader_new ro) \<and>
    good (concat (map (layer_jobs S cf ap) [0..<cf_n_layers cf])) f"
proof -
  let ?first = "if ro then [] else
     [load_embed S cf, load_f16_from S ''model.language_model.norm.weight'' 0 True, load_group S ''lm_head'' 0]"
  have first: "list_all2 good (map (\<lambda>_. []) ?first) ?first"
    by (simp add: embedded load_f16_from load_group)
  have "list_all2 good (map (layer_jobs S cf ap) [0..<cf_n_layers cf]) (map (load_layer S cf ap) [0..<cf_n_layers cf])"
    using assms by (auto simp: list_all2_conv_all_nth intro!: load_layer)
  from ordered [OF list_all2_appendI [OF first this]]
  have "good (concat (map (layer_jobs S cf ap) [0..<cf_n_layers cf]))
      (in_order (?first @ map (load_layer S cf ap) [0..<cf_n_layers cf]))"
    by (simp split: if_splits)
  then show ?thesis unfolding queue_model_def by blast
qed

end

end
