(* ===== verification/Load_Model.thy ===== *)
theory Load_Model
  imports Loader
begin

text \<open>
  \<^verbatim>\<open>Loader::load\<close> as a whole (\<^verbatim>\<open>src/core/model.cpp\<close>): what is read and checked before anything is
  allocated, the run of the jobs, and the two verifications; and the theorem that a checkpoint
  whose tensors can be read and fit their buffers is loaded, every expert piece at its place in
  the arena, under every fair schedule of the loading threads.
\<close>

record LoadEnv =
  en_files :: "bytes \<Rightarrow> bytes option"
  en_parse :: "bytes \<Rightarrow> json option"
  en_listing :: "bytes \<Rightarrow> bytes list"
  en_short :: "nat \<Rightarrow> nat"
  en_mmap :: "nat \<Rightarrow> bool"
  en_free :: nat
  en_pool_used :: nat
  en_slots :: "int option"
  en_fo :: FloatOps
  en_garbage :: "Region \<Rightarrow> nat \<Rightarrow> char"

record Prepared =
  pr_shards :: ShardSet
  pr_cfg :: Config
  pr_plan :: ArenaPlan
  pr_loader :: Loader
  pr_slots :: nat

datatype load_result = Refused | Died load_error | Waiting | Ready Prepared Mem

text \<open>An exception of the guarded part is reported; undefined behaviour is not caught.\<close>

fun caught :: "load_error \<Rightarrow> load_result" where
  "caught (Throw m) = Refused"
| "caught Crash = Died Crash"

definition reader :: "LoadEnv \<Rightarrow> ShardSet \<Rightarrow> TensorInfo \<Rightarrow> load_error + bytes" where
  "reader env S = read_tensor (en_files env) (en_short env) S"

definition plan_arena :: "LoadEnv \<Rightarrow> ShardSet \<Rightarrow> Config \<Rightarrow> load_error + ArenaPlan" where
  "plan_arena env S cf =
     plan_layers (\<lambda>l. expert_layout S (reader env S) l (cf_n_expert cf) (cf_hidden cf) (cf_moe_inter cf))
       (cf_n_expert cf) (cf_moe cf) [0..<cf_n_layers cf] (plan_new (cf_n_layers cf))"

text \<open>The slots that fit beside four gigabytes kept free, or the number asked for.\<close>

definition slot_count :: "LoadEnv \<Rightarrow> nat \<Rightarrow> nat" where
  "slot_count env stride =
     (let free = en_free env - en_pool_used env;
          avail = (if free > 4 * 2 ^ 30 then free - 4 * 2 ^ 30 else 0)
      in case en_slots env of None \<Rightarrow> avail div stride | Some k \<Rightarrow> nat k)"

definition alloc_slots :: "LoadEnv \<Rightarrow> ArenaPlan \<Rightarrow> Loader \<Rightarrow> nat \<times> Loader" where
  "alloc_slots env ap L =
     (if ld_ram_only L then (0, L)
      else (let n = slot_count env (ap_slot_stride ap)
            in (n, snd (alloc_dev (n * ap_slot_stride ap) 1 L))))"

definition prepare_model :: "LoadEnv \<Rightarrow> ShardSet \<Rightarrow> Config \<Rightarrow> bool \<Rightarrow> load_result + Prepared" where
  "prepare_model env S cf ro =
     (case plan_arena env S cf of
        Inl e \<Rightarrow> Inl (caught e)
      | Inr ap \<Rightarrow>
          if ap_bytes ap = 0 \<or> \<not> en_mmap env (ap_bytes ap) then Inl Refused
          else (let (n, L) = alloc_slots env ap (queue_model S cf ap ro)
                in if ld_crashed L then Inl (Died Crash)
                   else if ld_missing L \<noteq> 0 then Inl Refused
                   else Inr \<lparr>pr_shards = S, pr_cfg = cf, pr_plan = ap, pr_loader = L, pr_slots = n\<rparr>))"

definition prepare :: "LoadEnv \<Rightarrow> bytes \<Rightarrow> bool \<Rightarrow> load_result + Prepared" where
  "prepare env dir ro =
     (case load_dir (en_files env) (en_parse env) (en_listing env) dir of
        Inl e \<Rightarrow> Inl (caught e)
      | Inr S \<Rightarrow>
         (case en_files env (dir @ ''/config.json'') of
            None \<Rightarrow> Inl Refused
          | Some content \<Rightarrow>
              (case en_parse env content of
                 None \<Rightarrow> Inl (Died (Throw ''config.json''))
               | Some c \<Rightarrow>
                   (case parse_config c of
                      Inl e \<Rightarrow> Inl (Died e)
                    | Inr cf \<Rightarrow> prepare_model env S cf ro))))"

text \<open>Large uploads first, then the arena, then the rest; in each class the large ones first.\<close>

definition job_key :: "Job \<Rightarrow> nat" where
  "job_key jb =
     (if jb_device jb = -1 then 1 else if jb_bytes jb > 16 * 2 ^ 20 then 0 else 2) * 2 ^ 64 +
     (2 ^ 64 - jb_bytes jb mod 2 ^ 64) mod 2 ^ 64"

definition sorted_jobs :: "Loader \<Rightarrow> Job list" where
  "sorted_jobs L = sort_key job_key (ld_jobs L)"

text \<open>The memory before the run: the arena is zero, device memory is whatever it was.\<close>

fun region_size :: "Prepared \<Rightarrow> Region \<Rightarrow> nat" where
  "region_size P Arena = ap_bytes (pr_plan P)"
| "region_size P (Device d k) = (if k < length (ld_gpu (pr_loader P) d) then ld_gpu (pr_loader P) d ! k else 0)"
| "region_size P (HostWord k) = 4"
| "region_size P NullPtr = 0"

fun start_mem :: "LoadEnv \<Rightarrow> Prepared \<Rightarrow> Mem" where
  "start_mem env P (Device d k) = map (en_garbage env (Device d k)) [0..<region_size P (Device d k)]"
| "start_mem env P r = replicate (region_size P r) CHR 0x00"

definition model_data :: "LoadEnv \<Rightarrow> Prepared \<Rightarrow> Job \<Rightarrow> load_error + bytes" where
  "model_data env P = job_data (en_fo env) (reader env (pr_shards P))"

section \<open>The verifications\<close>

definition sparse_layers :: "Prepared \<Rightarrow> nat list" where
  "sparse_layers P = filter (\<lambda>l. 0 \<le> ap_slot_base (pr_plan P) ! l) [0..<cf_n_layers (pr_cfg P)]"

text \<open>One sample, from four random numbers.\<close>

definition verify_piece :: "LoadEnv \<Rightarrow> Prepared \<Rightarrow> Mem \<Rightarrow> nat \<times> nat \<times> nat \<times> nat \<Rightarrow> load_error + bool" where
  "verify_piece env P m pick =
     (let (r1, r2, r3, r4) = pick;
          ls = sparse_layers P;
          l = ls ! (r1 mod length ls); e = r2 mod cf_n_expert (pr_cfg P); q = r3 mod 4; t = r4 mod 3
      in case find_tensor (pr_shards P) (expert_base l e t @ piece_suffix q) of
           None \<Rightarrow> Inr True
         | Some ti \<Rightarrow>
             bind_sum (reader env (pr_shards P) ti) (\<lambda>d.
               Inr (d = segment (slab_at (pr_plan P) l e + lay_off (lay_of (pr_plan P) l) ! (t * 4 + q))
                          (ti_bytes ti) (m Arena))))"

fun all_right :: "('a \<Rightarrow> load_error + bool) \<Rightarrow> 'a list \<Rightarrow> load_error + bool" where
  "all_right f [] = Inr True"
| "all_right f (x # xs) = bind_sum (f x) (\<lambda>b. bind_sum (all_right f xs) (\<lambda>c. Inr (b \<and> c)))"

definition verify_slabs :: "LoadEnv \<Rightarrow> Prepared \<Rightarrow> Mem \<Rightarrow> (nat \<times> nat \<times> nat \<times> nat) list \<Rightarrow> load_error + bool" where
  "verify_slabs env P m picks =
     (if sparse_layers P = [] then Inr True else all_right (verify_piece env P m) picks)"

definition group_names :: "Config \<Rightarrow> nat \<Rightarrow> bytes list" where
  "group_names cf l =
     (let p = layer_name l
      in (if cf_attn cf ! l = KDA then [p @ ''.self_attn.qkv_proj'', p @ ''.self_attn.o_proj'']
          else [p @ ''.self_attn.q_a_proj'', p @ ''.self_attn.q_b_proj'', p @ ''.self_attn.kv_a_proj_with_mqa'',
                p @ ''.self_attn.o_proj'', p @ ''.self_attn.indexer.wq_b'']) @
         (if cf_moe cf ! l then [p @ ''.mlp.shared_experts.gate_proj''] else [p @ ''.mlp.gate_proj'']))"

definition group_items :: "Loader \<Rightarrow> bytes \<Rightarrow> (bytes \<times> Region \<times> nat) list" where
  "group_items L n =
     (case map_of (ld_groups L) n of
        None \<Rightarrow> []
      | Some g \<Rightarrow> filter (\<lambda>(_, r, _). r \<noteq> NullPtr)
          [(n @ ''.trellis'', gw_trellis g, nat (int (gw_out g * gw_in g) * gw_K g div 8)),
           (n @ ''.suh'', gw_suh g, gw_in g * 2), (n @ ''.svh'', gw_svh g, gw_out g * 2)])"

definition verify_item :: "LoadEnv \<Rightarrow> Prepared \<Rightarrow> Mem \<Rightarrow> bytes \<times> Region \<times> nat \<Rightarrow> load_error + bool" where
  "verify_item env P m item =
     (let (n, r, sz) = item in
      case find_tensor (pr_shards P) n of
        None \<Rightarrow> Inr True
      | Some ti \<Rightarrow>
          (let k = min sz (ti_bytes ti)
           in if k = 0 then Inr True
              else if k < ti_bytes ti then Inl Crash
              else bind_sum (reader env (pr_shards P) ti) (\<lambda>d. Inr (take k (m r) = d))))"

definition verify_gpu_tensors :: "LoadEnv \<Rightarrow> Prepared \<Rightarrow> Mem \<Rightarrow> load_error + bool" where
  "verify_gpu_tensors env P m =
     all_right (verify_item env P m)
       (concat (map (group_items (pr_loader P))
          (concat (map (group_names (pr_cfg P)) [0..<cf_n_layers (pr_cfg P)]) @ [''lm_head''])))"

definition load_model ::
  "LoadEnv \<Rightarrow> (nat \<Rightarrow> nat \<Rightarrow> nat) \<Rightarrow> nat list \<Rightarrow> (nat \<times> nat \<times> nat \<times> nat) list \<Rightarrow> Prepared \<Rightarrow> bool \<Rightarrow> load_result" where
  "load_model env grain sched picks P ro =
     (let R = run_jobs (model_data env P) (sorted_jobs (pr_loader P)) grain sched (start_mem env P);
          m = rn_mem R
      in case rn_dead R of
           Some e \<Rightarrow> Died e
         | None \<Rightarrow>
             if rn_workers R \<noteq> replicate 16 Stopped then Waiting
             else (case verify_slabs env P m picks of
                     Inl e \<Rightarrow> Died e
                   | Inr b \<Rightarrow>
                       if \<not> b then Refused
                       else if ro then Ready P m
                       else (case verify_gpu_tensors env P m of
                               Inl e \<Rightarrow> Died e
                             | Inr b \<Rightarrow> if b then Ready P m else Refused)))"

definition load ::
  "LoadEnv \<Rightarrow> (nat \<Rightarrow> nat \<Rightarrow> nat) \<Rightarrow> nat list \<Rightarrow> (nat \<times> nat \<times> nat \<times> nat) list \<Rightarrow> bytes \<Rightarrow> bool \<Rightarrow> load_result" where
  "load env grain sched picks dir ro =
     (case prepare env dir ro of
        Inl r \<Rightarrow> r
      | Inr P \<Rightarrow> load_model env grain sched picks P ro)"

section \<open>What queueing does to the jobs\<close>

definition live :: "Loader \<Rightarrow> Region \<Rightarrow> bool" where
  "live L r \<longleftrightarrow> (case r of Device d k \<Rightarrow> k < length (ld_gpu L d) | HostWord k \<Rightarrow> k < ld_words L | _ \<Rightarrow> True)"

definition own_regions :: "Job list \<Rightarrow> Region list" where
  "own_regions jbs = filter (\<lambda>r. r \<noteq> Arena \<and> r \<noteq> NullPtr) (map jb_region jbs)"

definition regions_ok :: "Loader \<Rightarrow> bool" where
  "regions_ok L \<longleftrightarrow> distinct (own_regions (ld_jobs L)) \<and> (\<forall>r \<in> set (own_regions (ld_jobs L)). live L r)"

definition arena_jobs :: "Job list \<Rightarrow> Job list" where
  "arena_jobs jbs = filter (\<lambda>jb. jb_region jb = Arena) jbs"

definition group_parts :: "bytes \<Rightarrow> GroupW \<Rightarrow> (bytes \<times> Region) list" where
  "group_parts n g = [(n @ ''.trellis'', gw_trellis g), (n @ ''.suh'', gw_suh g), (n @ ''.svh'', gw_svh g)]"

definition part_queued :: "ShardSet \<Rightarrow> Loader \<Rightarrow> bytes \<times> Region \<Rightarrow> bool" where
  "part_queued S L p \<longleftrightarrow> snd p = NullPtr \<or>
     (\<exists>t dev. find_tensor S (fst p) = Some t \<and> job_for t (snd p) 0 dev JobRaw \<in> set (ld_jobs L))"

definition groups_ok :: "ShardSet \<Rightarrow> Loader \<Rightarrow> bool" where
  "groups_ok S L \<longleftrightarrow> (\<forall>(n, g) \<in> set (ld_groups L). \<forall>p \<in> set (group_parts n g). part_queued S L p)"

definition queues :: "ShardSet \<Rightarrow> Job list \<Rightarrow> (Loader \<Rightarrow> Loader) \<Rightarrow> bool" where
  "queues S jbs f \<longleftrightarrow> (\<forall>L. (regions_ok L \<longrightarrow> regions_ok (f L)) \<and> (groups_ok S L \<longrightarrow> groups_ok S (f L)) \<and>
     arena_jobs (ld_jobs (f L)) = arena_jobs (ld_jobs L) @ jbs)"

lemma queues_in_order: "list_all2 (queues S) jss fs \<Longrightarrow> queues S (concat jss) (in_order fs)"
proof (induction rule: list_all2_induct)
  case Nil
  then show ?case by (simp add: queues_def in_order_def)
next
  case (Cons js jss f fs)
  then show ?case by (simp add: queues_def in_order_def)
qed

lemma queued_append: "part_queued S L p \<Longrightarrow> set (ld_jobs L) \<subseteq> set (ld_jobs L') \<Longrightarrow> part_queued S L' p"
  by (auto simp: part_queued_def)

lemma own_regions_append [simp]: "own_regions (as @ bs) = own_regions as @ own_regions bs"
  by (simp add: own_regions_def)

lemma arena_jobs_append [simp]: "arena_jobs (as @ bs) = arena_jobs as @ arena_jobs bs"
  by (simp add: arena_jobs_def)

lemma jobs_one [simp]:
  "own_regions (jb # jbs) =
     (if jb_region jb = Arena \<or> jb_region jb = NullPtr then own_regions jbs else jb_region jb # own_regions jbs)"
  "arena_jobs (jb # jbs) = (if jb_region jb = Arena then jb # arena_jobs jbs else arena_jobs jbs)"
  "own_regions [] = []" "arena_jobs [] = []"
  by (simp_all add: own_regions_def arena_jobs_def)

lemma job_for_region [simp]: "jb_region (job_for t r off dev k) = r"
  by (simp add: job_for_def)

text \<open>A call that allocates, notes pointers and groups, and appends jobs to fresh regions.\<close>

lemma queuesI:
  assumes "\<And>L. \<exists>jbs. ld_jobs (f L) = ld_jobs L @ jbs \<and> (\<forall>r. live L r \<longrightarrow> live (f L) r) \<and>
      distinct (own_regions jbs) \<and> (\<forall>r \<in> set (own_regions jbs). live (f L) r \<and> \<not> live L r) \<and> arena_jobs jbs = as \<and>
      (\<exists>gs. ld_groups (f L) = ld_groups L @ gs \<and> (\<forall>(n, g) \<in> set gs. \<forall>p \<in> set (group_parts n g). part_queued S (f L) p))"
  shows "queues S as f"
  unfolding queues_def
proof (intro allI conjI impI)
  fix L
  from assms [of L] obtain jbs gs where f: "ld_jobs (f L) = ld_jobs L @ jbs" "\<And>r. live L r \<Longrightarrow> live (f L) r"
    "distinct (own_regions jbs)" "\<And>r. r \<in> set (own_regions jbs) \<Longrightarrow> live (f L) r \<and> \<not> live L r" "arena_jobs jbs = as"
    "ld_groups (f L) = ld_groups L @ gs" "\<forall>(n, g) \<in> set gs. \<forall>p \<in> set (group_parts n g). part_queued S (f L) p"
    by blast
  show "arena_jobs (ld_jobs (f L)) = arena_jobs (ld_jobs L) @ as" using f(1,5) by simp
  show "regions_ok (f L)" if "regions_ok L" using that f(1-4) by (auto simp: regions_ok_def)
  show "groups_ok S (f L)" if "groups_ok S L"
  proof -
    have "part_queued S (f L) p" if "part_queued S L p" for p using queued_append [OF that] f(1) by auto
    with that f(6,7) show ?thesis unfolding groups_ok_def by fastforce
  qed
qed

lemma queues_plain:
  assumes "\<And>L. ld_jobs (f L) = ld_jobs L" "\<And>L r. live L r \<Longrightarrow> live (f L) r" "\<And>L. ld_groups (f L) = ld_groups L"
  shows "queues S [] f"
  by (rule queuesI) (use assms in simp)

lemma queues_cases:
  assumes "\<And>L. \<exists>g. f L = g L \<and> queues S as g"
  shows "queues S as f"
  using assms unfolding queues_def by metis

lemma live_simps [simp]:
  "live (L\<lparr>ld_missing := x\<rparr>) r = live L r" "live (L\<lparr>ld_ptrs := y\<rparr>) r = live L r"
  "live (L\<lparr>ld_jobs := z\<rparr>) r = live L r" "live (L\<lparr>ld_groups := gs\<rparr>) r = live L r"
  "live (L\<lparr>ld_crashed := b\<rparr>) r = live L r" "live (L\<lparr>ld_arena_layer := as\<rparr>) r = live L r"
  by (simp_all add: live_def split: Region.split)

lemma queues_place: "queues S [] (place_tensor name t sz dev kind)"
  by (rule queuesI)
    (auto simp: place_tensor_def alloc_dev_def queue_job_def push_job_def live_def split: Region.splits)

lemma queues_missing: "queues S [] (\<lambda>L. L\<lparr>ld_missing := x L\<rparr>)"
  by (rule queues_plain) simp_all

lemma queues_group:
  assumes "find_tensor S (base @ ''.trellis'') = Some tr" "find_tensor S (base @ ''.suh'') = Some su"
    "find_tensor S (base @ ''.svh'') = Some sv"
  shows "queues S [] (queue_group base tr su sv mu dev)"
  by (rule queuesI)
    (use assms in \<open>auto simp: queue_group_def alloc_dev_def queue_job_def push_job_def live_def Let_def
       group_parts_def part_queued_def split: Region.splits\<close>)

lemma piece_job_simps [simp]:
  "jb_region (piece_job S ap l e i) = Arena"
  "jb_at (piece_job S ap l e i) = slab_at ap l e + lay_off (lay_of ap l) ! i"
  "jb_kind (piece_job S ap l e i) = JobRaw" "jb_device (piece_job S ap l e i) = -1"
  by (simp_all add: piece_job_def job_for_def)

lemma queues_both: "queues S [] (place_both name t)"
  by (rule queuesI)
    (auto simp: place_both_def alloc_dev_def queue_job_def push_job_def live_def Let_def split: Region.splits)

lemma queues_embed: "queues S [] (load_embed S cf)"
  by (rule queuesI)
    (auto simp: load_embed_def alloc_dev_def queue_job_def push_job_def live_def Let_def find_T_eq
       split: Region.splits option.splits)

interpretation placing: queueing S "queues S"
proof
  show "list_all2 (queues S) jss fs \<Longrightarrow> queues S (concat jss) (in_order fs)" for jss fs
    by (rule queues_in_order)
  show "(\<And>L. \<exists>g. f L = g L \<and> queues S as g) \<Longrightarrow> queues S as f" for f as
    by (rule queues_cases)
  show "queues S [piece_job S ap l e i] (push_job (piece_job S ap l e i))" for ap l e i
    by (rule queuesI) (simp add: push_job_def)
qed (simp_all add: queues_place queues_both queues_group queues_embed queues_plain queues_missing)

text \<open>What the whole of the queueing leaves.\<close>

lemma queue_model_ok:
  fixes ap :: ArenaPlan and ro :: bool
  assumes "\<And>l. l < cf_n_layers cf \<Longrightarrow> cf_moe cf ! l \<Longrightarrow> pieces_there S (cf_n_expert cf) l"
  defines "L \<equiv> queue_model S cf ap ro"
  shows "regions_ok L" and "groups_ok S L"
    and "arena_jobs (ld_jobs L) = concat (map (layer_jobs S cf ap) [0..<cf_n_layers cf])"
proof -
  have start: "regions_ok (loader_new ro)" "groups_ok S (loader_new ro)" "ld_jobs (loader_new ro) = []"
    by (simp_all add: loader_new_def regions_ok_def groups_ok_def)
  obtain f where "L = f (loader_new ro)" "queues S (concat (map (layer_jobs S cf ap) [0..<cf_n_layers cf])) f"
    using placing.queue_model_good [where cf = cf and ap = ap and ro = ro, OF assms(1)] unfolding L_def by blast
  with start show "regions_ok L" "groups_ok S L"
      "arena_jobs (ld_jobs L) = concat (map (layer_jobs S cf ap) [0..<cf_n_layers cf])"
    by (simp_all add: queues_def)
qed

section \<open>The planned arena\<close>

text \<open>A plan with the layout of each sparse layer, and of no other.\<close>

definition planned :: "LoadEnv \<Rightarrow> ShardSet \<Rightarrow> Config \<Rightarrow> ArenaPlan \<Rightarrow> bool" where
  "planned env S cf ap \<longleftrightarrow> plan_ok (cf_n_expert cf) ap \<and> length (ap_layouts ap) = cf_n_layers cf \<and>
     (\<forall>l < cf_n_layers cf.
        (if cf_moe cf ! l
         then \<exists>lay. expert_layout S (reader env S) l (cf_n_expert cf) (cf_hidden cf) (cf_moe_inter cf) = Inr lay \<and>
                ap_layouts ap ! l = Some lay
         else ap_layouts ap ! l = None) \<and>
        (0 \<le> ap_slot_base ap ! l \<longleftrightarrow> ap_layouts ap ! l \<noteq> None))"

definition slots_match :: "ArenaPlan \<Rightarrow> bool" where
  "slots_match ap \<longleftrightarrow> length (ap_slot_base ap) = length (ap_layouts ap) \<and>
     (\<forall>l < length (ap_layouts ap). 0 \<le> ap_slot_base ap ! l \<longleftrightarrow> ap_layouts ap ! l \<noteq> None)"

lemma plan_layers_slots:
  "plan_layers layout n moe ls ap = Inr ap' \<Longrightarrow> slots_match ap \<Longrightarrow> slots_match ap'"
proof (induction ls arbitrary: ap)
  case (Cons l ls)
  show ?case
  proof (cases "moe ! l")
    case True
    with Cons.prems(1) obtain lay where p: "plan_layers layout n moe ls (plan_add n l lay ap) = Inr ap'"
      by (auto simp: bind_sum_Inr)
    have "slots_match (plan_add n l lay ap)"
      using Cons.prems(2)
      by (cases "l < length (ap_layouts ap)") (auto simp: slots_match_def plan_add_def nth_list_update)
    with Cons.IH [OF p] show ?thesis .
  next
    case False
    with Cons show ?thesis by simp
  qed
qed simp

lemma plan_arena_ok:
  assumes "plan_arena env S cf = Inr ap"
  shows "planned env S cf ap"
proof -
  let ?n = "cf_n_layers cf"
  note p = assms [unfolded plan_arena_def]
  have new: "plan_ok (cf_n_expert cf) (plan_new ?n)" "slots_match (plan_new ?n)" "length (ap_layouts (plan_new ?n)) = ?n"
    "\<forall>l \<in> set [0..<?n]. l < length (ap_layouts (plan_new ?n)) \<and> ap_layouts (plan_new ?n) ! l = None"
    by (simp_all add: plan_new_def plan_ok_def slots_match_def)
  have "plan_ok (cf_n_expert cf) ap \<and> length (ap_layouts ap) = length (ap_layouts (plan_new ?n))"
    by (rule plan_layers_ok [OF p new(1)]) (use new(4) in blast)
  moreover have "slots_match ap" by (rule plan_layers_slots [OF p new(2)])
  moreover have "if cf_moe cf ! l
      then \<exists>lay. expert_layout S (reader env S) l (cf_n_expert cf) (cf_hidden cf) (cf_moe_inter cf) = Inr lay \<and>
             ap_layouts ap ! l = Some lay
      else ap_layouts ap ! l = None" if "l < ?n" for l
    by (rule plan_layers_has [OF p distinct_upt new(4)]) (use that in simp)
  ultimately show ?thesis using new(3) by (simp add: planned_def slots_match_def)
qed

text \<open>A piece of a planned layer: its tensor, its size, where the slab has it.\<close>

lemma planned_piece:
  assumes P: "planned env S cf ap" and l: "l < cf_n_layers cf" "cf_moe cf ! l" and e: "e < cf_n_expert cf" and i: "i < 12"
  obtains t where "find_tensor S (expert_base l e (i div 4) @ piece_suffix (i mod 4)) = Some t"
    and "ti_bytes t = lay_piece (lay_of ap l) ! i" and "jb_ti (piece_job S ap l e i) = t"
proof -
  from P l obtain lay where lay: "expert_layout S (reader env S) l (cf_n_expert cf) (cf_hidden cf) (cf_moe_inter cf) = Inr lay"
    "ap_layouts ap ! l = Some lay" by (auto simp: planned_def)
  have "i div 4 < 3" "i mod 4 < 4" "4 * (i div 4) + i mod 4 = i" using i by auto
  with expert_layout_ok(3) [OF lay(1) e] obtain t where
    "find_tensor S (expert_base l e (i div 4) @ piece_suffix (i mod 4)) = Some t" "ti_bytes t = lay_piece lay ! i"
    unfolding proj_ok_def by metis
  with lay(2) that [of t] show thesis by (simp add: lay_of_def piece_job_def job_for_def)
qed

lemma planned_there:
  "planned env S cf ap \<Longrightarrow> l < cf_n_layers cf \<Longrightarrow> cf_moe cf ! l \<Longrightarrow> pieces_there S (cf_n_expert cf) l"
  unfolding pieces_there_def by (metis planned_piece option.distinct(1))

lemma planned_offsets:
  assumes P: "planned env S cf ap" and l: "l < cf_n_layers cf" "cf_moe cf ! l"
  shows "length (lay_piece (lay_of ap l)) = 12"
    and "(lay_off (lay_of ap l), lay_stride (lay_of ap l)) = layout_loop (lay_piece (lay_of ap l)) 0 0"
    and "ap_layouts ap ! l = Some (lay_of ap l)"
proof -
  from P l obtain lay where lay: "expert_layout S (reader env S) l (cf_n_expert cf) (cf_hidden cf) (cf_moe_inter cf) = Inr lay"
    "ap_layouts ap ! l = Some lay" by (auto simp: planned_def)
  then show "length (lay_piece (lay_of ap l)) = 12"
    "(lay_off (lay_of ap l), lay_stride (lay_of ap l)) = layout_loop (lay_piece (lay_of ap l)) 0 0"
    "ap_layouts ap ! l = Some (lay_of ap l)"
    using expert_layout_ok(1,2) [OF lay(1)] by (simp_all add: lay_of_def)
qed

text \<open>The interval of a piece in the arena.\<close>

abbreviation piece_at :: "ArenaPlan \<Rightarrow> nat \<Rightarrow> nat \<Rightarrow> nat \<Rightarrow> nat" where
  "piece_at ap l e i \<equiv> slab_at ap l e + lay_off (lay_of ap l) ! i"

abbreviation piece_len :: "ArenaPlan \<Rightarrow> nat \<Rightarrow> nat \<Rightarrow> nat" where
  "piece_len ap l i \<equiv> lay_piece (lay_of ap l) ! i"

lemma piece_in_slab:
  assumes P: "planned env S cf ap" "l < cf_n_layers cf" "cf_moe cf ! l" and i: "i < 12"
  shows "lay_off (lay_of ap l) ! i + piece_len ap l i \<le> lay_stride (lay_of ap l)"
    and "j < i \<Longrightarrow> lay_off (lay_of ap l) ! j + piece_len ap l j \<le> lay_off (lay_of ap l) ! i"
proof -
  note o = planned_offsets [OF P]
  have off: "lay_off (lay_of ap l) = fst (layout_loop (lay_piece (lay_of ap l)) 0 0)"
    "lay_stride (lay_of ap l) = snd (layout_loop (lay_piece (lay_of ap l)) 0 0)"
    using o(2) by (metis fst_conv, metis snd_conv)
  show "lay_off (lay_of ap l) ! i + piece_len ap l i \<le> lay_stride (lay_of ap l)"
    unfolding off by (rule layout_bounds [THEN conjunct2]) (use i o(1) in simp)
  show "lay_off (lay_of ap l) ! j + piece_len ap l j \<le> lay_off (lay_of ap l) ! i" if "j < i"
    unfolding off by (rule layout_ordered [OF that]) (use i o(1) in simp)
qed

lemma slab_end:
  assumes "ap_layouts ap ! l = Some (lay_of ap l)"
  shows "slab_at ap l e = ap_byte_base ap ! l + e * lay_stride (lay_of ap l)"
    and "e < n \<Longrightarrow> slab_at ap l e + lay_stride (lay_of ap l) \<le> ap_byte_base ap ! l + n * lay_stride (lay_of ap l)"
    and "e < e' \<Longrightarrow> slab_at ap l e + lay_stride (lay_of ap l) \<le> slab_at ap l e'"
proof -
  show at: "slab_at ap l e = ap_byte_base ap ! l + e * lay_stride (lay_of ap l)" for e
    by (simp add: slab_at_def assms)
  have m: "e * lay_stride (lay_of ap l) + lay_stride (lay_of ap l) \<le> n * lay_stride (lay_of ap l)" if "e < n" for n
  proof -
    have "(e + 1) * lay_stride (lay_of ap l) \<le> n * lay_stride (lay_of ap l)" using that by (intro mult_le_mono1) simp
    then show ?thesis by simp
  qed
  show "e < n \<Longrightarrow> slab_at ap l e + lay_stride (lay_of ap l) \<le> ap_byte_base ap ! l + n * lay_stride (lay_of ap l)"
    using m [of n] at [of e] by simp
  show "e < e' \<Longrightarrow> slab_at ap l e + lay_stride (lay_of ap l) \<le> slab_at ap l e'"
    using m [of e'] at [of e] at [of e'] by simp
qed

text \<open>Two pieces never share a byte, and every piece lies in the arena.\<close>

lemma pieces_disjoint:
  assumes P: "planned env S cf ap"
    and a: "l < cf_n_layers cf" "cf_moe cf ! l" "e < cf_n_expert cf" "i < 12"
    and b: "l' < cf_n_layers cf" "cf_moe cf ! l'" "e' < cf_n_expert cf" "i' < 12"
    and ne: "(l, e, i) \<noteq> (l', e', i')"
  shows "piece_at ap l e i + piece_len ap l i \<le> piece_at ap l' e' i' \<or>
    piece_at ap l' e' i' + piece_len ap l' i' \<le> piece_at ap l e i"
proof -
  note la = planned_offsets(3) [OF P a(1,2)] and lb = planned_offsets(3) [OF P b(1,2)]
  have ina: "piece_at ap l e i + piece_len ap l i \<le> slab_at ap l e + lay_stride (lay_of ap l)"
    using piece_in_slab(1) [OF P a(1,2,4)] by simp
  have inb: "piece_at ap l' e' i' + piece_len ap l' i' \<le> slab_at ap l' e' + lay_stride (lay_of ap l')"
    using piece_in_slab(1) [OF P b(1,2,4)] by simp
  consider "l \<noteq> l'" | "l = l'" "e < e'" | "l = l'" "e' < e" | "l = l'" "e = e'" "i < i'" | "l = l'" "e = e'" "i' < i"
    using ne by (metis linorder_neqE_nat)
  then show ?thesis
  proof cases
    case 1
    have "ap_byte_base ap ! l + cf_n_expert cf * lay_stride (lay_of ap l) \<le> ap_byte_base ap ! l' \<or>
        ap_byte_base ap ! l' + cf_n_expert cf * lay_stride (lay_of ap l') \<le> ap_byte_base ap ! l"
      using P a(1) b(1) 1 la lb unfolding planned_def plan_ok_def by metis
    moreover have "ap_byte_base ap ! l \<le> slab_at ap l e" "ap_byte_base ap ! l' \<le> slab_at ap l' e'"
      using slab_end(1) [OF la] slab_end(1) [OF lb] by simp_all
    ultimately show ?thesis
      using ina inb slab_end(2) [OF la a(3)] slab_end(2) [OF lb b(3)] by linarith
  next
    case 2
    then show ?thesis using ina slab_end(3) [OF la 2(2)] by simp
  next
    case 3
    then show ?thesis using inb slab_end(3) [OF la 3(2)] by simp
  next
    case 4
    then show ?thesis using piece_in_slab(2) [OF P a(1,2) b(4), of i] by simp
  next
    case 5
    then show ?thesis using piece_in_slab(2) [OF P a(1,2,4), of i'] by simp
  qed
qed

lemma piece_in_arena:
  assumes P: "planned env S cf ap" and a: "l < cf_n_layers cf" "cf_moe cf ! l" "e < cf_n_expert cf" "i < 12"
  shows "piece_at ap l e i + piece_len ap l i \<le> ap_bytes ap"
proof -
  note la = planned_offsets(3) [OF P a(1,2)]
  have "ap_byte_base ap ! l + cf_n_expert cf * lay_stride (lay_of ap l) \<le> ap_bytes ap"
    using P a(1) la unfolding planned_def plan_ok_def by metis
  with slab_end(2) [OF la a(3)] piece_in_slab(1) [OF P a(1,2,4)] show ?thesis by simp
qed

section \<open>The queued jobs can be run\<close>

lemma apart_sym: "apart data a b \<Longrightarrow> apart data b a"
  by (auto simp: apart_def)

lemma sorted_wrt_concat_map:
  "\<forall>x \<in> set xs. sorted_wrt P (f x) \<Longrightarrow> sorted_wrt (\<lambda>x y. \<forall>a \<in> set (f x). \<forall>b \<in> set (f y). P a b) xs \<Longrightarrow>
     sorted_wrt P (concat (map f xs))"
  by (induction xs) (auto simp: sorted_wrt_append)

lemma sorted_wrt_upto: "(\<And>x y. x < y \<Longrightarrow> y < n \<Longrightarrow> Q x y) \<Longrightarrow> sorted_wrt Q [0..<n]"
  by (simp add: sorted_wrt_iff_nth_less)

lemma sorted_wrt_perm:
  assumes "\<And>a b. P a b \<Longrightarrow> P b a" and "sorted_wrt P xs" and "mset xs = mset ys"
  shows "sorted_wrt P ys"
  using assms(2,3)
proof (induction xs arbitrary: ys)
  case (Cons x xs)
  then have "x \<in> set ys" by (metis list.set_intros(1) mset_eq_setD)
  then obtain as bs where ys: "ys = as @ x # bs" by (auto simp: in_set_conv_decomp)
  with Cons.prems(2) have m: "mset xs = mset (as @ bs)" by simp
  with Cons have "sorted_wrt P (as @ bs)" by simp
  moreover have "\<forall>y \<in> set (as @ bs). P x y" using Cons.prems(1) mset_eq_setD [OF m] by simp
  ultimately show ?case using assms(1) by (auto simp: ys sorted_wrt_append)
qed simp

lemma jobs_apart:
  "distinct (own_regions js) \<Longrightarrow> sorted_wrt (apart data) (arena_jobs js) \<Longrightarrow> sorted_wrt (apart data) js"
proof (induction js)
  case (Cons jb js)
  have "apart data jb y" if y: "y \<in> set js" for y
  proof (cases "jb_region jb = Arena")
    case True
    with Cons.prems(2) y show ?thesis
      by (cases "jb_region y = Arena") (auto simp: arena_jobs_def apart_def)
  next
    case False
    show ?thesis
    proof (cases "jb_region jb = NullPtr")
      case False
      with \<open>jb_region jb \<noteq> Arena\<close> Cons.prems(1) y have "jb_region jb \<noteq> jb_region y"
        by (auto simp: own_regions_def)
      then show ?thesis by (simp add: apart_def)
    qed (simp add: apart_def)
  qed
  with Cons show ?case by (simp split: if_splits)
qed simp

text \<open>Reading gives as many bytes as the tensor has.\<close>

lemma read_length: "read_tensor fs short S t = Inr d \<Longrightarrow> length d = ti_bytes t"
  by (auto simp: read_tensor_exact tensor_bytes_def Let_def split: option.splits if_splits)

lemma raw_data:
  assumes "jb_kind jb = JobRaw" and "reader env (pr_shards P) (jb_ti jb) = Inr d"
  shows "model_data env P jb = Inr d" and "dat (model_data env P) jb = d" and "length d = ti_bytes (jb_ti jb)"
    and "tensor_bytes (en_files env) (pr_shards P) (jb_ti jb) = Some d"
proof -
  show "length d = ti_bytes (jb_ti jb)" "tensor_bytes (en_files env) (pr_shards P) (jb_ti jb) = Some d"
    using read_length read_tensor_exact assms(2) unfolding reader_def by blast+
  show m: "model_data env P jb = Inr d" using assms by (simp add: model_data_def job_data_def)
  show "dat (model_data env P) jb = d" by (simp add: dat_def m)
qed

lemma raw_data_le:
  assumes "jb_kind jb = JobRaw"
  shows "length (dat (model_data env P) jb) \<le> ti_bytes (jb_ti jb)"
proof (cases "reader env (pr_shards P) (jb_ti jb)")
  case (Inl e)
  then show ?thesis by (simp add: model_data_def job_data_def dat_def)
next
  case (Inr d)
  with raw_data(2,3) [OF assms Inr] show ?thesis by simp
qed

lemma pieces_apart:
  assumes P: "planned env (pr_shards P) cf ap"
    and a: "l < cf_n_layers cf" "cf_moe cf ! l" "e < cf_n_expert cf" "i < 12"
    and b: "l' < cf_n_layers cf" "cf_moe cf ! l'" "e' < cf_n_expert cf" "i' < 12"
    and ne: "(l, e, i) \<noteq> (l', e', i')"
  shows "apart (model_data env P) (piece_job (pr_shards P) ap l e i) (piece_job (pr_shards P) ap l' e' i')"
proof -
  obtain t where t: "ti_bytes t = piece_len ap l i" "jb_ti (piece_job (pr_shards P) ap l e i) = t"
    by (rule planned_piece [OF P a])
  obtain t' where t': "ti_bytes t' = piece_len ap l' i'" "jb_ti (piece_job (pr_shards P) ap l' e' i') = t'"
    by (rule planned_piece [OF P b])
  show ?thesis
    using pieces_disjoint [OF P a b ne] t t' raw_data_le [of "piece_job (pr_shards P) ap l e i" env P]
      raw_data_le [of "piece_job (pr_shards P) ap l' e' i'" env P]
    by (auto simp: apart_def)
qed

lemma layer_jobs_set:
  "jb \<in> set (layer_jobs S cf ap l) \<longleftrightarrow>
     cf_moe cf ! l \<and> (\<exists>e < cf_n_expert cf. \<exists>i < 12. jb = piece_job S ap l e i)"
  by (fastforce simp: layer_jobs_def expert_jobs_def)

lemma arena_apart:
  assumes P: "planned env (pr_shards P) cf ap"
  shows "sorted_wrt (apart (model_data env P)) (concat (map (layer_jobs (pr_shards P) cf ap) [0..<cf_n_layers cf]))"
proof (rule sorted_wrt_concat_map)
  show "sorted_wrt (\<lambda>x y. \<forall>a \<in> set (layer_jobs (pr_shards P) cf ap x). \<forall>b \<in> set (layer_jobs (pr_shards P) cf ap y).
      apart (model_data env P) a b) [0..<cf_n_layers cf]"
    by (rule sorted_wrt_upto) (auto simp: layer_jobs_set intro!: pieces_apart [OF P])
  show "\<forall>l \<in> set [0..<cf_n_layers cf]. sorted_wrt (apart (model_data env P)) (layer_jobs (pr_shards P) cf ap l)"
  proof
    fix l assume "l \<in> set [0..<cf_n_layers cf]"
    then have l: "l < cf_n_layers cf" by simp
    show "sorted_wrt (apart (model_data env P)) (layer_jobs (pr_shards P) cf ap l)"
    proof (cases "cf_moe cf ! l")
      case True
      have "sorted_wrt (apart (model_data env P)) (expert_jobs (pr_shards P) ap (cf_n_expert cf) l)"
        unfolding expert_jobs_def
      proof (rule sorted_wrt_concat_map)
        show "\<forall>e \<in> set [0..<cf_n_expert cf].
            sorted_wrt (apart (model_data env P)) (map (piece_job (pr_shards P) ap l e) [0..<12])"
          unfolding sorted_wrt_map
          by (intro ballI sorted_wrt_upto pieces_apart [OF P l True _ _ l True]) simp_all
        show "sorted_wrt (\<lambda>x y. \<forall>a \<in> set (map (piece_job (pr_shards P) ap l x) [0..<12]).
            \<forall>b \<in> set (map (piece_job (pr_shards P) ap l y) [0..<12]). apart (model_data env P) a b) [0..<cf_n_expert cf]"
          by (rule sorted_wrt_upto) (auto intro!: pieces_apart [OF P l True _ _ l True])
      qed
      with True show ?thesis by (simp add: layer_jobs_def)
    qed (simp add: layer_jobs_def)
  qed
qed

text \<open>What the code does not check before it runs the jobs: that every tensor can be read from its
  shard, and that what goes to a device or a weight struct is no larger than its buffer.\<close>

definition loadable :: "LoadEnv \<Rightarrow> Prepared \<Rightarrow> bool" where
  "loadable env P \<longleftrightarrow> (\<forall>jb \<in> set (ld_jobs (pr_loader P)).
     (\<exists>d. reader env (pr_shards P) (jb_ti jb) = Inr d) \<and>
     (jb_region jb \<noteq> Arena \<longrightarrow> fits (model_data env P) (start_mem env P) jb))"

lemma prepare_model_ok:
  assumes "prepare_model env S cf ro = Inr P"
  shows "pr_shards P = S" "pr_cfg P = cf" "planned env S cf (pr_plan P)"
    and "ld_jobs (pr_loader P) = ld_jobs (queue_model S cf (pr_plan P) ro)"
    and "ld_groups (pr_loader P) = ld_groups (queue_model S cf (pr_plan P) ro)"
proof -
  obtain ap where ap: "plan_arena env S cf = Inr ap"
    using assms by (auto simp: prepare_model_def split: sum.splits)
  with assms have P: "P = \<lparr>pr_shards = S, pr_cfg = cf, pr_plan = ap,
      pr_loader = snd (alloc_slots env ap (queue_model S cf ap ro)),
      pr_slots = fst (alloc_slots env ap (queue_model S cf ap ro))\<rparr>"
    by (auto simp: prepare_model_def case_prod_unfold Let_def split: if_splits)
  then show "pr_shards P = S" "pr_cfg P = cf" "planned env S cf (pr_plan P)"
    using plan_arena_ok [OF ap] by simp_all
  show "ld_jobs (pr_loader P) = ld_jobs (queue_model S cf (pr_plan P) ro)"
    "ld_groups (pr_loader P) = ld_groups (queue_model S cf (pr_plan P) ro)"
    using P by (simp_all add: alloc_slots_def alloc_dev_def Let_def)
qed

lemma length_arena: "length (start_mem env P Arena) = ap_bytes (pr_plan P)"
  by simp

lemma model_jobs_ok:
  assumes P: "prepare_model env S cf ro = Inr P" and fit: "loadable env P"
  shows "jobs_ok (model_data env P) (sorted_jobs (pr_loader P)) (start_mem env P)"
proof -
  note p = prepare_model_ok [OF P]
  let ?js = "ld_jobs (pr_loader P)" let ?data = "model_data env P"
  have there: "l < cf_n_layers cf \<Longrightarrow> cf_moe cf ! l \<Longrightarrow> pieces_there S (cf_n_expert cf) l" for l
    by (rule planned_there [OF p(3)])
  note q = queue_model_ok [where S = S and cf = cf and ap = "pr_plan P" and ro = ro, OF there]
  have arena: "arena_jobs ?js = concat (map (layer_jobs (pr_shards P) cf (pr_plan P)) [0..<cf_n_layers cf])"
    unfolding p(1,4) by (rule q(3))
  have "distinct (own_regions ?js)" using q(1) unfolding p(4) regions_ok_def by blast
  then have "sorted_wrt (apart ?data) ?js"
  proof (rule jobs_apart)
    have "planned env (pr_shards P) cf (pr_plan P)" unfolding p(1) by (rule p(3))
    from arena_apart [OF this] show "sorted_wrt (apart ?data) (arena_jobs ?js)" unfolding arena .
  qed
  then have ap: "sorted_wrt (apart ?data) (sorted_jobs (pr_loader P))"
    by (rule sorted_wrt_perm [where P = "apart ?data", rotated]) (simp_all add: sorted_jobs_def apart_sym)
  have fits: "fits ?data (start_mem env P) jb" if jb: "jb \<in> set ?js" for jb
  proof (cases "jb_region jb = Arena")
    case False
    with fit jb show ?thesis by (simp add: loadable_def)
  next
    case True
    then have "jb \<in> set (arena_jobs ?js)" using jb by (simp add: arena_jobs_def)
    then obtain l e i where l: "l < cf_n_layers cf" "cf_moe cf ! l" "e < cf_n_expert cf" "i < 12"
      and j: "jb = piece_job (pr_shards P) (pr_plan P) l e i"
      unfolding arena by (auto simp: layer_jobs_set)
    obtain t where t: "ti_bytes t = piece_len (pr_plan P) l i" "jb_ti jb = t"
      using planned_piece [OF p(3) l] j p(1) by metis
    obtain d where "reader env (pr_shards P) (jb_ti jb) = Inr d" using fit jb by (auto simp: loadable_def)
    note d = raw_data [OF _ this]
    have "jb_at jb + length d \<le> ap_bytes (pr_plan P)"
      using piece_in_arena [OF p(3) l] d(3) t j by simp
    with d j show ?thesis by (simp add: fits_def)
  qed
  have "set (sorted_jobs (pr_loader P)) = set ?js" by (simp add: sorted_jobs_def)
  with fits have "\<forall>i < length (sorted_jobs (pr_loader P)). fits ?data (start_mem env P) (sorted_jobs (pr_loader P) ! i)"
    by (metis nth_mem)
  moreover have "apart ?data (sorted_jobs (pr_loader P) ! i) (sorted_jobs (pr_loader P) ! j)"
    if "i < length (sorted_jobs (pr_loader P))" "j < length (sorted_jobs (pr_loader P))" "i \<noteq> j" for i j
    using that ap apart_sym unfolding sorted_wrt_iff_nth_less by (metis linorder_neqE_nat)
  ultimately show ?thesis by (simp add: jobs_ok_def)
qed

section \<open>Loading succeeds and puts every tensor in its place\<close>

lemma all_right_True: "(\<And>x. x \<in> set xs \<Longrightarrow> f x = Inr True) \<Longrightarrow> all_right f xs = Inr True"
  by (induction xs) simp_all

text \<open>The run has ended and every job's data are where the job says.\<close>

definition all_placed :: "LoadEnv \<Rightarrow> Prepared \<Rightarrow> Mem \<Rightarrow> bool" where
  "all_placed env P m \<longleftrightarrow> (\<forall>jb \<in> set (ld_jobs (pr_loader P)).
     written (model_data env P) m jb (length (dat (model_data env P) jb)))"

lemma raw_placed:
  assumes "all_placed env P m" and "loadable env P" and "jb \<in> set (ld_jobs (pr_loader P))"
    and "jb_kind jb = JobRaw" and "jb_region jb \<noteq> NullPtr"
  obtains d where "reader env (pr_shards P) (jb_ti jb) = Inr d"
    and "tensor_bytes (en_files env) (pr_shards P) (jb_ti jb) = Some d"
    and "segment (jb_at jb) (ti_bytes (jb_ti jb)) (m (jb_region jb)) = d"
proof -
  obtain d where r: "reader env (pr_shards P) (jb_ti jb) = Inr d"
    using assms(2,3) by (auto simp: loadable_def)
  note d = raw_data [OF assms(4) r]
  have "written (model_data env P) m jb (length d)" using assms(1,3) d(2) by (auto simp: all_placed_def)
  then have "segment (jb_at jb) (ti_bytes (jb_ti jb)) (m (jb_region jb)) = d"
    using assms(5) d(2,3) by (simp add: written_def)
  with that [OF r d(4)] show thesis .
qed

definition experts_placed :: "LoadEnv \<Rightarrow> Prepared \<Rightarrow> Mem \<Rightarrow> bool" where
  "experts_placed env P m \<longleftrightarrow>
     (\<forall>l < cf_n_layers (pr_cfg P). cf_moe (pr_cfg P) ! l \<longrightarrow>
       (\<forall>e < cf_n_expert (pr_cfg P). \<forall>t < 3. \<forall>q < 4. \<exists>ti d.
          find_tensor (pr_shards P) (expert_base l e t @ piece_suffix q) = Some ti \<and>
          tensor_bytes (en_files env) (pr_shards P) ti = Some d \<and>
          segment (slab_at (pr_plan P) l e + lay_off (lay_of (pr_plan P) l) ! (t * 4 + q)) (ti_bytes ti) (m Arena) = d))"

definition groups_placed :: "LoadEnv \<Rightarrow> Prepared \<Rightarrow> Mem \<Rightarrow> bool" where
  "groups_placed env P m \<longleftrightarrow>
     (\<forall>(n, g) \<in> set (ld_groups (pr_loader P)). \<forall>(n', r) \<in> set (group_parts n g). r = NullPtr \<or>
        (\<exists>ti d. find_tensor (pr_shards P) n' = Some ti \<and> tensor_bytes (en_files env) (pr_shards P) ti = Some d \<and>
           take (ti_bytes ti) (m r) = d))"

lemma piece_placed:
  assumes P: "prepare_model env S cf ro = Inr P" and fit: "loadable env P" and m: "all_placed env P m"
    and l: "l < cf_n_layers cf" "cf_moe cf ! l" and e: "e < cf_n_expert cf" and t: "t < 3" and q: "q < 4"
  obtains ti d where "find_tensor (pr_shards P) (expert_base l e t @ piece_suffix q) = Some ti"
    and "reader env (pr_shards P) ti = Inr d"
    and "tensor_bytes (en_files env) (pr_shards P) ti = Some d"
    and "segment (slab_at (pr_plan P) l e + lay_off (lay_of (pr_plan P) l) ! (t * 4 + q)) (ti_bytes ti) (m Arena) = d"
proof -
  note p = prepare_model_ok [OF P]
  let ?i = "t * 4 + q" let ?jb = "piece_job S (pr_plan P) l e ?i"
  have i: "?i < 12" "?i div 4 = t" "?i mod 4 = q" using t q by simp_all
  obtain ti where ti: "find_tensor S (expert_base l e (?i div 4) @ piece_suffix (?i mod 4)) = Some ti" "jb_ti ?jb = ti"
    by (rule planned_piece [OF p(3) l e i(1)])
  have "?jb \<in> set (layer_jobs S cf (pr_plan P) l)" unfolding layer_jobs_set using l(2) e i(1) by blast
  then have "?jb \<in> set (concat (map (layer_jobs S cf (pr_plan P)) [0..<cf_n_layers cf]))" using l(1) by auto
  also have "concat (map (layer_jobs S cf (pr_plan P)) [0..<cf_n_layers cf]) =
      arena_jobs (ld_jobs (queue_model S cf (pr_plan P) ro))"
    by (rule queue_model_ok(3) [symmetric]) (rule planned_there [OF p(3)])
  finally have "?jb \<in> set (ld_jobs (pr_loader P))" unfolding p(4) by (simp add: arena_jobs_def)
  then obtain d where d: "reader env (pr_shards P) ti = Inr d" "tensor_bytes (en_files env) (pr_shards P) ti = Some d"
    "segment (piece_at (pr_plan P) l e ?i) (ti_bytes ti) (m Arena) = d"
    using raw_placed [OF m fit, of ?jb] ti(2) by auto
  with that [of ti d] ti(1) i show thesis unfolding p(1) by simp
qed

lemma part_placed:
  assumes P: "prepare_model env S cf ro = Inr P" and fit: "loadable env P" and m: "all_placed env P m"
    and g: "(n, g) \<in> set (ld_groups (pr_loader P))" "(n', r) \<in> set (group_parts n g)" "r \<noteq> NullPtr"
  obtains ti d where "find_tensor (pr_shards P) n' = Some ti" and "reader env (pr_shards P) ti = Inr d"
    and "tensor_bytes (en_files env) (pr_shards P) ti = Some d" and "take (ti_bytes ti) (m r) = d"
proof -
  note p = prepare_model_ok [OF P]
  have "groups_ok S (queue_model S cf (pr_plan P) ro)"
    by (rule queue_model_ok(2)) (rule planned_there [OF p(3)])
  with g have "part_queued S (queue_model S cf (pr_plan P) ro) (n', r)"
    unfolding groups_ok_def p(5) by fast
  with g(3) obtain ti dev where ti: "find_tensor S n' = Some ti" "job_for ti r 0 dev JobRaw \<in> set (ld_jobs (pr_loader P))"
    unfolding part_queued_def p(4) by auto
  from raw_placed [OF m fit ti(2)] g(3) obtain d where
    "reader env (pr_shards P) ti = Inr d" "tensor_bytes (en_files env) (pr_shards P) ti = Some d"
    "take (ti_bytes ti) (m r) = d" by (auto simp: job_for_def)
  with that [of ti d] ti(1) p(1) show thesis by simp
qed

lemma plan_no_experts:
  "plan_layers layout 0 moe ls ap = Inr ap' \<Longrightarrow> ap_bytes ap' = ap_bytes ap"
proof (induction ls arbitrary: ap)
  case (Cons l ls)
  show ?case
  proof (cases "moe ! l")
    case True
    with Cons.prems obtain lay where "plan_layers layout 0 moe ls (plan_add 0 l lay ap) = Inr ap'"
      by (auto simp: bind_sum_Inr)
    from Cons.IH [OF this] show ?thesis by (simp add: plan_add_def)
  next
    case False
    with Cons show ?thesis by simp
  qed
qed simp

lemma prepared_has_experts:
  assumes "prepare_model env S cf ro = Inr P"
  shows "0 < cf_n_expert cf"
proof (rule ccontr)
  assume "\<not> 0 < cf_n_expert cf"
  then have z: "cf_n_expert cf = 0" by simp
  obtain ap where ap: "plan_arena env S cf = Inr ap" "ap_bytes ap \<noteq> 0"
    using assms by (auto simp: prepare_model_def split: sum.splits if_splits)
  from plan_no_experts [OF ap(1) [unfolded plan_arena_def z]] ap(2) show False by (simp add: plan_new_def)
qed

lemma slabs_verified:
  assumes P: "prepare_model env S cf ro = Inr P" and fit: "loadable env P" and m: "all_placed env P m"
  shows "verify_slabs env P m picks = Inr True"
proof -
  note p = prepare_model_ok [OF P]
  have "verify_piece env P m pick = Inr True" if ne: "sparse_layers P \<noteq> []" for pick
  proof -
    obtain r1 r2 r3 r4 where pick: "pick = (r1, r2, r3, r4)" by (cases pick)
    let ?l = "sparse_layers P ! (r1 mod length (sparse_layers P))"
    have "?l \<in> set (sparse_layers P)" using ne by (intro nth_mem) simp
    then have l: "?l < cf_n_layers cf" "0 \<le> ap_slot_base (pr_plan P) ! ?l" by (auto simp: sparse_layers_def p(2))
    then have moe: "cf_moe cf ! ?l" using p(3) unfolding planned_def by (metis option.distinct(1))
    have e: "r2 mod cf_n_expert cf < cf_n_expert cf" using prepared_has_experts [OF P] by simp
    obtain ti d where "find_tensor (pr_shards P) (expert_base ?l (r2 mod cf_n_expert cf) (r4 mod 3) @ piece_suffix (r3 mod 4)) = Some ti"
      "reader env (pr_shards P) ti = Inr d"
      "segment (slab_at (pr_plan P) ?l (r2 mod cf_n_expert cf) + lay_off (lay_of (pr_plan P) ?l) ! (r4 mod 3 * 4 + r3 mod 4))
         (ti_bytes ti) (m Arena) = d"
      by (rule piece_placed [OF P fit m l(1) moe e, of "r4 mod 3" "r3 mod 4"]) simp_all
    then show ?thesis by (simp add: verify_piece_def pick p(2))
  qed
  then show ?thesis by (simp add: verify_slabs_def all_right_True)
qed

text \<open>The sizes that the second verification expects are those of the tensors: it reads a whole tensor
  into a buffer of the size it expects.\<close>

definition gpu_items :: "Prepared \<Rightarrow> (bytes \<times> Region \<times> nat) list" where
  "gpu_items P = concat (map (group_items (pr_loader P))
     (concat (map (group_names (pr_cfg P)) [0..<cf_n_layers (pr_cfg P)]) @ [''lm_head'']))"

definition sizes_agree :: "Prepared \<Rightarrow> bool" where
  "sizes_agree P \<longleftrightarrow> (\<forall>(n, r, sz) \<in> set (gpu_items P). \<forall>ti. find_tensor (pr_shards P) n = Some ti \<longrightarrow>
     sz = 0 \<or> ti_bytes ti \<le> sz)"

lemma group_items_parts:
  assumes "(n', r, k) \<in> set (group_items L n)"
  shows "\<exists>g. map_of (ld_groups L) n = Some g \<and> (n', r) \<in> set (group_parts n g) \<and> r \<noteq> NullPtr"
  using assms by (cases "map_of (ld_groups L) n") (auto simp: group_items_def group_parts_def split: if_splits)

lemma gpu_verified:
  assumes P: "prepare_model env S cf ro = Inr P" and fit: "loadable env P" and m: "all_placed env P m"
    and sz: "sizes_agree P"
  shows "verify_gpu_tensors env P m = Inr True"
  unfolding verify_gpu_tensors_def gpu_items_def [symmetric]
proof (rule all_right_True)
  fix item assume item: "item \<in> set (gpu_items P)"
  obtain n' r k where i: "item = (n', r, k)" by (cases item)
  from item obtain n where "(n', r, k) \<in> set (group_items (pr_loader P) n)" unfolding i gpu_items_def by auto
  then obtain g where g: "map_of (ld_groups (pr_loader P)) n = Some g" "(n', r) \<in> set (group_parts n g)" "r \<noteq> NullPtr"
    using group_items_parts by blast
  obtain ti d where t: "find_tensor (pr_shards P) n' = Some ti" "reader env (pr_shards P) ti = Inr d"
    "take (ti_bytes ti) (m r) = d"
    by (rule part_placed [OF P fit m map_of_SomeD [OF g(1)] g(2,3)])
  have "k = 0 \<or> ti_bytes ti \<le> k" using sz item t(1) unfolding sizes_agree_def i by blast
  with t show "verify_item env P m item = Inr True" by (auto simp: verify_item_def i min_def Let_def)
qed

lemma load_model_ok:
  assumes P: "prepare_model env S cf ro = Inr P" and fit: "loadable env P"
    and fair: "fair_for 16 (jobs_left (model_data env P) (sorted_jobs (pr_loader P)) 0) sched"
    and sz: "\<not> ro \<Longrightarrow> sizes_agree P"
  shows "\<exists>m. load_model env grain sched picks P ro = Ready P m \<and> experts_placed env P m \<and> groups_placed env P m"
proof -
  let ?js = "sorted_jobs (pr_loader P)"
  let ?R = "run_jobs (model_data env P) ?js grain sched (start_mem env P)"
  note run = run_jobs_places [OF model_jobs_ok [OF P fit] fair, where grain = grain]
  note p = prepare_model_ok [OF P]
  have "set ?js = set (ld_jobs (pr_loader P))" by (simp add: sorted_jobs_def)
  then have m: "all_placed env P (rn_mem ?R)" unfolding all_placed_def using run(3) by (metis in_set_conv_nth)
  have "load_model env grain sched picks P ro = Ready P (rn_mem ?R)"
    using run(1,2) slabs_verified [OF P fit m, of picks] gpu_verified [OF P fit m] sz
    by (cases ro) (simp_all add: load_model_def Let_def)
  moreover have "experts_placed env P (rn_mem ?R)"
    unfolding experts_placed_def p(2)
  proof (intro allI impI)
    fix l e t q :: nat
    assume "l < cf_n_layers cf" "cf_moe cf ! l" "e < cf_n_expert cf" "t < 3" "q < 4"
    from piece_placed [OF P fit m this]
    show "\<exists>ti d. find_tensor (pr_shards P) (expert_base l e t @ piece_suffix q) = Some ti \<and>
        tensor_bytes (en_files env) (pr_shards P) ti = Some d \<and>
        segment (slab_at (pr_plan P) l e + lay_off (lay_of (pr_plan P) l) ! (t * 4 + q)) (ti_bytes ti) (rn_mem ?R Arena) = d"
      by blast
  qed
  moreover have "groups_placed env P (rn_mem ?R)"
  proof -
    have "r = NullPtr \<or> (\<exists>ti d. find_tensor (pr_shards P) n' = Some ti \<and>
        tensor_bytes (en_files env) (pr_shards P) ti = Some d \<and> take (ti_bytes ti) (rn_mem ?R r) = d)"
      if g: "(n, g) \<in> set (ld_groups (pr_loader P))" "(n', r) \<in> set (group_parts n g)" for n g n' r
      using part_placed [OF P fit m g] by blast
    then show ?thesis unfolding groups_placed_def by fast
  qed
  ultimately show ?thesis by blast
qed

end
