(* ===== verification/Load_Typing.thy ===== *)
theory Load_Typing
  imports Loader
begin

text \<open>
  A type discipline for the loader's jobs: the destination, the device and the kind of a job go
  together, and the destination has been allocated, with room for what the kind writes.
\<close>

definition embed_name :: bytes where
  "embed_name = ''model.language_model.embed_tokens.weight''"

text \<open>Room in an allocation: a copy needs the tensor's bytes, a conversion two bytes per element.  The
  embedding's allocation is sized from the configuration instead.\<close>

definition roomy :: "ShardSet \<Rightarrow> Job \<Rightarrow> nat \<Rightarrow> bool" where
  "roomy S jb sz \<longleftrightarrow>
     (case jb_kind jb of
        JobRaw \<Rightarrow> ti_bytes (jb_ti jb) \<le> sz \<or> find_tensor S embed_name = Some (jb_ti jb)
      | JobBf16F16 \<Rightarrow> ti_bytes (jb_ti jb) \<le> sz
      | JobF32F16 \<Rightarrow> 2 * ti_elems (jb_ti jb) \<le> sz
      | JobRouterBias \<Rightarrow> 2 * ti_elems (jb_ti jb) \<le> sz
      | JobMul1 \<Rightarrow> False)"

definition job_typed :: "ShardSet \<Rightarrow> Loader \<Rightarrow> Job \<Rightarrow> bool" where
  "job_typed S L jb \<longleftrightarrow> jb_bytes jb = ti_bytes (jb_ti jb) \<and>
     (case jb_region jb of
        Arena \<Rightarrow> jb_device jb = -1 \<and> jb_kind jb = JobRaw
      | HostWord w \<Rightarrow> jb_device jb = -1 \<and> jb_kind jb = JobMul1 \<and> jb_at jb = 0 \<and> w < ld_words L
      | Device d k \<Rightarrow> jb_device jb = int d \<and> jb_at jb = 0 \<and> k < length (ld_gpu L d) \<and> roomy S jb (ld_gpu L d ! k)
      | NullPtr \<Rightarrow> jb_device jb = 0 \<and> jb_kind jb = JobF32F16 \<and> ld_ram_only L)"

definition extends :: "Loader \<Rightarrow> Loader \<Rightarrow> bool" where
  "extends L L' \<longleftrightarrow> ld_ram_only L' = ld_ram_only L \<and> ld_words L \<le> ld_words L' \<and>
     (\<forall>d. \<exists>xs. ld_gpu L' d = ld_gpu L d @ xs)"

definition typed :: "ShardSet \<Rightarrow> Loader \<Rightarrow> bool" where
  "typed S L \<longleftrightarrow> (\<forall>jb \<in> set (ld_jobs L). job_typed S L jb)"

definition keeps_types :: "ShardSet \<Rightarrow> Job list \<Rightarrow> (Loader \<Rightarrow> Loader) \<Rightarrow> bool" where
  "keeps_types S as f \<longleftrightarrow> (\<forall>L. typed S L \<longrightarrow> typed S (f L))"

lemma extends_typed: "extends L L' \<Longrightarrow> job_typed S L jb \<Longrightarrow> job_typed S L' jb"
proof -
  assume e: "extends L L'" and t: "job_typed S L jb"
  show "job_typed S L' jb"
  proof (cases "jb_region jb")
    case (Device d k)
    obtain xs where xs: "ld_gpu L' d = ld_gpu L d @ xs" using e by (auto simp: extends_def)
    have "k < length (ld_gpu L d)" using t Device by (simp add: job_typed_def)
    then have "ld_gpu L' d ! k = ld_gpu L d ! k" using xs by (simp add: nth_append)
    with t Device xs show ?thesis by (simp add: job_typed_def)
  next
    case (HostWord w)
    with e t show ?thesis by (auto simp: job_typed_def extends_def)
  qed (use e t in \<open>simp_all add: job_typed_def extends_def\<close>)
qed

lemma keeps_typesI:
  assumes "\<And>L. extends L (f L) \<and> (\<exists>jbs. ld_jobs (f L) = ld_jobs L @ jbs \<and> (\<forall>jb \<in> set jbs. job_typed S (f L) jb))"
  shows "keeps_types S as f"
  unfolding keeps_types_def typed_def
proof (intro allI impI)
  fix L assume t: "\<forall>jb \<in> set (ld_jobs L). job_typed S L jb"
  from assms [of L] obtain jbs where "extends L (f L)" "ld_jobs (f L) = ld_jobs L @ jbs"
    "\<forall>jb \<in> set jbs. job_typed S (f L) jb" by blast
  with t extends_typed show "\<forall>jb \<in> set (ld_jobs (f L)). job_typed S (f L) jb" by fastforce
qed

lemma extends_refl [simp]: "extends L L"
  by (simp add: extends_def)

lemma keeps_in_order: "list_all2 (keeps_types S) jss fs \<Longrightarrow> keeps_types S as (in_order fs)"
proof -
  assume "list_all2 (keeps_types S) jss fs"
  then have "\<forall>f \<in> set fs. \<forall>L. typed S L \<longrightarrow> typed S (f L)"
    by (induction rule: list_all2_induct) (auto simp: keeps_types_def)
  then have "typed S L \<longrightarrow> typed S (fold (\<lambda>f s. f s) fs L)" for L
    by (induction fs arbitrary: L) auto
  then show ?thesis by (simp add: keeps_types_def in_order_def)
qed

lemmas queue_defs = alloc_dev_def queue_job_def push_job_def job_for_def extends_def job_typed_def roomy_def

lemma keeps_place:
  assumes "(kind = JobRaw \<or> kind = JobBf16F16) \<and> sz = ti_bytes t \<or> kind = JobRouterBias \<and> sz = ti_elems t * 2"
  shows "keeps_types S [] (place_tensor name t sz dev kind)"
  by (rule keeps_typesI) (use assms in \<open>auto simp: place_tensor_def queue_defs nth_append\<close>)

lemma keeps_both: "keeps_types S [] (place_both name t)"
  by (rule keeps_typesI) (auto simp: place_both_def queue_defs nth_append Let_def)

lemma keeps_group: "keeps_types S [] (queue_group base tr su sv mu dev)"
  by (rule keeps_typesI) (auto simp: queue_group_def queue_defs nth_append Let_def)

lemma keeps_embed: "keeps_types S [] (load_embed S cf)"
  by (rule keeps_typesI)
    (auto simp: load_embed_def queue_defs nth_append Let_def find_T_eq embed_name_def split: option.splits)

lemma keeps_piece: "keeps_types S as (push_job (piece_job S ap l e i))"
  by (rule keeps_typesI) (auto simp: piece_job_def queue_defs)

interpretation typing: queueing S "keeps_types S"
proof
  show "list_all2 (keeps_types S) jss fs \<Longrightarrow> keeps_types S (concat jss) (in_order fs)" for jss fs
    by (rule keeps_in_order)
  show "(\<And>L. \<exists>g. f L = g L \<and> keeps_types S as g) \<Longrightarrow> keeps_types S as f" for f as
    unfolding keeps_types_def by metis
  show "keeps_types S [] (\<lambda>L. L\<lparr>ld_missing := x L\<rparr>)" for x
    by (rule keeps_typesI) (simp add: extends_def)
  show "keeps_types S [] (\<lambda>L. L\<lparr>ld_arena_layer := ls L\<rparr>)" for ls
    by (rule keeps_typesI) (simp add: extends_def)
qed (simp_all add: keeps_place keeps_both keeps_group keeps_embed keeps_piece)

lemma queue_model_typed:
  assumes "\<And>l. l < cf_n_layers cf \<Longrightarrow> cf_moe cf ! l \<Longrightarrow> pieces_there S (cf_n_expert cf) l"
  shows "typed S (queue_model S cf ap ro)"
proof -
  have "typed S (loader_new ro)" by (simp add: typed_def loader_new_def)
  moreover obtain f as where "queue_model S cf ap ro = f (loader_new ro)" "keeps_types S as f"
    using typing.queue_model_good [where cf = cf and ap = ap and ro = ro, OF assms] by blast
  ultimately show ?thesis by (simp add: keeps_types_def)
qed

end
