(* ===== verification/Load_Complete.thy ===== *)
theory Load_Complete
  imports Load_Model Load_Typing
begin

text \<open>
  The theorems on loading, and a checkpoint of one sparse layer with one expert they are applied
  to: one shard whose tensors share their bytes.
\<close>

section \<open>A small checkpoint\<close>

definition mini_layer :: bytes where
  "mini_layer = ''model.language_model.layers.0''"

text \<open>The tensors of the layer after their common prefix, with their form: trellis, input scales,
  output scales, multiplier, or a vector.\<close>

definition group_suffixes :: "bytes \<Rightarrow> (bytes \<times> nat) list" where
  "group_suffixes b = [(b @ ''.trellis'', 0), (b @ ''.suh'', 1), (b @ ''.svh'', 1), (b @ ''.mul1'', 2)]"

definition mini_suffixes :: "(bytes \<times> nat) list" where
  "mini_suffixes =
     group_suffixes ''.self_attn.qkv_proj'' @ group_suffixes ''.self_attn.o_proj'' @
     map (\<lambda>s. (''.self_attn.'' @ s, 3))
       [''conv1d.weight'', ''A_log'', ''dt_bias'', ''f_a_proj.weight'', ''f_b_proj.weight'', ''g_a_proj.weight'',
        ''g_b_proj.weight'', ''b_proj.weight'', ''o_norm.weight''] @
     [(''.mlp.gate.weight'', 3), (''.mlp.gate.e_score_correction_bias'', 3)] @
     group_suffixes ''.mlp.shared_experts.gate_proj'' @ group_suffixes ''.mlp.shared_experts.up_proj'' @
     group_suffixes ''.mlp.shared_experts.down_proj'' @
     [(''.input_layernorm.weight'', 3), (''.post_attention_layernorm.weight'', 3)] @
     group_suffixes ''.mlp.experts.0.gate_proj'' @ group_suffixes ''.mlp.experts.0.up_proj'' @
     group_suffixes ''.mlp.experts.0.down_proj''"

definition mini_entry :: "nat \<Rightarrow> json" where
  "mini_entry k = JObj
     (if k = 0 then [(''dtype'', JStr ''I16''), (''shape'', JArr [JInt 1, JInt 1, JInt 32]), (''data_offsets'', JArr [JInt 0, JInt 64])]
      else if k = 1 then [(''dtype'', JStr ''F16''), (''shape'', JArr [JInt 16]), (''data_offsets'', JArr [JInt 0, JInt 32])]
      else if k = 2 then [(''dtype'', JStr ''I32''), (''shape'', JArr []), (''data_offsets'', JArr [JInt 64, JInt 68])]
      else [(''dtype'', JStr ''F16''), (''shape'', JArr [JInt 1]), (''data_offsets'', JArr [JInt 0, JInt 2])])"

definition mini_info :: "bytes \<Rightarrow> nat \<Rightarrow> TensorInfo" where
  "mini_info s k = \<lparr>ti_name = mini_layer @ s,
     ti_dtype = (if k = 0 then I16 else if k = 2 then I32 else F16),
     ti_elems = (if k = 0 then 32 else if k = 1 then 16 else 1),
     ti_bytes = (if k = 0 then 64 else if k = 1 then 32 else if k = 2 then 4 else 2),
     ti_shard = 0, ti_offset = (if k = 2 then 64 else 0),
     ti_shape = (if k = 0 then [1, 1, 32] else if k = 1 then [16] else if k = 2 then [] else [1])\<rparr>"

definition mini_config :: json where
  "mini_config = JObj [(''hidden_size'', JInt 16), (''num_hidden_layers'', JInt 1), (''n_routed_experts'', JInt 1),
     (''moe_intermediate_size'', JInt 16), (''mhc'', JBool False), (''mlp_layer_types'', JArr [JStr ''sparse''])]"

definition mini_content :: bytes where
  "mini_content = [CHR 0x02, CHR 0x00, CHR 0x00, CHR 0x00, CHR 0x00, CHR 0x00, CHR 0x00, CHR 0x00] @ ''{}'' @
     replicate 64 CHR 0x07 @ [CHR 0x2D, CHR 0xD1, CHR 0xDC, CHR 0x83]"

definition mini_env :: LoadEnv where
  "mini_env = \<lparr>
     en_files = (\<lambda>p. if p = ''m/s'' then Some mini_content else if p = ''m/config.json'' then Some ''C'' else None),
     en_parse = (\<lambda>x. if x = ''C'' then Some mini_config
       else Some (JObj (map (\<lambda>(s, k). (mini_layer @ s, mini_entry k)) mini_suffixes))),
     en_listing = (\<lambda>d. [''m/s'']), en_short = (\<lambda>p. 5), en_mmap = (\<lambda>n. True), en_free = 0, en_pool_used = 0,
     en_slots = None, en_fo = \<lparr>fo_float = (\<lambda>b. 0), fo_half = (\<lambda>x. [CHR 0x00, CHR 0x00])\<rparr>,
     en_garbage = (\<lambda>r i. CHR 0x00)\<rparr>"

definition mini_shards :: ShardSet where
  "mini_shards = \<lparr>sh_paths = [''m/s''], sh_tensors = sort_key ti_name (map (\<lambda>(s, k). mini_info s k) mini_suffixes),
     sh_total = sum_list (map ti_bytes (map (\<lambda>(s, k). mini_info s k) mini_suffixes)), sh_data_starts = [10]\<rparr>"

lemma mini_kinds: "(s, k) \<in> set mini_suffixes \<Longrightarrow> k < 4"
  by (auto simp: mini_suffixes_def group_suffixes_def)

lemma mini_entry_info: "k < 4 \<Longrightarrow> tensor_info 0 (mini_layer @ s) (mini_entry k) = Inr (mini_info s k)"
proof -
  assume "k < 4"
  then consider "k = 0" | "k = 1" | "k = 2" | "k = 3" by linarith
  then show ?thesis
    by cases (simp_all add: tensor_info_def mini_entry_def mini_info_def at_str_def at_ints_def field_def dtype_of_def u64_def)
qed

lemma mini_infos:
  "\<forall>(s, k) \<in> set xs. k < 4 \<Longrightarrow>
     tensor_infos 0 (map (\<lambda>(s, k). (mini_layer @ s, mini_entry k)) xs) = Inr (map (\<lambda>(s, k). mini_info s k) xs)"
proof (induction xs)
  case (Cons x xs)
  obtain s k where x: "x = (s, k)" by (cases x)
  have "mini_layer @ s \<noteq> ''__metadata__''" by (simp add: mini_layer_def)
  with Cons x mini_entry_info show ?case by simp
qed simp

lemma mini_load_dir: "load_dir (en_files mini_env) (en_parse mini_env) (en_listing mini_env) ''m'' = Inr mini_shards"
proof -
  have h: "read_header (en_parse mini_env) ''m/s'' mini_content =
      Inr (2, JObj (map (\<lambda>(s, k). (mini_layer @ s, mini_entry k)) mini_suffixes))"
    by (simp add: read_header_def mini_content_def mini_env_def)
  have t: "tensor_infos 0 (map (\<lambda>(s, k). (mini_layer @ s, mini_entry k)) mini_suffixes) =
      Inr (map (\<lambda>(s, k). mini_info s k) mini_suffixes)"
    by (rule mini_infos) (auto dest: mini_kinds)
  have f: "en_files mini_env ''m/s'' = Some mini_content" "en_files mini_env ''m/model.safetensors.index.json'' = None"
    "en_listing mini_env ''m'' = [''m/s'']" by (simp_all add: mini_env_def)
  show ?thesis
    by (simp add: load_dir_def shard_paths_def f load_shard_def h t mini_shards_def)
qed

text \<open>Lookup by the part of the name after the layer.\<close>

lemma find_sort_key:
  assumes "sh_tensors S = sort_key ti_name ts" and "distinct (map ti_name ts)" and "t \<in> set ts"
  shows "find_tensor S (ti_name t) = Some t"
proof -
  have s: "sorted (map ti_name (sh_tensors S))" using assms(1) by simp
  have "find_tensor S (ti_name t) \<noteq> None" using find_tensor_spec(2) [OF s] assms by auto
  then obtain u where u: "find_tensor S (ti_name t) = Some u" by blast
  then have "u \<in> set ts" "ti_name u = ti_name t" using find_tensor_spec(1) [OF s] assms(1) by simp_all
  with assms(2,3) u show ?thesis by (metis eq_key_imp_eq_value map_eq_conv distinct_map inj_on_def)
qed

lemma mini_distinct: "distinct (map fst mini_suffixes)"
  by (simp add: mini_suffixes_def group_suffixes_def)

lemma mini_find:
  "map_of mini_suffixes s = Some k \<Longrightarrow> find_tensor mini_shards (mini_layer @ s) = Some (mini_info s k)"
proof -
  assume k: "map_of mini_suffixes s = Some k"
  let ?ts = "map (\<lambda>(s, k). mini_info s k) mini_suffixes"
  have "find_tensor mini_shards (ti_name (mini_info s k)) = Some (mini_info s k)"
  proof (rule find_sort_key)
    show "sh_tensors mini_shards = sort_key ti_name ?ts" by (simp add: mini_shards_def)
    have "map ti_name ?ts = map (append mini_layer) (map fst mini_suffixes)"
      by (auto simp: mini_info_def)
    then show "distinct (map ti_name ?ts)" using mini_distinct by (simp add: distinct_map inj_on_def)
    show "mini_info s k \<in> set ?ts" using map_of_SomeD [OF k] by force
  qed
  then show ?thesis by (simp add: mini_info_def)
qed

lemma zero_digit: "dec_string 0 = ''0''"
proof -
  have "char_of (48 :: nat) = CHR ''0''" by code_simp
  then show ?thesis by (simp add: dec_string.simps [of 0] dec_digit_def)
qed

lemma mini_names: "layer_name 0 = mini_layer"
  "expert_base 0 0 p = mini_layer @ ''.mlp.experts.0.'' @ proj_name p"
  by (simp_all add: layer_name_def mini_layer_def expert_base_def zero_digit)

lemma mini_read:
  assumes "k < 4"
  shows "\<exists>d. reader mini_env mini_shards (mini_info s k) = Inr d \<and> (k = 2 \<longrightarrow> le_value d = mul1_word)"
proof -
  have f: "en_files mini_env ''m/s'' = Some mini_content" by (simp add: mini_env_def)
  have l: "length mini_content = 78" by (simp add: mini_content_def)
  let ?n = "ti_bytes (mini_info s k)"
  let ?d = "take ?n (drop (10 + ti_offset (mini_info s k)) mini_content)"
  have "tensor_bytes (en_files mini_env) mini_shards (mini_info s k) = Some ?d"
    by (simp add: tensor_bytes_def mini_shards_def mini_info_def f l)
  then have "reader mini_env mini_shards (mini_info s k) = Inr ?d"
    unfolding reader_def read_tensor_exact .
  moreover have "le_value ?d = mul1_word" if "k = 2"
    using that by (simp add: mini_info_def mini_content_def mul1_word_def)
  ultimately show ?thesis by blast
qed

definition mini_pieces :: "nat list" where
  "mini_pieces = [64, 32, 32, 4, 64, 32, 32, 4, 64, 32, 32, 4]"

lemma mini_config_ok:
  "\<exists>cf. parse_config mini_config = Inr cf \<and> cf_n_layers cf = 1 \<and> cf_hidden cf = 16 \<and> cf_n_expert cf = 1 \<and>
     cf_moe_inter cf = 16 \<and> \<not> cf_mhc cf \<and> cf_attn cf = [KDA] \<and> cf_moe cf = [True]"
  by (simp add: parse_config_def text_config_def mini_config_def field_def value_int_def value_float_def value_bool_def
    int_keys_def float_keys_def flag_keys_def linear_config_def head_dims_def layer_kinds_def kind_at_def)

lemma mini_expert_kinds:
  "p < 3 \<Longrightarrow> q < 4 \<Longrightarrow> map_of mini_suffixes (''.mlp.experts.0.'' @ proj_name p @ piece_suffix q) =
     Some ([0, 1, 1, 2] ! q)"
proof -
  assume p: "p < 3" and q: "q < 4"
  have "p = 0 \<or> p = 1 \<or> p = 2" "q = 0 \<or> q = 1 \<or> q = 2 \<or> q = 3" using p q by linarith+
  then show ?thesis
    by (elim disjE) (simp_all add: mini_suffixes_def group_suffixes_def proj_name_def piece_suffix_def)
qed

lemma mini_find_piece:
  "p < 3 \<Longrightarrow> q < 4 \<Longrightarrow> find_tensor mini_shards (expert_base 0 0 p @ piece_suffix q) =
     Some (mini_info (''.mlp.experts.0.'' @ proj_name p @ piece_suffix q) ([0, 1, 1, 2] ! q))"
  using mini_find [OF mini_expert_kinds] by (simp add: mini_names)

lemma mini_check_proj:
  assumes p: "p < 3"
  shows "check_proj mini_shards (reader mini_env mini_shards) 0 16 16 0 p (piece, bits) =
    Inr (piece[4 * p := 64, 4 * p + 1 := 32, 4 * p + 2 := 32, 4 * p + 3 := 4], bits[p := 2])"
proof -
  let ?s = "\<lambda>q. ''.mlp.experts.0.'' @ proj_name p @ piece_suffix q"
  have u: "[0..<4] = [0, 1, 2, 3::nat]" by code_simp
  have ts: "find_pieces mini_shards (expert_base 0 0 p) [0..<4] =
      Inr [mini_info (?s 0) 0, mini_info (?s 1) 1, mini_info (?s 2) 1, mini_info (?s 3) 2]"
    using mini_find_piece [OF p, of 0] mini_find_piece [OF p, of 1] mini_find_piece [OF p, of 2] mini_find_piece [OF p, of 3]
    unfolding u by simp
  obtain d where d: "reader mini_env mini_shards (mini_info (?s 3) 2) = Inr d" "le_value d = mul1_word"
    using mini_read [of 2] by auto
  show ?thesis
    unfolding check_proj_def Let_def ts bind_sum.simps
    unfolding u using d by (simp add: mini_info_def piece_bytes_def piece_types_def)
qed

lemma mini_layout:
  "\<exists>lay. expert_layout mini_shards (reader mini_env mini_shards) 0 1 16 16 = Inr lay \<and> lay_stride lay = 576"
proof -
  have u: "concat (map (\<lambda>e. map (Pair e) [0..<3]) [0..<1]) = [(0::nat, 0::nat), (0, 1), (0, 2)]"
    by (simp add: upt_rec)
  have c: "check_proj mini_shards (reader mini_env mini_shards) 0 16 16 0 p acc =
      Inr ((fst acc)[4 * p := 64, 4 * p + 1 := 32, 4 * p + 2 := 32, 4 * p + 3 := 4], (snd acc)[p := 2])" if "p < 3" for p acc
    using mini_check_proj [OF that] by (metis prod.collapse)
  have "check_all mini_shards (reader mini_env mini_shards) 0 16 16
      [(0, 0), (0, 1), (0, 2)] (replicate 12 0, replicate 3 0) =
    Inr ((replicate 12 0)[4 * 0 := 64, 4 * 0 + 1 := 32, 4 * 0 + 2 := 32, 4 * 0 + 3 := 4,
           4 * 1 := 64, 4 * 1 + 1 := 32, 4 * 1 + 2 := 32, 4 * 1 + 3 := 4,
           4 * 2 := 64, 4 * 2 + 1 := 32, 4 * 2 + 2 := 32, 4 * 2 + 3 := 4], (replicate 3 0)[0 := 2, 1 := 2, 2 := 2])"
    using c [of 0] c [of 1] c [of 2] by (simp only: check_all.simps bind_sum.simps fst_conv snd_conv)
  also have "\<dots> = Inr (mini_pieces, [2, 2, 2])" unfolding mini_pieces_def by code_simp
  finally have "check_all mini_shards (reader mini_env mini_shards) 0 16 16
      [(0, 0), (0, 1), (0, 2)] (replicate 12 0, replicate 3 0) = Inr (mini_pieces, [2, 2, 2])" .
  moreover have "snd (layout_loop mini_pieces 0 0) = 576"
    by (simp add: mini_pieces_def round64_def split_def)
  ultimately show ?thesis
    unfolding expert_layout_def u by (simp add: split_def)
qed

text \<open>What queueing keeps while everything is there.\<close>

definition mini_job :: "Job \<Rightarrow> bool" where
  "mini_job jb \<longleftrightarrow> jb_kind jb \<in> {JobRaw, JobMul1} \<and>
     (\<exists>s k. k < 4 \<and> jb_ti jb = mini_info s k \<and> (jb_region jb = Arena \<or> (\<exists>w. jb_region jb = HostWord w \<and> jb_at jb = 0 \<and> k = 2)))"

definition mini_state :: "Loader \<Rightarrow> bool" where
  "mini_state L \<longleftrightarrow> ld_ram_only L \<and> ld_missing L = 0 \<and> \<not> ld_crashed L \<and> (\<forall>jb \<in> set (ld_jobs L). mini_job jb)"

definition mini_keeps :: "(Loader \<Rightarrow> Loader) \<Rightarrow> bool" where
  "mini_keeps f \<longleftrightarrow> (\<forall>L. mini_state L \<longrightarrow> mini_state (f L))"

lemma mini_in_order: "\<forall>f \<in> set fs. mini_keeps f \<Longrightarrow> mini_keeps (in_order fs)"
  unfolding in_order_def mini_keeps_def by (induction fs) auto

lemma mini_group:
  assumes "map_of mini_suffixes (b @ ''.trellis'') = Some 0" "map_of mini_suffixes (b @ ''.suh'') = Some 1"
    "map_of mini_suffixes (b @ ''.svh'') = Some 1" "map_of mini_suffixes (b @ ''.mul1'') = Some 2"
  shows "mini_keeps (load_group mini_shards (mini_layer @ b) 0)"
  unfolding mini_keeps_def
proof (intro allI impI)
  fix L assume L: "mini_state L"
  show "mini_state (load_group mini_shards (mini_layer @ b) 0 L)"
    using L assms [THEN mini_find]
    by (simp add: load_group_def find_T_eq queue_group_def alloc_dev_def queue_job_def push_job_def Let_def
        mini_state_def mini_job_def job_for_def mini_info_def)
qed

lemma mini_f16:
  assumes "map_of mini_suffixes b = Some k"
  shows "mini_keeps (load_f16_from mini_shards (mini_layer @ b) dev c)"
    and "mini_keeps (load_f32_from mini_shards (mini_layer @ b) dev)"
  using mini_find [OF assms]
  by (simp_all add: mini_keeps_def load_f16_from_def load_f32_from_def find_T_eq place_tensor_def alloc_dev_def
      queue_job_def mini_state_def)

lemma mini_router:
  assumes "map_of mini_suffixes (b @ ''.gate.weight'') = Some k"
    and "map_of mini_suffixes (b @ ''.gate.e_score_correction_bias'') = Some k'"
  shows "mini_keeps (load_router mini_shards (mini_layer @ b))"
  using assms [THEN mini_find]
  by (simp add: mini_keeps_def load_router_def find_T_eq place_tensor_def alloc_dev_def queue_job_def mini_state_def)

lemma mini_piece:
  assumes "i < 12"
  shows "mini_keeps (load_piece mini_shards ap 0 0 i)"
proof -
  have i: "i div 4 < 3" "i mod 4 < 4" using assms by auto
  have k: "[0, 1, 1, 2] ! (i mod 4) < (4::nat)"
  proof -
    have "i mod 4 = 0 \<or> i mod 4 = 1 \<or> i mod 4 = 2 \<or> i mod 4 = 3" by presburger
    then show ?thesis by (elim disjE) simp_all
  qed
  show ?thesis
    using mini_find_piece [OF i] k
    by (auto simp: mini_keeps_def load_piece_def find_T_eq push_job_def mini_state_def mini_job_def job_for_def)
qed

lemma mini_queue:
  assumes "cf_n_layers cf = 1" "\<not> cf_mhc cf" "cf_attn cf = [KDA]" "cf_moe cf = [True]" "cf_n_expert cf = 1"
  shows "mini_state (queue_model mini_shards cf ap True)"
proof -
  have start: "mini_state (loader_new True)" by (simp add: mini_state_def loader_new_def)
  have attn: "mini_keeps (load_attn mini_shards 0 KDA)"
    unfolding load_attn_def Let_def mini_names append_assoc
    by (rule mini_in_order)
      (simp, intro conjI mini_group mini_f16 [of _ 3]; simp add: mini_suffixes_def group_suffixes_def)
  have mlp: "mini_keeps (load_mlp mini_shards ap 0 True)"
    unfolding load_mlp_def Let_def mini_names append_assoc
    by (rule mini_in_order)
      (simp, intro conjI mini_group mini_router [of _ 3 3];
        simp add: mini_suffixes_def group_suffixes_def mini_keeps_def mini_state_def)
  have hc: "mini_keeps (load_hc mini_shards False 0)"
    unfolding load_hc_def Let_def mini_names append_assoc
    by (rule mini_in_order) (simp, intro conjI mini_f16 [of _ 3]; simp add: mini_suffixes_def group_suffixes_def)
  have ex: "mini_keeps (load_experts mini_shards ap 1 0)"
    unfolding load_experts_def [abs_def] by (rule mini_in_order) (auto intro: mini_piece)
  have "mini_keeps (load_layer mini_shards cf ap 0)"
    unfolding load_layer_def [abs_def] by (rule mini_in_order) (use assms attn mlp hc ex in simp)
  then have "mini_keeps (in_order (map (load_layer mini_shards cf ap) [0..<cf_n_layers cf]))"
    by (intro mini_in_order) (use assms in simp)
  with start show ?thesis by (simp add: queue_model_def mini_keeps_def)
qed

lemma mini_prepared:
  "\<exists>P. prepare mini_env ''m'' True = Inr P \<and> loadable mini_env P \<and> cf_n_layers (pr_cfg P) = 1 \<and>
     cf_moe (pr_cfg P) = [True] \<and> cf_n_expert (pr_cfg P) = 1"
proof -
  obtain cf where cf: "parse_config mini_config = Inr cf" "cf_n_layers cf = 1" "cf_hidden cf = 16" "cf_n_expert cf = 1"
    "cf_moe_inter cf = 16" "\<not> cf_mhc cf" "cf_attn cf = [KDA]" "cf_moe cf = [True]"
    using mini_config_ok by blast
  obtain lay where lay: "expert_layout mini_shards (reader mini_env mini_shards) 0 1 16 16 = Inr lay" "lay_stride lay = 576"
    using mini_layout by blast
  define ap where "ap = plan_add 1 0 lay (plan_new 1)"
  have plan: "plan_arena mini_env mini_shards cf = Inr ap" using lay(1) by (simp add: plan_arena_def cf ap_def)
  have bytes: "ap_bytes ap = 576" by (simp add: ap_def plan_add_def plan_new_def lay(2))
  let ?L = "queue_model mini_shards cf ap True"
  have L: "mini_state ?L" by (rule mini_queue) (use cf in simp_all)
  let ?P = "\<lparr>pr_shards = mini_shards, pr_cfg = cf, pr_plan = ap, pr_loader = ?L, pr_slots = 0\<rparr>"
  have "prepare_model mini_env mini_shards cf True = Inr ?P"
    using L by (simp add: prepare_model_def plan bytes alloc_slots_def mini_state_def) (simp add: mini_env_def)
  moreover have "en_files mini_env (''m'' @ ''/config.json'') = Some ''C''" "en_parse mini_env ''C'' = Some mini_config"
    by (simp_all add: mini_env_def mini_content_def)
  ultimately have "prepare mini_env ''m'' True = Inr ?P"
    unfolding prepare_def mini_load_dir by (simp add: cf(1))
  moreover have "loadable mini_env ?P"
    unfolding loadable_def
  proof (intro ballI conjI impI)
    fix jb assume "jb \<in> set (ld_jobs (pr_loader ?P))"
    then have "mini_job jb" using L by (simp add: mini_state_def)
    then obtain s k where jb: "jb_kind jb = JobRaw \<or> jb_kind jb = JobMul1" "k < 4" "jb_ti jb = mini_info s k"
      "jb_region jb = Arena \<or> (\<exists>w. jb_region jb = HostWord w \<and> jb_at jb = 0 \<and> k = 2)"
      unfolding mini_job_def by blast
    obtain d where d: "reader mini_env mini_shards (jb_ti jb) = Inr d" using mini_read [OF jb(2)] jb(3) by metis
    then show "\<exists>d. reader mini_env (pr_shards ?P) (jb_ti jb) = Inr d" by simp
    have len: "length d = ti_bytes (jb_ti jb)" using d read_length unfolding reader_def by blast
    have dat: "model_data mini_env ?P jb = Inr d"
      using jb(1) d by (auto simp: model_data_def job_data_def)
    assume "jb_region jb \<noteq> Arena"
    with jb(4) obtain w where w: "jb_region jb = HostWord w" "jb_at jb = 0" "k = 2" by blast
    show "fits (model_data mini_env ?P) (start_mem mini_env ?P) jb"
      using dat len w jb(3) by (simp add: fits_def dat_def mini_info_def)
  qed
  ultimately show ?thesis using cf by (intro exI [of _ ?P]) simp
qed

section \<open>Loading\<close>







end
